(* ===== verification/Prelude.thy ===== *)
theory Prelude
  imports Main "HOL-Library.Word" "HOL-Library.Multiset" "HOL-Library.Sublist"
begin

text \<open>
  Shared vocabulary of the development: the machine types of the Rust code, the standard
  library operations several components use (little-endian byte arrays, checked addition),
  the loop shape \<open>while let Some(x) = receiver.recv().await\<close>, and the two interfaces the
  components meet at: a long-running service with an invariant, and an append-only log.
\<close>

section \<open>Machine types and proof collections\<close>

type_synonym u8 = "8 word"
type_synonym u16 = "16 word"
type_synonym u32 = "32 word"
type_synonym u64 = "64 word"
type_synonym bytes = "u8 list"

named_theorems byte_simps \<open>equations of the little-endian byte codec\<close>
named_theorems service_defs \<open>bodies of the service loops\<close>

text \<open>\<open>u64::MAX\<close>.\<close>

definition u64_MAX :: u64 where
  "u64_MAX = - 1"

text \<open>
  Rust's \<open>a + b\<close> on \<open>u64\<close> with overflow checks on (the profile \<open>cargo run\<close> uses):
  \<open>None\<close> is the panic.
\<close>

definition checked_add :: "u64 \<Rightarrow> u64 \<Rightarrow> u64 option" where
  "checked_add a b = (if unat a + unat b < 2 ^ 64 then Some (a + b) else None)"

section \<open>Little-endian bytes\<close>

text \<open>\<open>to_le_bytes\<close> of a \<open>k\<close>-byte unsigned integer with value \<open>n\<close>, and its inverse.\<close>

primrec le_bytes :: "nat \<Rightarrow> nat \<Rightarrow> bytes" where
  "le_bytes 0 n = []"
| "le_bytes (Suc k) n = word_of_nat (n mod 256) # le_bytes k (n div 256)"

primrec of_le_bytes :: "bytes \<Rightarrow> nat" where
  "of_le_bytes [] = 0"
| "of_le_bytes (b # bs) = unat b + 256 * of_le_bytes bs"

definition u32_to_le_bytes :: "u32 \<Rightarrow> bytes" where
  "u32_to_le_bytes w = le_bytes 4 (unat w)"

definition u64_to_le_bytes :: "u64 \<Rightarrow> bytes" where
  "u64_to_le_bytes w = le_bytes 8 (unat w)"

definition u32_from_le_bytes :: "bytes \<Rightarrow> u32" where
  "u32_from_le_bytes bs = word_of_nat (of_le_bytes bs)"

section \<open>Service loops\<close>

text \<open>
  \<open>while let Some(x) = receiver.recv().await { body }\<close> over the messages received so far.
  The body returns the new state and, when it leaves the loop early (\<open>bail!\<close>, \<open>?\<close>, a
  panic), the reason. An exhausted message list with reason \<open>None\<close> is a service that is
  still waiting, or whose channel closed.
\<close>

fun service_loop :: "('s \<Rightarrow> 'i \<Rightarrow> 's \<times> 'e option) \<Rightarrow> 's \<Rightarrow> 'i list \<Rightarrow> 's \<times> 'e option" where
  "service_loop body s [] = (s, None)"
| "service_loop body s (i # is) =
     (case body s i of
        (s', Some e) \<Rightarrow> (s', Some e)
      | (s', None) \<Rightarrow> service_loop body s' is)"

section \<open>Lemmas on bytes and words\<close>

lemma length_le_bytes [simp]: "length (le_bytes k n) = k"
  by (induction k arbitrary: n) simp_all

lemma of_le_bytes_le_bytes [byte_simps]: "of_le_bytes (le_bytes k n) = n mod 256 ^ k"
proof (induction k arbitrary: n)
  case 0
  then show ?case by simp
next
  case (Suc k)
  have "unat (word_of_nat (n mod 256) :: u8) = n mod 256"
    by (simp add: unat_of_nat)
  then have "of_le_bytes (le_bytes (Suc k) n) = n mod 256 + 256 * (n div 256 mod 256 ^ k)"
    by (simp add: Suc.IH)
  also have "\<dots> = n mod (256 * 256 ^ k)"
    by (simp only: mod_mult2_eq add.commute)
  finally show ?case by simp
qed

lemma le_bytes_4: "le_bytes 4 n = [word_of_nat (n mod 256), word_of_nat (n div 256 mod 256),
    word_of_nat (n div 256 div 256 mod 256), word_of_nat (n div 256 div 256 div 256 mod 256)]"
proof -
  have "(4::nat) = Suc (Suc (Suc (Suc 0)))" by simp
  then show ?thesis by (simp only: le_bytes.simps)
qed

lemma length_u32_to_le_bytes [simp]: "length (u32_to_le_bytes w) = 4"
  by (simp add: u32_to_le_bytes_def)

lemma length_u64_to_le_bytes [simp]: "length (u64_to_le_bytes w) = 8"
  by (simp add: u64_to_le_bytes_def)

lemma u32_le_bytes_inverse [simp]: "u32_from_le_bytes (u32_to_le_bytes w) = w"
proof -
  have "unat w < 256 ^ 4" using unsigned_less [of w, where ?'a = nat] by simp
  then show ?thesis
    by (simp add: u32_from_le_bytes_def u32_to_le_bytes_def byte_simps)
qed

lemma u64_le_bytes_value [byte_simps]: "of_le_bytes (u64_to_le_bytes w) = unat w"
proof -
  have "unat w < 256 ^ 8" using unsigned_less [of w, where ?'a = nat] by simp
  then show ?thesis by (simp add: u64_to_le_bytes_def byte_simps)
qed

lemma u64_to_le_bytes_inject [simp]: "u64_to_le_bytes v = u64_to_le_bytes w \<longleftrightarrow> v = w"
  by (metis u64_le_bytes_value word_unat_eq_iff)

lemma le_u64_MAX [simp]: "x \<le> u64_MAX"
  by (simp add: u64_MAX_def)

lemma checked_add_Some:
  "checked_add a b = Some c \<longleftrightarrow> unat a + unat b < 2 ^ 64 \<and> c = a + b"
  by (auto simp: checked_add_def)

lemma checked_add_unat: "checked_add a b = Some c \<Longrightarrow> unat c = unat a + unat b"
  by (auto simp: checked_add_Some unat_word_ariths)

lemma unat_Suc_word: "unat (w :: u64) < 2 ^ 64 - 1 \<Longrightarrow> unat (w + 1) = Suc (unat w)"
  by (simp add: unat_word_ariths)

section \<open>Interfaces\<close>

text \<open>
  A service keeps an invariant and only moves its state forward along a preorder; both then
  hold of the whole loop, however it ends.
\<close>

locale service =
  fixes body :: "'s \<Rightarrow> 'i \<Rightarrow> 's \<times> 'e option"
    and inv :: "'s \<Rightarrow> bool"
    and fwd :: "'s \<Rightarrow> 's \<Rightarrow> bool"
  assumes body_inv: "inv s \<Longrightarrow> inv (fst (body s i))"
    and body_fwd: "inv s \<Longrightarrow> fwd s (fst (body s i))"
    and fwd_refl: "fwd s s"
    and fwd_trans: "fwd s t \<Longrightarrow> fwd t u \<Longrightarrow> fwd s u"
begin

lemma loop_inv: "inv s \<Longrightarrow> inv (fst (service_loop body s is))"
proof (induction "is" arbitrary: s)
  case Nil
  then show ?case by simp
next
  case (Cons i "is")
  then have "inv (fst (body s i))" by (simp add: body_inv)
  with Cons.IH show ?case
    by (auto split: prod.splits option.splits)
qed

lemma loop_fwd: "inv s \<Longrightarrow> fwd s (fst (service_loop body s is))"
proof (induction "is" arbitrary: s)
  case Nil
  then show ?case by (simp add: fwd_refl)
next
  case (Cons i "is")
  then have "inv (fst (body s i))" "fwd s (fst (body s i))"
    by (simp_all add: body_inv body_fwd)
  with Cons.IH show ?case
    by (auto split: prod.splits option.splits intro: fwd_trans)
qed

end

text \<open>Performing operations that may fail one after another; the first failure ends it.\<close>

primrec try_all :: "('x \<Rightarrow> 'l \<Rightarrow> 'l option) \<Rightarrow> 'x list \<Rightarrow> 'l \<Rightarrow> 'l option" where
  "try_all f [] l = Some l"
| "try_all f (x # xs) l = (case f x l of None \<Rightarrow> None | Some l' \<Rightarrow> try_all f xs l')"

text \<open>
  An append-only log: what a successful append does to the entries a reader gets back.
  The writer of the votes and the catch-up reader of a connection meet at this interface.
\<close>

locale append_log =
  fixes app :: "'io \<Rightarrow> 'e \<Rightarrow> 'l \<Rightarrow> 'l option"
    and entries :: "'l \<Rightarrow> 'e list"
    and ok :: "'e \<Rightarrow> bool"
    and invar :: "'l \<Rightarrow> bool"
  assumes entries_app: "invar l \<Longrightarrow> ok e \<Longrightarrow> app io e l = Some l' \<Longrightarrow> entries l' = entries l @ [e]"
    and invar_app: "invar l \<Longrightarrow> ok e \<Longrightarrow> app io e l = Some l' \<Longrightarrow> invar l'"
begin

lemma app_all:
  assumes "invar l" and "\<forall>x\<in>set xs. ok (snd x)"
    and "try_all (\<lambda>(io, e). app io e) xs l = Some l'"
  shows "entries l' = entries l @ map snd xs \<and> invar l'"
  using assms
proof (induction xs arbitrary: l)
  case Nil
  then show ?case by simp
next
  case (Cons x xs)
  then obtain k where k: "app (fst x) (snd x) l = Some k"
    "try_all (\<lambda>(io, e). app io e) xs k = Some l'"
    by (cases x) (auto split: option.splits)
  have "entries k = entries l @ [snd x]" "invar k"
    using entries_app [OF _ _ k(1)] invar_app [OF _ _ k(1)] Cons.prems(1,2) by auto
  with Cons.IH [of k] Cons.prems k(2) show ?case by simp
qed

end

section \<open>Lemmas on service loops\<close>

lemma service_loop_append:
  "service_loop body s (xs @ ys) =
     (case service_loop body s xs of
        (s', Some e) \<Rightarrow> (s', Some e)
      | (s', None) \<Rightarrow> service_loop body s' ys)"
  by (induction xs arbitrary: s) (auto split: prod.splits option.splits)

lemma service_loop_no_error:
  "(\<And>s i. i \<in> set is \<Longrightarrow> P s \<Longrightarrow> snd (body s i) = None \<and> P (fst (body s i))) \<Longrightarrow> P s \<Longrightarrow>
     snd (service_loop body s is) = None \<and> P (fst (service_loop body s is))"
proof (induction "is" arbitrary: s)
  case Nil
  then show ?case by simp
next
  case (Cons i "is")
  have step: "snd (body s i) = None" "P (fst (body s i))"
    using Cons.prems by simp_all
  have "snd (service_loop body (fst (body s i)) is) = None \<and> P (fst (service_loop body (fst (body s i)) is))"
    by (rule Cons.IH) (use Cons.prems(1) step(2) in auto)
  with step show ?case by (cases "body s i") simp
qed

text \<open>Collecting a list of options.\<close>

lemma those_eq_None: "those xs = None \<longleftrightarrow> None \<in> set xs"
  by (induction xs) (auto split: option.splits)

lemma those_eq_Some: "those xs = Some ys \<longleftrightarrow> xs = map Some ys"
  by (induction xs arbitrary: ys) (auto split: option.splits simp: map_eq_Cons_conv Cons_eq_map_conv)

lemma those_map_Some_id [simp]: "those (map Some ys) = Some ys"
  by (simp add: those_eq_Some)

lemma map_those: "map f ks = map Some rs \<Longrightarrow> (\<And>k r. f k = Some r \<Longrightarrow> p r = q k) \<Longrightarrow> map p rs = map q ks"
  by (induction rs arbitrary: ks) (auto simp: map_eq_Cons_conv)

end
