(* ===== verification/Wire.thy ===== *)
theory Wire
  imports Prelude
begin

text \<open>
  The messages replicas and clients exchange (\<open>pod/protos/replicaapi.protos\<close>,
  \<open>client/protos/clientapi.proto\<close>; the two packages declare the same \<open>Transaction\<close> and
  \<open>Vote\<close>), the byte string a vote's signature covers, and the third-party code the program
  calls on them: \<open>prost\<close> messages and \<open>ed25519_dalek\<close> keys. That code is not part of the
  repository; its operations are the fields of two records every user takes as an argument,
  and what the program relies on is stated as predicates over them.
\<close>

section \<open>Messages\<close>

record transaction =
  data :: bytes

record vote_record =
  tx :: "transaction option"
  ts :: u64
  sn :: u64
  sig :: bytes

record vote =
  replica_id :: u64
  timestamp :: u64
  sequence_number :: u64
  signature :: bytes
  transaction :: "transaction option"

text \<open>\<open>Vote::default()\<close>: every scalar zero, the message field absent.\<close>

definition default_vote :: vote where
  "default_vote = \<lparr>replica_id = 0, timestamp = 0, sequence_number = 0, signature = [],
     transaction = None\<rparr>"

section \<open>Parameters: prost messages\<close>

text \<open>
  \<open>Message::encode\<close> into a fresh vector, \<open>Message::merge\<close> into a default value and
  \<open>Message::decode\<close>; \<open>None\<close> is the error.
\<close>

record 'm prost_message =
  encode :: "'m \<Rightarrow> bytes option"
  merge :: "'m \<Rightarrow> bytes \<Rightarrow> 'm option"
  default_msg :: 'm
  decode :: "bytes \<Rightarrow> 'm option"

text \<open>
  What the log relies on for one message: it encodes, in fewer than \<open>2^32\<close> bytes, and
  merging the bytes into a default value gives it back.
\<close>

definition frame_ok :: "'m prost_message \<Rightarrow> 'm \<Rightarrow> bool" where
  "frame_ok P m \<longleftrightarrow> (case encode P m of
       None \<Rightarrow> False
     | Some bs \<Rightarrow> length bs < 2 ^ 32 \<and> merge P (default_msg P) bs = Some m)"

section \<open>Parameters: ed25519 keys\<close>

record ('sk, 'pk, 'sig) ed25519 =
  sign :: "'sk \<Rightarrow> bytes \<Rightarrow> 'sig"
  to_bytes :: "'sig \<Rightarrow> bytes"
  BYTE_SIZE :: nat
  try_from :: "bytes \<Rightarrow> 'sig option"
  verify_strict :: "'pk \<Rightarrow> bytes \<Rightarrow> 'sig \<Rightarrow> bool"
  verifying_key :: "'sk \<Rightarrow> 'pk"

text \<open>
  The documented contract of the signature scheme: signatures serialise to \<open>BYTE_SIZE\<close>
  bytes and parse back, and a signature made with a key verifies under its public key.
\<close>

definition ed25519_ok :: "('sk, 'pk, 'sig) ed25519 \<Rightarrow> bool" where
  "ed25519_ok E \<longleftrightarrow>
     (\<forall>s. length (to_bytes E s) = BYTE_SIZE E \<and> try_from E (to_bytes E s) = Some s) \<and>
     (\<forall>k m. verify_strict E (verifying_key E k) m (sign E k m))"

section \<open>The signed bytes of a vote\<close>

text \<open>
  \<open>message_to_sign\<close> of the two replica services and \<open>message\<close> of the client's
  \<open>verify_vote_signature\<close>: transaction data, then timestamp and sequence number, eight
  little-endian bytes each.
\<close>

definition message_to_sign :: "bytes \<Rightarrow> u64 \<Rightarrow> u64 \<Rightarrow> bytes" where
  "message_to_sign d t n = d @ u64_to_le_bytes t @ u64_to_le_bytes n"

lemma length_message_to_sign [simp]: "length (message_to_sign d t n) = length d + 16"
  by (simp add: message_to_sign_def)

lemma message_to_sign_eq_iff:
  "message_to_sign d t n = message_to_sign d' t' n' \<longleftrightarrow> d = d' \<and> t = t' \<and> n = n'"
  by (auto simp: message_to_sign_def append_eq_append_conv)

section \<open>Concrete parameters\<close>

text \<open>
  Small instances of the parameters, at which hypotheses on them are shown to hold together:
  a checksum in place of a signature scheme, and messages that are their own encoding.
\<close>

definition demo_ed25519 :: "(u8, u8, u8) ed25519" where
  "demo_ed25519 = \<lparr>sign = (\<lambda>k m. k + sum_list m), to_bytes = replicate 64, BYTE_SIZE = 64,
     try_from = (\<lambda>bs. if length bs = 64 then Some (hd bs) else None),
     verify_strict = (\<lambda>k m s. s = k + sum_list m), verifying_key = (\<lambda>k. k)\<rparr>"

definition raw_message :: "bytes prost_message" where
  "raw_message = \<lparr>encode = Some, merge = (\<lambda>m bs. Some bs), default_msg = [], decode = Some\<rparr>"

text \<open>A fixed layout for records with a transaction and a 64-byte signature.\<close>

definition demo_record_message :: "vote_record prost_message" where
  "demo_record_message =
     \<lparr>encode = (\<lambda>r. case tx r of None \<Rightarrow> None
        | Some t \<Rightarrow> Some (u64_to_le_bytes (ts r) @ u64_to_le_bytes (sn r) @ sig r @ data t)),
      merge = (\<lambda>m bs. Some \<lparr>tx = Some \<lparr>data = drop 80 bs\<rparr>,
        ts = word_of_nat (of_le_bytes (take 8 bs)), sn = word_of_nat (of_le_bytes (take 8 (drop 8 bs))),
        sig = take 64 (drop 16 bs)\<rparr>),
      default_msg = \<lparr>tx = None, ts = 0, sn = 0, sig = []\<rparr>, decode = (\<lambda>bs. None)\<rparr>"

lemma demo_record_frame_ok:
  "length (sig r) = 64 \<Longrightarrow> tx r = Some t \<Longrightarrow> length (data t) < 2 ^ 31 \<Longrightarrow>
     frame_ok demo_record_message r"
  by (cases r; cases t) (simp add: frame_ok_def demo_record_message_def byte_simps)

lemma demo_ed25519_ok [simp]: "ed25519_ok demo_ed25519"
  by (simp add: ed25519_ok_def demo_ed25519_def)

lemma raw_message_frame_ok [simp]: "frame_ok raw_message bs \<longleftrightarrow> length bs < 2 ^ 32"
  by (simp add: frame_ok_def raw_message_def)

end
