(* ===== verification/ReplicaLog.thy ===== *)
theory ReplicaLog
  imports Wire
begin

text \<open>
  The replica log (\<open>pod/src/replica_log.rs\<close>): a file of frames, each a little-endian
  \<open>u32\<close> length and that many bytes of an encoded message. \<open>ReplicaLogAppender\<close> opens the
  file in append mode and writes a frame with two \<open>write_all\<close> calls and a sync;
  \<open>MmapLogIterator\<close> walks a memory map of the file, and \<open>refresh\<close> maps it again once it
  has grown. What the operating system answers (how many bytes a failing \<open>write_all\<close> got
  out, whether the sync, the metadata call and the map succeed) are inputs of the operations.
\<close>

section \<open>Data\<close>

text \<open>
  \<open>ReplicaLogInner\<close>: \<open>log_file\<close> is the content behind the append-mode handle; the lock around
  it is poisoned when a thread panics while it holds the guard.
\<close>

record replica_log_appender =
  log_file :: bytes
  file_size :: u64
  poisoned :: bool

record mmap_log_iterator =
  mmap :: bytes
  position :: nat
  it_file_size :: u64
  path :: string

datatype log_error =
    IoError
  | EncodeError
  | ShortPrefix    \<comment> \<open>\<open>not enough bytes for length prefix\<close>\<close>
  | ShortEntry     \<comment> \<open>\<open>not enough bytes for entry\<close>\<close>
  | DecodeError    \<comment> \<open>\<open>Failed to decode message\<close>\<close>

datatype append_result = Appended | AppendErr log_error | AppendPanic

text \<open>
  \<open>WriteErr n\<close>: the operating system takes \<open>n\<close> bytes and then reports an error. A \<open>write_all\<close> of
  no more than \<open>n\<close> bytes has returned by then.
\<close>

datatype write_io = WriteOk | WriteErr nat

record append_io =
  len_io :: write_io
  data_io :: write_io
  sync_ok :: bool

text \<open>The files a path can be opened at; \<open>None\<close>: opening it fails.\<close>

type_synonym disk = "string \<rightharpoonup> bytes"

section \<open>Writer\<close>

definition open_log :: "bool \<Rightarrow> bool \<Rightarrow> bytes option \<Rightarrow> log_error + replica_log_appender" where
  "open_log open_ok meta_ok content =
     (if \<not> open_ok then Inl IoError
      else
        let f = (case content of None \<Rightarrow> [] | Some c \<Rightarrow> c) in
        if \<not> meta_ok then Inl IoError
        else Inr \<lparr>log_file = f, file_size = word_of_nat (length f), poisoned = False\<rparr>)"

fun write_all :: "write_io \<Rightarrow> bytes \<Rightarrow> bytes \<Rightarrow> bytes \<times> bool" where
  "write_all WriteOk buf f = (f @ buf, True)"
| "write_all (WriteErr n) buf f = (if n < length buf then (f @ take n buf, False) else (f @ buf, True))"

definition append_entry ::
  "'m prost_message \<Rightarrow> append_io \<Rightarrow> 'm \<Rightarrow> replica_log_appender \<Rightarrow>
     append_result \<times> replica_log_appender" where
  "append_entry P io entry a =
     (case encode P entry of
        None \<Rightarrow> (AppendErr EncodeError, a)
      | Some serialized \<Rightarrow>
          let len = (word_of_nat (length serialized) :: u32);
              len_bytes = u32_to_le_bytes len
          in
          if poisoned a then (AppendPanic, a)
          else
            let (f1, ok1) = write_all (len_io io) len_bytes (log_file a) in
            if \<not> ok1 then (AppendErr IoError, a\<lparr>log_file := f1\<rparr>)
            else
              let (f2, ok2) = write_all (data_io io) serialized f1 in
              if \<not> ok2 then (AppendErr IoError, a\<lparr>log_file := f2\<rparr>)
              else if \<not> sync_ok io then (AppendErr IoError, a\<lparr>log_file := f2\<rparr>)
              else
                (case checked_add (file_size a)
                        (word_of_nat (length len_bytes + length serialized)) of
                   None \<Rightarrow> (AppendPanic, a\<lparr>log_file := f2, poisoned := True\<rparr>)
                 | Some sz \<Rightarrow> (Appended, a\<lparr>log_file := f2, file_size := sz\<rparr>)))"

section \<open>Reader\<close>

text \<open>
  The size is read from one handle and the map made through another, so a writer may append
  in between: \<open>d0\<close> is the disk at the metadata call, \<open>d1\<close> at the map.
\<close>

definition get_replica_log_iterator ::
  "disk \<Rightarrow> bool \<Rightarrow> disk \<Rightarrow> bool \<Rightarrow> string \<Rightarrow> log_error + mmap_log_iterator" where
  "get_replica_log_iterator d0 meta_ok d1 map_ok file_path =
     (case d0 file_path of
        None \<Rightarrow> Inl IoError
      | Some f0 \<Rightarrow>
          if \<not> meta_ok then Inl IoError
          else
            (case d1 file_path of
               None \<Rightarrow> Inl IoError
             | Some f1 \<Rightarrow>
                 if \<not> map_ok then Inl IoError
                 else Inr \<lparr>mmap = f1, position = 0, it_file_size = word_of_nat (length f0),
                           path = file_path\<rparr>))"

definition iter_next ::
  "'m prost_message \<Rightarrow> mmap_log_iterator \<Rightarrow> (log_error + 'm) option \<times> mmap_log_iterator" where
  "iter_next P it =
     (if position it \<ge> length (mmap it) then (None, it)
      else if position it + 4 > length (mmap it) then (Some (Inl ShortPrefix), it)
      else
        let len_bytes = [mmap it ! position it, mmap it ! (position it + 1),
                         mmap it ! (position it + 2), mmap it ! (position it + 3)];
            it1 = it\<lparr>position := position it + 4\<rparr>;
            len = unat (u32_from_le_bytes len_bytes)
        in
        if position it1 + len > length (mmap it1)
        then (Some (Inl ShortEntry), it1\<lparr>position := position it1 - 4\<rparr>)
        else
          let entry_data = take len (drop (position it1) (mmap it1));
              it2 = it1\<lparr>position := position it1 + len\<rparr>
          in
          (case merge P (default_msg P) entry_data of
             Some entry \<Rightarrow> (Some (Inr entry), it2)
           | None \<Rightarrow> (Some (Inl DecodeError), it2)))"

text \<open>The file may again grow between the metadata call and the map, which sees \<open>f1\<close>.\<close>

definition refresh ::
  "disk \<Rightarrow> bool \<Rightarrow> bytes \<Rightarrow> bool \<Rightarrow> mmap_log_iterator \<Rightarrow> log_error option \<times> mmap_log_iterator" where
  "refresh d meta_ok f1 map_ok it =
     (let p = position it in
      case d (path it) of
        None \<Rightarrow> (Some IoError, it)
      | Some f0 \<Rightarrow>
          if \<not> meta_ok then (Some IoError, it)
          else
            let sz = (word_of_nat (length f0) :: u64) in
            if sz > it_file_size it then
              if \<not> map_ok then (Some IoError, it)
              else (None, it\<lparr>mmap := f1, it_file_size := sz, position := min p (length f1)\<rparr>)
            else (None, it\<lparr>position := min p (length (mmap it))\<rparr>))"

lemma iter_next_progress:
  "iter_next P it = (Some (Inr m), it') \<Longrightarrow>
     mmap it' = mmap it \<and> position it < position it' \<and> position it' \<le> length (mmap it)"
  by (auto simp: iter_next_def Let_def split: if_splits option.splits)

text \<open>
  Running the iterator until it ends or reports an error, as \<open>collect::<Result<Vec<_>, _>>\<close>
  and the catch-up loop of a connection do: the entries, and the error it stopped at.
\<close>

function collect_entries ::
  "'m prost_message \<Rightarrow> mmap_log_iterator \<Rightarrow> 'm list \<times> log_error option \<times> mmap_log_iterator" where
  "collect_entries P it =
     (case iter_next P it of
        (None, it') \<Rightarrow> ([], None, it')
      | (Some (Inl e), it') \<Rightarrow> ([], Some e, it')
      | (Some (Inr m), it') \<Rightarrow>
          (case collect_entries P it' of (ms, r, it'') \<Rightarrow> (m # ms, r, it'')))"
  by pat_completeness auto
termination
proof (relation "measure (\<lambda>(P, it). length (mmap it) - position it)", goal_cases)
  case 1
  show ?case by simp
next
  case (2 P it x y x2 b)
  then show ?case using iter_next_progress [of P it b y] by auto
qed

declare collect_entries.simps [simp del]

section \<open>Frames\<close>

text \<open>The abstract content of a log file: the frames of its entries, one after another.\<close>

definition frame :: "'m prost_message \<Rightarrow> 'm \<Rightarrow> bytes" where
  "frame P m = (case encode P m of None \<Rightarrow> []
     | Some bs \<Rightarrow> u32_to_le_bytes (word_of_nat (length bs)) @ bs)"

definition frames :: "'m prost_message \<Rightarrow> 'm list \<Rightarrow> bytes" where
  "frames P ms = concat (map (frame P) ms)"

lemma frames_simps [simp]:
  "frames P [] = []"
  "frames P (m # ms) = frame P m @ frames P ms"
  "frames P (ms @ ms') = frames P ms @ frames P ms'"
  by (simp_all add: frames_def)

lemma frame_okE:
  assumes "frame_ok P m"
  obtains bs where "encode P m = Some bs" "length bs < 2 ^ 32"
    "merge P (default_msg P) bs = Some m" "frame P m = u32_to_le_bytes (word_of_nat (length bs)) @ bs"
    "length (frame P m) = 4 + length bs"
  using assms by (auto simp: frame_ok_def frame_def split: option.splits)

lemma unat_u32_of_nat [simp]: "n < 2 ^ 32 \<Longrightarrow> unat (word_of_nat n :: u32) = n"
  by (simp add: unat_of_nat)

lemma four_bytes:
  assumes "length pre = p" "length bs = 4"
  shows "[(pre @ bs @ rest) ! p, (pre @ bs @ rest) ! (p + 1), (pre @ bs @ rest) ! (p + 2),
          (pre @ bs @ rest) ! (p + 3)] = bs"
proof -
  from assms(2) obtain a b c d where "bs = [a, b, c, d]"
    by (auto simp: numeral_eq_Suc length_Suc_conv)
  with assms(1) show ?thesis by (auto simp: nth_append)
qed

text \<open>One step of the iterator in front of a complete frame.\<close>

lemma iter_next_frame:
  assumes "frame_ok P m" and "mmap it = pre @ frame P m @ rest" and "position it = length pre"
  shows "iter_next P it = (Some (Inr m), it\<lparr>position := length pre + length (frame P m)\<rparr>)"
proof -
  from assms(1) obtain bs where bs: "length bs < 2 ^ 32" "merge P (default_msg P) bs = Some m"
    "frame P m = u32_to_le_bytes (word_of_nat (length bs)) @ bs" "length (frame P m) = 4 + length bs"
    by (rule frame_okE)
  let ?l = "u32_to_le_bytes (word_of_nat (length bs))"
  have four: "[mmap it ! position it, mmap it ! (position it + 1), mmap it ! (position it + 2),
     mmap it ! (position it + 3)] = ?l"
    using four_bytes [of pre "position it" ?l "bs @ rest"] assms(2,3) bs(3) by simp
  have data: "take (length bs) (drop (position it + 4) (mmap it)) = bs"
    using assms(2,3) bs(3) by simp
  show ?thesis
    unfolding iter_next_def Let_def four
    using assms(2,3) bs data by (simp add: add.commute)
qed

text \<open>One step in front of a torn frame: an error, and the iterator has not moved.\<close>

lemma iter_next_torn:
  assumes "frame_ok P m" and "strict_prefix t (frame P m)" and "t \<noteq> []"
    and "mmap it = pre @ t" and "position it = length pre"
  shows "iter_next P it = (Some (Inl (if length t < 4 then ShortPrefix else ShortEntry)), it)"
proof (cases "length t < 4")
  case True
  with assms(3-5) show ?thesis by (simp add: iter_next_def)
next
  case False
  from assms(1) obtain bs where bs: "length bs < 2 ^ 32"
    "frame P m = u32_to_le_bytes (word_of_nat (length bs)) @ bs"
    by (rule frame_okE)
  let ?l = "u32_to_le_bytes (word_of_nat (length bs))"
  from assms(2) bs(2) obtain u where u: "?l @ bs = t @ u" "u \<noteq> []"
    by (auto simp: strict_prefix_def prefix_def)
  then have t: "t = ?l @ drop 4 t"
    using False by (metis append_eq_append_conv_if append_take_drop_id length_u32_to_le_bytes not_less)
  then have "drop 4 t @ u = bs" using u(1)
    by (metis append.assoc same_append_eq)
  then have short: "length (drop 4 t) < length bs" using u(2) by auto
  have four: "[mmap it ! position it, mmap it ! (position it + 1), mmap it ! (position it + 2),
     mmap it ! (position it + 3)] = ?l"
    using four_bytes [of pre "position it" ?l "drop 4 t"] assms(4,5) t by simp
  have "length t < 4 + length bs" "t \<noteq> []" using short False by auto
  then show ?thesis
    unfolding iter_next_def Let_def four
    using assms(4,5) bs False by simp
qed

section \<open>Reading a file of frames\<close>

lemma iter_next_end: "position it = length (mmap it) \<Longrightarrow> iter_next P it = (None, it)"
  by (simp add: iter_next_def)

text \<open>
  The iterator over \<open>frames ms\<close> followed by any bytes \<open>t\<close> yields \<open>ms\<close> and then whatever it
  yields on \<open>t\<close>.
\<close>

lemma collect_frames:
  assumes "\<forall>m\<in>set ms. frame_ok P m" and "mmap it = pre @ frames P ms @ t"
    and "position it = length pre"
  shows "collect_entries P it =
    (case collect_entries P (it\<lparr>position := length pre + length (frames P ms)\<rparr>) of
       (ms', r, it') \<Rightarrow> (ms @ ms', r, it'))"
  using assms
proof (induction ms arbitrary: it pre)
  case Nil
  then have "it\<lparr>position := length pre\<rparr> = it" by (cases it) simp
  then show ?case by simp
next
  case (Cons m ms)
  let ?it = "it\<lparr>position := length pre + length (frame P m)\<rparr>"
  have "iter_next P it = (Some (Inr m), ?it)"
    by (rule iter_next_frame [where rest = "frames P ms @ t"]) (use Cons.prems in auto)
  moreover have "collect_entries P ?it =
    (case collect_entries P (?it\<lparr>position := length (pre @ frame P m) + length (frames P ms)\<rparr>) of
       (ms', r, it') \<Rightarrow> (ms @ ms', r, it'))"
    by (rule Cons.IH) (use Cons.prems in auto)
  ultimately show ?case
    by (simp add: collect_entries.simps [of P it] add.assoc split: prod.splits)
qed

lemma collect_frames_end:
  assumes "\<forall>m\<in>set ms. frame_ok P m" and "mmap it = pre @ frames P ms"
    and "position it = length pre"
  shows "collect_entries P it = (ms, None, it\<lparr>position := length (mmap it)\<rparr>)"
proof -
  let ?it = "it\<lparr>position := length pre + length (frames P ms)\<rparr>"
  have "collect_entries P ?it = ([], None, ?it)"
    using assms(2) by (simp add: collect_entries.simps iter_next_end)
  then show ?thesis
    using collect_frames [OF assms(1), of it pre "[]"] assms(2,3) by simp
qed

lemma collect_frames_torn:
  assumes "\<forall>m\<in>set ms. frame_ok P m" and "frame_ok P m" and "strict_prefix t (frame P m)"
    and "t \<noteq> []" and "mmap it = frames P ms @ t" and "position it = 0"
  shows "collect_entries P it =
    (ms, Some (if length t < 4 then ShortPrefix else ShortEntry),
     it\<lparr>position := length (frames P ms)\<rparr>)"
proof -
  let ?it = "it\<lparr>position := length (frames P ms)\<rparr>"
  have "iter_next P ?it = (Some (Inl (if length t < 4 then ShortPrefix else ShortEntry)), ?it)"
    by (rule iter_next_torn [where pre = "frames P ms", OF assms(2-4)]) (use assms(5) in auto)
  then have "collect_entries P ?it = ([], Some (if length t < 4 then ShortPrefix else ShortEntry), ?it)"
    by (simp add: collect_entries.simps)
  then show ?thesis
    using collect_frames [OF assms(1), of it "[]" t] assms(5,6) by simp
qed

section \<open>What an append does to the file\<close>

text \<open>The content a failed or successful append leaves: the old one and a prefix of the frame.\<close>

lemma append_entry_file:
  assumes "append_entry P io e a = (r, a')"
  shows "\<exists>t. prefix t (frame P e) \<and> log_file a' = log_file a @ t \<and> (r = Appended \<longrightarrow> t = frame P e)"
proof (cases "encode P e")
  case None
  with assms show ?thesis by (auto simp: append_entry_def)
next
  case (Some bs)
  with assms show ?thesis
    by (cases "len_io io"; cases "data_io io")
      (auto simp: append_entry_def frame_def Let_def take_is_prefix
        split: if_splits option.splits intro: prefix_prefix)
qed

text \<open>Whether a \<open>write_all\<close> gets its whole buffer out, and an append its whole frame.\<close>

fun write_completes :: "write_io \<Rightarrow> bytes \<Rightarrow> bool" where
  "write_completes WriteOk buf \<longleftrightarrow> True"
| "write_completes (WriteErr n) buf \<longleftrightarrow> length buf \<le> n"

definition frame_written :: "'m prost_message \<Rightarrow> append_io \<Rightarrow> 'm \<Rightarrow> replica_log_appender \<Rightarrow> bool" where
  "frame_written P io e a \<longleftrightarrow> \<not> poisoned a \<and> write_completes (len_io io) (take 4 (frame P e)) \<and>
     write_completes (data_io io) (drop 4 (frame P e))"

lemma write_all_result:
  "write_all io buf f = (if write_completes io buf then (f @ buf, True) else (fst (write_all io buf f), False))"
  by (cases io) auto

lemma write_all_torn: "\<not> write_completes io buf \<Longrightarrow> \<exists>t. strict_prefix t buf \<and> fst (write_all io buf f) = f @ t"
  by (cases io) (auto simp: strict_prefix_def take_is_prefix intro!: exI [of _ "take _ buf"])

text \<open>The file after an append: the frame when it was written whole, else a proper part of it.\<close>

lemma append_entry_written:
  assumes "frame_ok P e" and "append_entry P io e a = (r, a')"
  shows "frame_written P io e a \<Longrightarrow> log_file a' = log_file a @ frame P e"
    and "\<not> frame_written P io e a \<Longrightarrow>
      r \<noteq> Appended \<and> (\<exists>t. strict_prefix t (frame P e) \<and> log_file a' = log_file a @ t)"
proof -
  from assms(1) obtain bs where bs: "encode P e = Some bs"
    "frame P e = u32_to_le_bytes (word_of_nat (length bs)) @ bs" "length (frame P e) = 4 + length bs"
    by (rule frame_okE)
  let ?l = "u32_to_le_bytes (word_of_nat (length bs))"
  have parts: "take 4 (frame P e) = ?l" "drop 4 (frame P e) = bs" using bs(2) by simp_all
  show "log_file a' = log_file a @ frame P e" if "frame_written P io e a"
    using that assms(2) bs(1,2) write_all_result [of "len_io io" ?l] write_all_result [of "data_io io" bs]
    by (auto simp: frame_written_def parts append_entry_def Let_def split: if_splits option.splits)
  show "r \<noteq> Appended \<and> (\<exists>t. strict_prefix t (frame P e) \<and> log_file a' = log_file a @ t)"
    if not: "\<not> frame_written P io e a"
  proof -
    consider (pois) "poisoned a"
      | (len) "\<not> poisoned a" "\<not> write_completes (len_io io) ?l"
      | (data) "\<not> poisoned a" "write_completes (len_io io) ?l" "\<not> write_completes (data_io io) bs"
      using not parts by (auto simp: frame_written_def)
    then show ?thesis
    proof cases
      case pois
      moreover have "strict_prefix [] (frame P e)" using bs(3) by (cases "frame P e") auto
      ultimately show ?thesis using assms(2) bs(1) by (auto simp: append_entry_def)
    next
      case len
      with write_all_torn [OF len(2), of "log_file a"] obtain t where
        "strict_prefix t ?l" "fst (write_all (len_io io) ?l (log_file a)) = log_file a @ t" by blast
      moreover from this have "strict_prefix t (frame P e)" using bs(2) by (simp add: prefix_order.less_le_trans)
      ultimately show ?thesis using len assms(2) bs(1) write_all_result [of "len_io io" ?l "log_file a"]
        by (auto simp: append_entry_def Let_def)
    next
      case data
      with write_all_torn [OF data(3), of "log_file a @ ?l"] obtain t where
        "strict_prefix t bs" "fst (write_all (data_io io) bs (log_file a @ ?l)) = log_file a @ ?l @ t" by auto
      moreover from this have "strict_prefix (?l @ t) (frame P e)" using bs(2) by (simp add: strict_prefix_def)
      ultimately show ?thesis using data assms(2) bs(1) write_all_result [of "len_io io" ?l "log_file a"]
          write_all_result [of "data_io io" bs "log_file a @ ?l"]
        by (auto simp: append_entry_def Let_def)
    qed
  qed
qed

text \<open>Why an append that wrote its whole frame can still fail.\<close>

lemma append_entry_written_result:
  assumes "frame_ok P e" and "append_entry P io e a = (r, a')" and "frame_written P io e a" and "r \<noteq> Appended"
  shows "if sync_ok io then r = AppendPanic \<and> 2 ^ 64 \<le> unat (file_size a) + length (frame P e)
    else r = AppendErr IoError"
proof -
  from assms(1) obtain bs where bs: "encode P e = Some bs" "length bs < 2 ^ 32"
    "frame P e = u32_to_le_bytes (word_of_nat (length bs)) @ bs" "length (frame P e) = 4 + length bs"
    by (rule frame_okE)
  let ?l = "u32_to_le_bytes (word_of_nat (length bs))"
  have parts: "take 4 (frame P e) = ?l" "drop 4 (frame P e) = bs" using bs(3) by simp_all
  have "unat (word_of_nat (4 + length bs) :: u64) = 4 + length bs"
    using bs(2) by (simp add: unat_of_nat del: of_nat_add)
  with assms(2-4) bs(1,4) parts write_all_result [of "len_io io" ?l] write_all_result [of "data_io io" bs]
  show ?thesis
    by (auto simp: frame_written_def append_entry_def Let_def checked_add_def simp del: of_nat_add
        split: if_splits option.splits)
qed

lemma append_entry_success:
  assumes "frame_ok P e" and "\<not> poisoned a"
    and "len_io io = WriteOk" "data_io io = WriteOk" "sync_ok io"
    and "unat (file_size a) + length (frame P e) < 2 ^ 64"
  shows "append_entry P io e a =
    (Appended, a\<lparr>log_file := log_file a @ frame P e,
                 file_size := file_size a + word_of_nat (length (frame P e))\<rparr>)"
proof -
  from assms(1) obtain bs where bs: "encode P e = Some bs"
    "frame P e = u32_to_le_bytes (word_of_nat (length bs)) @ bs" "length (frame P e) = 4 + length bs"
    by (rule frame_okE)
  have "unat (word_of_nat (4 + length bs) :: u64) = 4 + length bs"
    using assms(6) bs(3) by (simp add: unat_of_nat del: of_nat_add)
  with assms bs show ?thesis
    by (simp add: append_entry_def checked_add_def del: of_nat_add)
qed

section \<open>The log as an append-only sequence of entries\<close>

text \<open>A successful append, and what a reader that opens the file now gets.\<close>

definition log_append ::
  "'m prost_message \<Rightarrow> append_io \<Rightarrow> 'm \<Rightarrow> replica_log_appender \<Rightarrow> replica_log_appender option" where
  "log_append P io e a = (case append_entry P io e a of (r, a') \<Rightarrow>
     if r = Appended then Some a' else None)"

definition read_log :: "'m prost_message \<Rightarrow> bytes \<Rightarrow> 'm list \<times> log_error option" where
  "read_log P f =
     (case get_replica_log_iterator (\<lambda>_. Some f) True (\<lambda>_. Some f) True [] of
        Inl e \<Rightarrow> ([], Some e)
      | Inr it \<Rightarrow> (case collect_entries P it of (ms, r, _) \<Rightarrow> (ms, r)))"

definition well_framed :: "'m prost_message \<Rightarrow> replica_log_appender \<Rightarrow> bool" where
  "well_framed P a \<longleftrightarrow> (\<exists>es. (\<forall>e\<in>set es. frame_ok P e) \<and> log_file a = frames P es)"

definition good_io :: append_io where
  "good_io = \<lparr>len_io = WriteOk, data_io = WriteOk, sync_ok = True\<rparr>"

lemma read_log_frames: "\<forall>m\<in>set ms. frame_ok P m \<Longrightarrow> read_log P (frames P ms) = (ms, None)"
  by (simp add: read_log_def get_replica_log_iterator_def collect_frames_end [where pre = "[]"])

lemma read_log_torn:
  "\<forall>m\<in>set ms. frame_ok P m \<Longrightarrow> frame_ok P m \<Longrightarrow> strict_prefix t (frame P m) \<Longrightarrow> t \<noteq> [] \<Longrightarrow>
     read_log P (frames P ms @ t) = (ms, Some (if length t < 4 then ShortPrefix else ShortEntry))"
  by (simp add: read_log_def get_replica_log_iterator_def collect_frames_torn)

lemma log_append_file: "log_append P io e a = Some a' \<Longrightarrow> log_file a' = log_file a @ frame P e"
  using append_entry_file [of P io e a] by (auto simp: log_append_def split: prod.splits if_splits)

lemma well_framed_read: "well_framed P a \<Longrightarrow> log_file a = frames P (fst (read_log P (log_file a)))"
  by (auto simp: well_framed_def read_log_frames)

interpretation replica_log: append_log "log_append P" "\<lambda>a. fst (read_log P (log_file a))"
  "frame_ok P" "well_framed P" for P
proof
  fix io e a a'
  assume a: "well_framed P a" "frame_ok P e" "log_append P io e a = Some a'"
  then obtain es where es: "\<forall>e\<in>set es. frame_ok P e" "log_file a = frames P es"
    by (auto simp: well_framed_def)
  with a have f: "log_file a' = frames P (es @ [e])" "\<forall>e'\<in>set (es @ [e]). frame_ok P e'"
    by (auto simp: log_append_file)
  show "well_framed P a'" unfolding well_framed_def using f by blast
  show "fst (read_log P (log_file a')) = fst (read_log P (log_file a)) @ [e]"
    unfolding es(2) f(1) read_log_frames [OF es(1)] read_log_frames [OF f(2)] by simp
qed

text \<open>Enough room and no I/O error: every append of a sequence succeeds.\<close>

lemma append_all_succeed:
  assumes "\<forall>e\<in>set es. frame_ok P e" and "\<not> poisoned a"
    and "unat (file_size a) + length (frames P es) < 2 ^ 64"
  shows "\<exists>a'. try_all (\<lambda>(io, e). log_append P io e) (map (Pair good_io) es) a = Some a'"
  using assms
proof (induction es arbitrary: a)
  case Nil
  then show ?case by simp
next
  case (Cons e es)
  let ?a = "a\<lparr>log_file := log_file a @ frame P e,
              file_size := file_size a + word_of_nat (length (frame P e))\<rparr>"
  have "append_entry P good_io e a = (Appended, ?a)"
    by (rule append_entry_success) (use Cons.prems in \<open>auto simp: good_io_def\<close>)
  then have step: "log_append P good_io e a = Some ?a" by (simp add: log_append_def)
  have "unat (file_size ?a) = unat (file_size a) + length (frame P e)"
    using Cons.prems(3) by (simp add: unat_word_ariths unat_of_nat)
  then have "\<exists>a'. try_all (\<lambda>(io, e). log_append P io e) (map (Pair good_io) es) ?a = Some a'"
    using Cons.prems by (intro Cons.IH) auto
  then show ?case by (simp add: step)
qed

text \<open>
  Refreshing an iterator loses nothing and repeats nothing: after reading \<open>xs\<close> of a log of
  \<open>xs @ ys\<close> that has meanwhile grown by \<open>zs\<close>, a refreshed iterator yields \<open>ys @ zs\<close> and ends.
\<close>

lemma refreshed:
  assumes "\<forall>e\<in>set (xs @ ys @ zs). frame_ok P e"
    and "mmap it = frames P (xs @ ys)" and "position it = length (frames P xs)"
    and "it_file_size it = word_of_nat (length (mmap it))"
    and "f = frames P (xs @ ys @ zs)" and "d (path it) = Some f" and "length f < 2 ^ 64"
  shows "\<exists>it'. refresh d True f True it = (None, it') \<and>
    collect_entries P it' = (ys @ zs, None, it'\<lparr>position := length f\<rparr>)"
proof -
  have "fst (refresh d True f True it) = None"
    using assms(6) by (simp add: refresh_def Let_def)
  then obtain it' where it': "refresh d True f True it = (None, it')"
    by (metis prod.collapse)
  have sizes: "unat (word_of_nat (length f) :: u64) = length f"
    "unat (word_of_nat (length (mmap it)) :: u64) = length (mmap it)"
    using assms(2,5,7) by (simp_all add: unat_of_nat del: of_nat_add)
  have "\<not> length (mmap it) < length f \<Longrightarrow> mmap it = f"
    using assms(2,5) by simp
  moreover have "length (frames P xs) \<le> length f" "length (frames P xs) \<le> length (mmap it)"
    using assms(2,5) by simp_all
  ultimately have "mmap it' = f" "position it' = length (frames P xs)"
    using it' assms(3,4,6) sizes
    by (auto simp: refresh_def Let_def word_less_nat_alt min_def split: if_splits)
  then have "collect_entries P it' = (ys @ zs, None, it'\<lparr>position := length (mmap it')\<rparr>)"
    by (intro collect_frames_end [where pre = "frames P xs"]) (use assms(1,5) in auto)
  with it' \<open>mmap it' = f\<close> show ?thesis by auto
qed

section \<open>Properties\<close>

text \<open>
  C13. Round trip of the log: entries appended to a freshly opened log file (new, or left by an
  earlier run) are read back by an iterator opened afterwards, all of them, in order, after
  the entries that were already there, and the iteration ends without an error.
\<close>

theorem log_round_trip:
  assumes "\<forall>e\<in>set old. frame_ok P e" and "\<forall>e\<in>set new. frame_ok P e"
    and "length (frames P old) + length (frames P new) < 2 ^ 64"
  shows "\<exists>a0 a. open_log True True (Some (frames P old)) = Inr a0 \<and>
     try_all (\<lambda>(io, e). log_append P io e) (map (Pair good_io) new) a0 = Some a \<and>
     read_log P (log_file a) = (old @ new, None)"
proof -
  let ?a0 = "\<lparr>log_file = frames P old, file_size = word_of_nat (length (frames P old)),
     poisoned = False\<rparr>"
  have op: "open_log True True (Some (frames P old)) = Inr ?a0"
    by (simp add: open_log_def Let_def)
  have "unat (file_size ?a0) = length (frames P old)"
    using assms(3) by (simp add: unat_of_nat)
  then obtain a where a: "try_all (\<lambda>(io, e). log_append P io e) (map (Pair good_io) new) ?a0 = Some a"
    using append_all_succeed [OF assms(2), of ?a0] assms(3) by auto
  have "well_framed P ?a0" using assms(1) by (auto simp: well_framed_def)
  then have "fst (read_log P (log_file a)) = old @ new \<and> well_framed P a"
    using replica_log.app_all [OF _ _ a] assms by (simp add: read_log_frames comp_def)
  then have "read_log P (log_file a) = (old @ new, None)"
    by (metis well_framed_def read_log_frames fst_conv)
  with op a show ?thesis by blast
qed

theorem log_round_trip_witness:
  "\<exists>a0 a. open_log True True (Some (frames raw_message [[7]])) = Inr a0 \<and>
     try_all (\<lambda>(io, e). log_append raw_message io e) (map (Pair good_io) [[1, 2], []]) a0 = Some a \<and>
     read_log raw_message (log_file a) = ([[7], [1, 2], []], None)"
  using log_round_trip [of "[[7]]" raw_message "[[1, 2], []]"]
  by (simp add: frames_def frame_def raw_message_def frame_ok_def)

text \<open>
  C32. A reader that opens the file while an append is under way (or after a crash in the middle
  of one) sees a prefix of the new frame: it gets every earlier entry and no part of the new
  one, and, unless nothing of the frame is out yet, it then gets an error. Appends are
  therefore not atomic for readers.
\<close>

theorem reader_during_append:
  assumes "\<forall>e\<in>set es. frame_ok P e" and "frame_ok P e" and "k < length (frame P e)"
  shows "read_log P (frames P es @ take k (frame P e)) =
    (es, if k = 0 then None else if k < 4 then Some ShortPrefix else Some ShortEntry)"
proof (cases "k = 0")
  case True
  with assms(1) show ?thesis by (simp add: read_log_frames)
next
  case False
  have "strict_prefix (take k (frame P e)) (frame P e)"
    using assms(3) by (auto simp: strict_prefix_def take_is_prefix)
  moreover have "take k (frame P e) \<noteq> []" using False assms(3) by auto
  ultimately show ?thesis
    using read_log_torn [OF assms(1,2)] False assms(3) by simp
qed

theorem reader_during_append_witness:
  "read_log raw_message (frames raw_message [[7]] @ take 5 (frame raw_message [1, 2])) =
     ([[7]], Some ShortEntry)"
  using reader_during_append [of "[[7]]" raw_message "[1, 2]" 5]
  by (simp add: frame_def raw_message_def frame_ok_def)

text \<open>
  C31. A failed append never damages what was in the log. Whatever made it fail (an I/O error, the
  panic on the overflow of the recorded size, or a lock poisoned by an earlier panic), the recorded
  size is unchanged and a reader still gets all earlier entries. It gets the new entry beyond them
  exactly when both writes went through, and then it was the sync that failed or the recorded
  size that would overflow.
\<close>

theorem failed_append_keeps_entries:
  assumes "\<forall>x\<in>set es. frame_ok P x" and "frame_ok P e" and "log_file a = frames P es"
    and "append_entry P io e a = (r, a')" and "r \<noteq> Appended"
  shows "file_size a' = file_size a \<and>
    fst (read_log P (log_file a')) = (if frame_written P io e a then es @ [e] else es) \<and>
    (frame_written P io e a \<longrightarrow>
       (if sync_ok io then r = AppendPanic \<and> 2 ^ 64 \<le> unat (file_size a) + length (frame P e)
        else r = AppendErr IoError))"
proof (intro conjI)
  show "file_size a' = file_size a"
    using assms(4,5) by (auto simp: append_entry_def Let_def split: option.splits if_splits prod.splits)
  show "fst (read_log P (log_file a')) = (if frame_written P io e a then es @ [e] else es)"
  proof (cases "frame_written P io e a")
    case True
    then have "log_file a' = frames P (es @ [e])" using append_entry_written(1) [OF assms(2,4)] assms(3) by simp
    moreover have "\<forall>x\<in>set (es @ [e]). frame_ok P x" using assms(1,2) by auto
    ultimately show ?thesis using True by (simp only: read_log_frames) simp
  next
    case False
    then obtain t where "strict_prefix t (frame P e)" "log_file a' = frames P es @ t"
      using append_entry_written(2) [OF assms(2,4)] assms(3) by auto
    with False read_log_torn [OF assms(1,2)] read_log_frames [OF assms(1)] show ?thesis by (cases "t = []") auto
  qed
  show "frame_written P io e a \<longrightarrow>
      (if sync_ok io then r = AppendPanic \<and> 2 ^ 64 \<le> unat (file_size a) + length (frame P e)
       else r = AppendErr IoError)"
    using append_entry_written_result [OF assms(2,4) _ assms(5)] by blast
qed

theorem failed_append_keeps_entries_witness:
  "\<exists>r a'. append_entry raw_message \<lparr>len_io = WriteOk, data_io = WriteOk, sync_ok = False\<rparr> [2, 3]
       \<lparr>log_file = frames raw_message [[1]], file_size = 5, poisoned = False\<rparr> = (r, a') \<and>
     file_size a' = 5 \<and> fst (read_log raw_message (log_file a')) = [[1], [2, 3]]"
proof -
  let ?a = "\<lparr>log_file = frames raw_message [[1]], file_size = 5, poisoned = False\<rparr>"
  let ?io = "\<lparr>len_io = WriteOk, data_io = WriteOk, sync_ok = False\<rparr>"
  obtain a' where a': "append_entry raw_message ?io [2, 3] ?a = (AppendErr IoError, a')"
    by (simp add: append_entry_def raw_message_def)
  have "frame_written raw_message ?io [2, 3] ?a" by (simp add: frame_written_def)
  with failed_append_keeps_entries [of "[[1]]" raw_message "[2, 3]" ?a, OF _ _ _ a'] a' show ?thesis
    by (simp add: frame_ok_def raw_message_def)
qed

text \<open>
  The next append after a failed one is lost although it reports success: the torn frame is
  neither truncated nor skipped, so the reader takes the start of the new frame for the rest
  of the torn one. Here the log held \<open>[1]\<close>, the append of \<open>[2, 3]\<close> failed after one byte of
  data, and \<open>[4]\<close> was then appended: the reader gets \<open>[1]\<close>, an entry \<open>[2, 1]\<close> nobody
  wrote, and an error, never \<open>[4]\<close>.
\<close>

theorem append_after_torn_frame_is_lost:
  "\<exists>a0 a1 a2.
     log_append raw_message good_io [1] \<lparr>log_file = [], file_size = 0, poisoned = False\<rparr> = Some a0 \<and>
     append_entry raw_message \<lparr>len_io = WriteOk, data_io = WriteErr 1, sync_ok = True\<rparr> [2, 3] a0 =
       (AppendErr IoError, a1) \<and>
     append_entry raw_message good_io [4] a1 = (Appended, a2) \<and>
     read_log raw_message (log_file a2) = ([[1], [2, 1]], Some ShortEntry)"
proof -
  let ?a0 = "\<lparr>log_file = [1, 0, 0, 0, 1], file_size = 5, poisoned = False\<rparr>"
  let ?a1 = "?a0\<lparr>log_file := log_file ?a0 @ [2, 0, 0, 0, 2]\<rparr>"
  let ?a2 = "?a1\<lparr>log_file := log_file ?a1 @ [1, 0, 0, 0, 4], file_size := 10\<rparr>"
  note eval = append_entry_def raw_message_def good_io_def u32_to_le_bytes_def checked_add_def le_bytes_4
  have "log_append raw_message good_io [1] \<lparr>log_file = [], file_size = 0, poisoned = False\<rparr> = Some ?a0"
    by (simp add: log_append_def eval)
  moreover have "append_entry raw_message \<lparr>len_io = WriteOk, data_io = WriteErr 1, sync_ok = True\<rparr>
      [2, 3] ?a0 = (AppendErr IoError, ?a1)"
    by (simp add: eval)
  moreover have "append_entry raw_message good_io [4] ?a1 = (Appended, ?a2)"
    by (simp add: eval)
  moreover have "read_log raw_message (log_file ?a2) = ([[1], [2, 1]], Some ShortEntry)"
    by (simp add: read_log_def get_replica_log_iterator_def collect_entries.simps iter_next_def
        raw_message_def u32_from_le_bytes_def Let_def)
  ultimately show ?thesis by blast
qed

text \<open>
  The iterator stays inside its map: a step never moves backwards or past the end of the
  map, never touches the map, and after a short read it is exactly where it was (so it reports
  the same error again: it is not fused).
\<close>

theorem iterator_stays_in_map:
  assumes "position it \<le> length (mmap it)" and "iter_next P it = (r, it')"
  shows "mmap it' = mmap it \<and> position it \<le> position it' \<and> position it' \<le> length (mmap it') \<and>
    (r \<in> {Some (Inl ShortPrefix), Some (Inl ShortEntry)} \<longrightarrow> it' = it)"
  using assms by (auto simp: iter_next_def Let_def split: if_splits option.splits)

end
