(* ===== verification/VoteServices.thy ===== *)
theory VoteServices
  imports ReplicaLog
begin

text \<open>
  The two services of a replica that issue votes, \<open>pod/src/log_vote_service.rs\<close> and
  \<open>pod/src/heartbeat_service.rs\<close>, with the clock of \<open>pod/src/utils.rs\<close>. Both draw sequence
  numbers from one shared atomic counter and hand their votes to one broadcast channel; the
  first also appends a record to the replica log. A loop iteration is split at the points
  where the other service can run in between: taking the number, reading the clock, finishing.
  The wall clock, the I/O outcomes and whether the broadcast channel has a receiver are inputs.
\<close>

section \<open>Clock\<close>

definition ROUND_SIZE_MS :: u64 where
  "ROUND_SIZE_MS = 100"

text \<open>
  \<open>now\<close>: the milliseconds since the epoch; \<open>None\<close> when the system clock is before it, where
  the code panics. The cast of \<open>as_millis()\<close> to \<open>u64\<close> truncates.
\<close>

definition get_current_round :: "nat option \<Rightarrow> u64 option" where
  "get_current_round now =
     (case now of None \<Rightarrow> None | Some ms \<Rightarrow> Some ((word_of_nat ms :: u64) div ROUND_SIZE_MS))"

section \<open>Shared state\<close>

record replica_state =
  nextsn :: u64
  replica_log :: replica_log_appender
  broadcast :: "vote list"    \<comment> \<open>the votes the broadcast channel accepted, in order\<close>

datatype service_error = TimePanic | LogPanic

text \<open>\<open>nextsn.fetch_add(1, SeqCst)\<close>: atomic, and wrapping in every build profile.\<close>

definition fetch_add :: "'z replica_state_scheme \<Rightarrow> u64 \<times> 'z replica_state_scheme" where
  "fetch_add st = (nextsn st, st\<lparr>nextsn := nextsn st + 1\<rparr>)"

text \<open>\<open>vote_sender.send(vote)\<close>: refused exactly when the channel has no receiver.\<close>

definition send_vote :: "bool \<Rightarrow> vote \<Rightarrow> 'z replica_state_scheme \<Rightarrow> 'z replica_state_scheme" where
  "send_vote has_receiver v st =
     (if has_receiver then st\<lparr>broadcast := broadcast st @ [v]\<rparr> else st)"

section \<open>Log and vote service\<close>

text \<open>
  The rest of an iteration, once it has its sequence number \<open>n\<close> and round \<open>t\<close>, in two parts: up to
  the end of the append, after which a reader of the log finds the record, and the broadcast.
\<close>

definition log_vote_append ::
  "('sk, 'pk, 'sig) ed25519 \<Rightarrow> vote_record prost_message \<Rightarrow> 'sk \<Rightarrow> transaction \<Rightarrow> u64 \<Rightarrow> u64 \<Rightarrow> append_io \<Rightarrow>
     'z replica_state_scheme \<Rightarrow> 'z replica_state_scheme \<times> vote_record \<times> append_result" where
  "log_vote_append E P signing_key txn n t io st =
     (let message = message_to_sign (data txn) t n;
          sig_bytes = to_bytes E (sign E signing_key message);
          rec = \<lparr>tx = Some txn, ts = t, sn = n, sig = sig_bytes\<rparr>;
          (r, log') = append_entry P io rec (replica_log st)
      in (st\<lparr>replica_log := log'\<rparr>, rec, r))"

definition log_vote_send ::
  "u64 \<Rightarrow> vote_record \<Rightarrow> bool \<Rightarrow> 'z replica_state_scheme \<Rightarrow> 'z replica_state_scheme" where
  "log_vote_send rid rec has_receiver st =
     send_vote has_receiver
       \<lparr>replica_id = rid, timestamp = ts rec, sequence_number = sn rec, signature = sig rec,
        transaction = tx rec\<rparr> st"

definition log_vote_finish ::
  "('sk, 'pk, 'sig) ed25519 \<Rightarrow> vote_record prost_message \<Rightarrow> 'sk \<Rightarrow> u64 \<Rightarrow>
     transaction \<Rightarrow> u64 \<Rightarrow> u64 \<Rightarrow> append_io \<Rightarrow> bool \<Rightarrow>
     'z replica_state_scheme \<Rightarrow> 'z replica_state_scheme \<times> service_error option" where
  "log_vote_finish E P signing_key rid txn n t io has_receiver st =
     (let (st1, rec, r) = log_vote_append E P signing_key txn n t io st in
      case r of
        AppendPanic \<Rightarrow> (st1, Some LogPanic)
      | AppendErr _ \<Rightarrow> (st1, None)
      | Appended \<Rightarrow> (log_vote_send rid rec has_receiver st1, None))"

record write_input =
  w_transaction :: transaction
  w_now :: "nat option"
  w_io :: append_io
  w_has_receiver :: bool

definition log_vote_body ::
  "('sk, 'pk, 'sig) ed25519 \<Rightarrow> vote_record prost_message \<Rightarrow> 'sk \<Rightarrow> u64 \<Rightarrow>
     'z replica_state_scheme \<Rightarrow> write_input \<Rightarrow> 'z replica_state_scheme \<times> service_error option" where
  [service_defs]: "log_vote_body E P signing_key rid st i =
     (let (n, st1) = fetch_add st in
      case get_current_round (w_now i) of
        None \<Rightarrow> (st1, Some TimePanic)
      | Some t \<Rightarrow>
          log_vote_finish E P signing_key rid (w_transaction i) n t (w_io i) (w_has_receiver i) st1)"

definition start_log_vote_service ::
  "('sk, 'pk, 'sig) ed25519 \<Rightarrow> vote_record prost_message \<Rightarrow> 'sk \<Rightarrow> u64 \<Rightarrow>
     'z replica_state_scheme \<Rightarrow> write_input list \<Rightarrow> 'z replica_state_scheme \<times> service_error option" where
  "start_log_vote_service E P signing_key rid = service_loop (log_vote_body E P signing_key rid)"

section \<open>Heartbeat service\<close>

text \<open>\<open>b"HEARTBEAT"\<close>.\<close>

definition HEARTBEAT :: bytes where
  "HEARTBEAT = [72, 69, 65, 82, 84, 66, 69, 65, 84]"

definition checked_mul :: "u64 \<Rightarrow> u64 \<Rightarrow> u64 option" where
  "checked_mul a b = (if unat a * unat b < 2 ^ 64 then Some (a * b) else None)"

definition saturating_sub :: "u64 \<Rightarrow> u64 \<Rightarrow> u64" where
  "saturating_sub a b = (if b \<le> a then a - b else 0)"

text \<open>The wait before the first tick, in milliseconds; \<open>None\<close> is a panic.\<close>

definition heartbeat_wait_time :: "nat option \<Rightarrow> u64 option" where
  "heartbeat_wait_time now =
     (case now of
        None \<Rightarrow> None
      | Some ms \<Rightarrow>
          let current_time = (word_of_nat ms :: u64);
              current_round = current_time div ROUND_SIZE_MS
          in case checked_add current_round 1 of
               None \<Rightarrow> None
             | Some r1 \<Rightarrow>
                 (case checked_mul r1 ROUND_SIZE_MS of
                    None \<Rightarrow> None
                  | Some next_round_start \<Rightarrow> Some (saturating_sub next_round_start current_time)))"

definition heartbeat_finish ::
  "('sk, 'pk, 'sig) ed25519 \<Rightarrow> 'sk \<Rightarrow> u64 \<Rightarrow> u64 \<Rightarrow> u64 \<Rightarrow> bool \<Rightarrow>
     'z replica_state_scheme \<Rightarrow> 'z replica_state_scheme" where
  "heartbeat_finish E signing_key rid n t has_receiver st =
     (let message = message_to_sign HEARTBEAT t n;
          sig_bytes = to_bytes E (sign E signing_key message)
      in send_vote has_receiver
           \<lparr>replica_id = rid, timestamp = t, sequence_number = n, signature = sig_bytes,
            transaction = Some \<lparr>data = HEARTBEAT\<rparr>\<rparr> st)"

record tick_input =
  t_now :: "nat option"
  t_has_receiver :: bool

definition heartbeat_body ::
  "('sk, 'pk, 'sig) ed25519 \<Rightarrow> 'sk \<Rightarrow> u64 \<Rightarrow>
     'z replica_state_scheme \<Rightarrow> tick_input \<Rightarrow> 'z replica_state_scheme \<times> service_error option" where
  [service_defs]: "heartbeat_body E signing_key rid st i =
     (let (n, st1) = fetch_add st in
      case get_current_round (t_now i) of
        None \<Rightarrow> (st1, Some TimePanic)
      | Some t \<Rightarrow> (heartbeat_finish E signing_key rid n t (t_has_receiver i) st1, None))"

text \<open>
  The service up to the ticks seen so far: the initial wait (its clock reading is \<open>now0\<close>), then
  one iteration per tick.
\<close>

definition start_heartbeat_service ::
  "('sk, 'pk, 'sig) ed25519 \<Rightarrow> 'sk \<Rightarrow> u64 \<Rightarrow> nat option \<Rightarrow>
     'z replica_state_scheme \<Rightarrow> tick_input list \<Rightarrow> 'z replica_state_scheme \<times> service_error option" where
  "start_heartbeat_service E signing_key rid now0 st ticks =
     (case heartbeat_wait_time now0 of
        None \<Rightarrow> (st, Some TimePanic)
      | Some _ \<Rightarrow> service_loop (heartbeat_body E signing_key rid) st ticks)"

section \<open>The records and votes the services issue\<close>

definition signed_record ::
  "('sk, 'pk, 'sig) ed25519 \<Rightarrow> 'sk \<Rightarrow> transaction \<Rightarrow> u64 \<Rightarrow> u64 \<Rightarrow> vote_record" where
  "signed_record E k txn t n =
     \<lparr>tx = Some txn, ts = t, sn = n, sig = to_bytes E (sign E k (message_to_sign (data txn) t n))\<rparr>"

text \<open>The \<open>Vote\<close> a connection's catch-up task makes of a logged record.\<close>

definition vote_of_record :: "u64 \<Rightarrow> vote_record \<Rightarrow> vote" where
  "vote_of_record rid r =
     \<lparr>replica_id = rid, timestamp = ts r, sequence_number = sn r, signature = sig r,
      transaction = tx r\<rparr>"

definition signed_vote ::
  "('sk, 'pk, 'sig) ed25519 \<Rightarrow> 'sk \<Rightarrow> u64 \<Rightarrow> transaction \<Rightarrow> u64 \<Rightarrow> u64 \<Rightarrow> vote" where
  "signed_vote E k rid txn t n = vote_of_record rid (signed_record E k txn t n)"

lemma signed_record_simps [simp]:
  "tx (signed_record E k txn t n) = Some txn" "ts (signed_record E k txn t n) = t"
  "sn (signed_record E k txn t n) = n"
  by (simp_all add: signed_record_def)

lemma signed_vote_simps [simp]:
  "replica_id (signed_vote E k rid txn t n) = rid" "timestamp (signed_vote E k rid txn t n) = t"
  "sequence_number (signed_vote E k rid txn t n) = n"
  "transaction (signed_vote E k rid txn t n) = Some txn"
  "signature (signed_vote E k rid txn t n) =
     to_bytes E (sign E k (message_to_sign (data txn) t n))"
  by (simp_all add: signed_vote_def vote_of_record_def signed_record_def)

text \<open>The finishing steps in terms of these.\<close>

lemma log_vote_append_eq:
  "log_vote_append E P k txn n t io st =
     (case append_entry P io (signed_record E k txn t n) (replica_log st) of
        (r, l) \<Rightarrow> (st\<lparr>replica_log := l\<rparr>, signed_record E k txn t n, r))"
  by (simp add: log_vote_append_def signed_record_def Let_def)

lemma log_vote_send_eq: "log_vote_send rid r rx st = send_vote rx (vote_of_record rid r) st"
  by (simp add: log_vote_send_def vote_of_record_def)

lemma log_vote_finish_eq:
  "log_vote_finish E P k rid txn n t io rx st =
     (case append_entry P io (signed_record E k txn t n) (replica_log st) of
        (AppendPanic, l) \<Rightarrow> (st\<lparr>replica_log := l\<rparr>, Some LogPanic)
      | (AppendErr _, l) \<Rightarrow> (st\<lparr>replica_log := l\<rparr>, None)
      | (Appended, l) \<Rightarrow>
          (send_vote rx (signed_vote E k rid txn t n) (st\<lparr>replica_log := l\<rparr>), None))"
  by (simp add: log_vote_finish_def log_vote_append_eq log_vote_send_eq signed_vote_def
      split: prod.split append_result.split)

lemma heartbeat_finish_eq:
  "heartbeat_finish E k rid n t rx st = send_vote rx (signed_vote E k rid \<lparr>data = HEARTBEAT\<rparr> t n) st"
  by (simp add: heartbeat_finish_def signed_vote_def signed_record_def vote_of_record_def Let_def)

lemma send_vote_simps [simp]:
  "nextsn (send_vote rx v st) = nextsn st" "replica_log (send_vote rx v st) = replica_log st"
  "broadcast (send_vote rx v st) = broadcast st @ (if rx then [v] else [])"
  by (simp_all add: send_vote_def)

definition good_input :: "write_input \<Rightarrow> bool" where
  "good_input i \<longleftrightarrow> w_now i \<noteq> None \<and> w_io i = good_io \<and> w_has_receiver i"

text \<open>The records for a sequence of transactions, numbered from \<open>n\<close>.\<close>

primrec issued :: "('sk, 'pk, 'sig) ed25519 \<Rightarrow> 'sk \<Rightarrow> u64 \<Rightarrow> write_input list \<Rightarrow> vote_record list" where
  "issued E k n [] = []"
| "issued E k n (i # is) =
     signed_record E k (w_transaction i) (the (get_current_round (w_now i))) n # issued E k (n + 1) is"

lemma log_vote_body_good:
  assumes "good_input i" and "r = signed_record E k (w_transaction i) (the (get_current_round (w_now i))) (nextsn st)"
    and "frame_ok P r" and "\<not> poisoned (replica_log st)"
    and "unat (file_size (replica_log st)) + length (frame P r) < 2 ^ 64"
  shows "\<exists>l. log_append P good_io r (replica_log st) = Some l \<and> \<not> poisoned l \<and>
    unat (file_size l) = unat (file_size (replica_log st)) + length (frame P r) \<and>
    log_vote_body E P k rid st i =
      (st\<lparr>nextsn := nextsn st + 1, replica_log := l,
          broadcast := broadcast st @ [vote_of_record rid r]\<rparr>, None)"
proof -
  let ?a = "replica_log st"
  let ?l = "?a\<lparr>log_file := log_file ?a @ frame P r,
               file_size := file_size ?a + word_of_nat (length (frame P r))\<rparr>"
  have app: "append_entry P good_io r ?a = (Appended, ?l)"
    by (rule append_entry_success) (use assms(3-5) in \<open>auto simp: good_io_def\<close>)
  have "unat (file_size ?l) = unat (file_size ?a) + length (frame P r)"
    using assms(5) by (simp add: unat_word_ariths unat_of_nat)
  moreover obtain t where t: "get_current_round (w_now i) = Some t"
    using assms(1) by (auto simp: good_input_def get_current_round_def)
  ultimately show ?thesis
    using app assms(1,2,4)
    by (intro exI [of _ ?l])
      (simp add: log_append_def log_vote_body_def log_vote_finish_eq good_input_def fetch_add_def
        send_vote_def signed_vote_def)
qed

lemma log_vote_loop_good:
  assumes "\<forall>i\<in>set is. good_input i" and "\<forall>r\<in>set (issued E k (nextsn st) is). frame_ok P r"
    and "\<not> poisoned (replica_log st)"
    and "unat (file_size (replica_log st)) + length (frames P (issued E k (nextsn st) is)) < 2 ^ 64"
  shows "\<exists>l. try_all (\<lambda>(io, e). log_append P io e) (map (Pair good_io) (issued E k (nextsn st) is))
       (replica_log st) = Some l \<and>
    start_log_vote_service E P k rid st is =
      (st\<lparr>nextsn := nextsn st + word_of_nat (length is), replica_log := l,
          broadcast := broadcast st @ map (vote_of_record rid) (issued E k (nextsn st) is)\<rparr>, None)"
  using assms
proof (induction "is" arbitrary: st)
  case Nil
  then show ?case by (cases st) (simp add: start_log_vote_service_def)
next
  case (Cons i "is")
  define r where "r = signed_record E k (w_transaction i) (the (get_current_round (w_now i))) (nextsn st)"
  obtain l where l: "log_append P good_io r (replica_log st) = Some l" "\<not> poisoned l"
    "unat (file_size l) = unat (file_size (replica_log st)) + length (frame P r)"
    "log_vote_body E P k rid st i = (st\<lparr>nextsn := nextsn st + 1, replica_log := l,
          broadcast := broadcast st @ [vote_of_record rid r]\<rparr>, None)"
    using log_vote_body_good [OF _ r_def, of P rid] Cons.prems by (auto simp: r_def)
  let ?st = "st\<lparr>nextsn := nextsn st + 1, replica_log := l,
          broadcast := broadcast st @ [vote_of_record rid r]\<rparr>"
  from Cons.IH [of ?st] Cons.prems l(2,3) show ?case
    by (auto simp: l(1,4) start_log_vote_service_def r_def [symmetric] add.assoc)
qed

lemma log_vote_service_logged:
  assumes "\<forall>i\<in>set is. good_input i" and "well_framed P (replica_log st)"
    and "\<forall>r\<in>set (issued E k (nextsn st) is). frame_ok P r" and "\<not> poisoned (replica_log st)"
    and "unat (file_size (replica_log st)) + length (frames P (issued E k (nextsn st) is)) < 2 ^ 64"
    and "start_log_vote_service E P k rid st is = (st', e)"
  shows "e = None \<and> nextsn st' = nextsn st + word_of_nat (length is) \<and>
    broadcast st' = broadcast st @ map (vote_of_record rid) (issued E k (nextsn st) is) \<and>
    read_log P (log_file (replica_log st')) =
      (fst (read_log P (log_file (replica_log st))) @ issued E k (nextsn st) is, None)"
    and "well_framed P (replica_log st')"
proof -
  obtain l where l: "try_all (\<lambda>(io, e). log_append P io e)
       (map (Pair good_io) (issued E k (nextsn st) is)) (replica_log st) = Some l"
    "st' = st\<lparr>nextsn := nextsn st + word_of_nat (length is), replica_log := l,
          broadcast := broadcast st @ map (vote_of_record rid) (issued E k (nextsn st) is)\<rparr>" "e = None"
    using log_vote_loop_good [OF assms(1,3,4,5), of rid] assms(6) by auto
  have "fst (read_log P (log_file l)) =
      fst (read_log P (log_file (replica_log st))) @ issued E k (nextsn st) is \<and> well_framed P l"
    using replica_log.app_all [OF assms(2) _ l(1)] assms(3) by (simp add: comp_def)
  then have "well_framed P l" "read_log P (log_file l) =
      (fst (read_log P (log_file (replica_log st))) @ issued E k (nextsn st) is, None)"
    by (simp, metis well_framed_def read_log_frames fst_conv)
  with l(2,3) show "e = None \<and> nextsn st' = nextsn st + word_of_nat (length is) \<and>
    broadcast st' = broadcast st @ map (vote_of_record rid) (issued E k (nextsn st) is) \<and>
    read_log P (log_file (replica_log st')) =
      (fst (read_log P (log_file (replica_log st))) @ issued E k (nextsn st) is, None)"
    "well_framed P (replica_log st')" by simp_all
qed

section \<open>Properties of the services\<close>

text \<open>
  Under good I/O the log and vote service persists and broadcasts every transaction it
  receives, in order and with consecutive sequence numbers: a reader of the log gets exactly
  the records issued after those already there, and the broadcast votes are exactly the votes
  a catch-up reader makes of these records.
\<close>

theorem log_vote_service_persists_and_broadcasts:
  assumes "\<forall>i\<in>set is. good_input i" and "well_framed P (replica_log st)"
    and "\<forall>r\<in>set (issued E k (nextsn st) is). frame_ok P r" and "\<not> poisoned (replica_log st)"
    and "unat (file_size (replica_log st)) + length (frames P (issued E k (nextsn st) is)) < 2 ^ 64"
    and "start_log_vote_service E P k rid st is = (st', e)"
  shows "e = None \<and> nextsn st' = nextsn st + word_of_nat (length is) \<and>
    broadcast st' = broadcast st @ map (vote_of_record rid) (issued E k (nextsn st) is) \<and>
    read_log P (log_file (replica_log st')) =
      (fst (read_log P (log_file (replica_log st))) @ issued E k (nextsn st) is, None)"
  by (rule log_vote_service_logged(1) [OF assms])

text \<open>
  A failed append costs a sequence number: the service goes on, but nothing is broadcast
  under the number it had taken, so the numbers clients see have a gap.
\<close>

theorem failed_append_leaves_gap:
  assumes "get_current_round (w_now i) = Some t"
    and "append_entry P (w_io i) (signed_record E k (w_transaction i) t (nextsn st)) (replica_log st) =
       (AppendErr err, l)"
  shows "log_vote_body E P k rid st i = (st\<lparr>nextsn := nextsn st + 1, replica_log := l\<rparr>, None)"
  using assms by (simp add: log_vote_body_def log_vote_finish_eq fetch_add_def)

text \<open>
  The first heartbeat waits for the end of the current round: between 1 and 100
  milliseconds, to a multiple of the round length.
\<close>

theorem heartbeat_wait_ends_round:
  assumes "ms < 2 ^ 64 - 100"
  shows "\<exists>w. heartbeat_wait_time (Some ms) = Some w \<and> 0 < unat w \<and> unat w \<le> 100 \<and>
    (ms + unat w) mod 100 = 0"
proof -
  let ?t = "word_of_nat ms :: u64"
  let ?r = "?t div ROUND_SIZE_MS"
  have t: "unat ?t = ms" using assms by (simp add: unat_of_nat)
  have r: "unat ?r = ms div 100" by (simp add: ROUND_SIZE_MS_def unat_div t)
  have r1: "unat (?r + 1) = ms div 100 + 1"
    using r assms by (subst unat_Suc_word) (auto simp: div_le_dividend intro: le_less_trans [OF div_le_dividend])
  have "(ms div 100 + 1) * 100 < 2 ^ 64" using assms by simp
  moreover have "unat ROUND_SIZE_MS = 100" by (simp add: ROUND_SIZE_MS_def)
  ultimately have nx: "unat ((?r + 1) * ROUND_SIZE_MS) = (ms div 100 + 1) * 100"
    using unat_word_ariths(2) [of "?r + 1" ROUND_SIZE_MS] unfolding r1 by simp
  have ge: "ms \<le> (ms div 100 + 1) * 100" by simp
  have "checked_add ?r 1 = Some (?r + 1)"
    using r assms by (simp add: checked_add_def)
  moreover have "checked_mul (?r + 1) ROUND_SIZE_MS = Some ((?r + 1) * ROUND_SIZE_MS)"
    using \<open>(ms div 100 + 1) * 100 < 2 ^ 64\<close> \<open>unat ROUND_SIZE_MS = 100\<close>
    unfolding checked_mul_def r1 by simp
  moreover have "saturating_sub ((?r + 1) * ROUND_SIZE_MS) ?t = (?r + 1) * ROUND_SIZE_MS - ?t"
    using ge nx t by (simp add: saturating_sub_def word_le_nat_alt)
  ultimately have "heartbeat_wait_time (Some ms) = Some ((?r + 1) * ROUND_SIZE_MS - ?t)"
    by (simp add: heartbeat_wait_time_def Let_def)
  moreover have "unat ((?r + 1) * ROUND_SIZE_MS - ?t) = (ms div 100 + 1) * 100 - ms"
    using ge nx t by (subst unat_sub) (auto simp: word_le_nat_alt)
  moreover have "ms < (ms div 100 + 1) * 100" by simp
  moreover have "(ms div 100 + 1) * 100 - ms \<le> 100" by simp
  moreover have "(ms + ((ms div 100 + 1) * 100 - ms)) mod 100 = 0"
    using ge by (metis le_add_diff_inverse mod_mult_self2_is_0)
  ultimately show ?thesis by auto
qed

end
