(* ===== verification/ClientComms.thy ===== *)
theory ClientComms
  imports VoteServices
begin

text \<open>
  One client connection of a replica (\<open>pod/src/client_comms_service.rs\<close>): four tasks around a
  WebSocket and a channel. The write task turns incoming binary messages into transactions, the
  funnel forwards the broadcast votes, the catch-up task forwards the votes in the log, and the
  vote sender encodes what the channel holds. The channel is first in, first out, so what the
  sender takes from it is an interleaving of what the funnel and the catch-up task put in. The
  items a stream yields and whether a send succeeds are inputs; each task is run on the inputs so
  far and says whether it has ended.
\<close>

section \<open>Inputs\<close>

datatype ws_message = Binary bytes | Close | OtherMessage

datatype ws_item = WsMessage ws_message | WsError | WsEnd

text \<open>\<open>recv()\<close> on the broadcast channel: a vote, or an error (lagged behind, or closed).\<close>

datatype broadcast_item = Received vote | RecvError

section \<open>Tasks\<close>

text \<open>\<open>write_handle\<close>; the flag says whether the write channel accepts the transaction.\<close>

fun write_task :: "(ws_item \<times> bool) list \<Rightarrow> transaction list \<times> bool" where
  "write_task [] = ([], False)"
| "write_task ((WsEnd, _) # _) = ([], True)"
| "write_task ((WsError, _) # _) = ([], True)"
| "write_task ((WsMessage Close, _) # _) = ([], True)"
| "write_task ((WsMessage OtherMessage, _) # items) = write_task items"
| "write_task ((WsMessage (Binary d), accepted) # items) =
     (let (txs, ended) = write_task items in
      (if accepted then (\<lparr>data = d\<rparr> # txs, ended) else (txs, ended)))"

text \<open>\<open>vote_funnel_handle\<close>; sending to the channel fails only once it is closed.\<close>

fun vote_funnel :: "(broadcast_item \<times> bool) list \<Rightarrow> vote list \<times> bool" where
  "vote_funnel [] = ([], False)"
| "vote_funnel ((RecvError, _) # _) = ([], True)"
| "vote_funnel ((Received v, accepted) # items) =
     (if accepted then (let (vs, ended) = vote_funnel items in (v # vs, ended)) else ([], True))"

text \<open>Sending a list of votes one by one up to the first failure; the outcomes so far.\<close>

fun send_while :: "bool list \<Rightarrow> 'a list \<Rightarrow> 'a list" where
  "send_while (True # oks) (v # vs) = v # send_while oks vs"
| "send_while _ _ = []"

text \<open>\<open>_catch_up_handle\<close>: nothing when the log cannot be mapped; it stops at the first bad entry.\<close>

definition catch_up ::
  "vote_record prost_message \<Rightarrow> u64 \<Rightarrow> disk \<Rightarrow> bool \<Rightarrow> disk \<Rightarrow> bool \<Rightarrow> string \<Rightarrow> bool list \<Rightarrow> vote list" where
  "catch_up P rid d0 meta_ok d1 map_ok replica_log_file oks =
     (case get_replica_log_iterator d0 meta_ok d1 map_ok replica_log_file of
        Inl _ \<Rightarrow> []
      | Inr log_iterator \<Rightarrow> send_while oks (map (vote_of_record rid) (fst (collect_entries P log_iterator))))"

text \<open>\<open>vote_handle\<close>; the flag says whether the WebSocket accepts the message.\<close>

fun vote_sender :: "vote prost_message \<Rightarrow> u64 \<Rightarrow> (vote \<times> bool) list \<Rightarrow> bytes list \<times> bool" where
  "vote_sender P rid [] = ([], False)"
| "vote_sender P rid ((v, accepted) # vs) =
     (case encode P (v\<lparr>replica_id := rid\<rparr>) of
        None \<Rightarrow> vote_sender P rid vs
      | Some buf \<Rightarrow>
          if accepted then (let (ms, ended) = vote_sender P rid vs in (buf # ms, ended)) else ([], True))"

text \<open>
  What the client is sent over one connection: some interleaving of funnel and catch-up goes
  through the sender. \<open>handle_client_connection\<close> returns as soon as the write task, the sender or
  the funnel has ended.
\<close>

definition handle_client_connection ::
  "vote prost_message \<Rightarrow> u64 \<Rightarrow> (ws_item \<times> bool) list \<Rightarrow> (broadcast_item \<times> bool) list \<Rightarrow> vote list \<Rightarrow>
     (vote \<times> bool) list \<Rightarrow> (transaction list \<times> bytes list \<times> bool) option" where
  "handle_client_connection P rid incoming broadcasts history channel =
     (let (txs, write_ended) = write_task incoming;
          (live, funnel_ended) = vote_funnel broadcasts;
          (wire, sender_ended) = vote_sender P rid channel
      in if map fst channel \<in> shuffles live history
         then Some (txs, wire, write_ended \<or> sender_ended \<or> funnel_ended) else None)"

section \<open>Facts\<close>

definition wire_ok :: "vote prost_message \<Rightarrow> vote \<Rightarrow> bool" where
  "wire_ok P v \<longleftrightarrow> (case encode P v of None \<Rightarrow> False | Some bs \<Rightarrow> decode P bs = Some v)"

lemma vote_of_record_id [simp]: "(vote_of_record rid r)\<lparr>replica_id := rid\<rparr> = vote_of_record rid r"
  "replica_id (vote_of_record rid r) = rid"
  by (simp_all add: vote_of_record_def)

lemma send_while_all: "length vs \<le> length oks \<Longrightarrow> set oks \<subseteq> {True} \<Longrightarrow> send_while oks vs = vs"
  by (induction oks vs rule: send_while.induct) auto

lemma send_while_take: "\<exists>n. send_while oks vs = take n vs"
proof (induction oks vs rule: send_while.induct)
  case (1 oks v vs)
  then obtain n where "send_while oks vs = take n vs" by blast
  then show ?case by (intro exI [of _ "Suc n"]) simp
qed (auto intro: exI [of _ 0])

lemma funnel_all:
  "vote_funnel (map (\<lambda>v. (Received v, True)) vs) = (vs, False)"
  by (induction vs) simp_all

lemma vote_sender_all:
  "\<forall>v\<in>set vs. wire_ok P (v\<lparr>replica_id := rid\<rparr>) \<Longrightarrow>
     vote_sender P rid (map (\<lambda>v. (v, True)) vs) = (map (\<lambda>v. the (encode P (v\<lparr>replica_id := rid\<rparr>))) vs, False)"
  by (induction vs) (auto simp: wire_ok_def split: option.splits)

text \<open>The catch-up task on the log a service run wrote from an empty one.\<close>

lemma catch_up_history:
  assumes "\<forall>i\<in>set is. good_input i" and "replica_log st = \<lparr>log_file = [], file_size = 0, poisoned = False\<rparr>"
    and "\<forall>r\<in>set (issued E k (nextsn st) is). frame_ok P r"
    and "length (frames P (issued E k (nextsn st) is)) < 2 ^ 64"
    and "start_log_vote_service E P k rid st is = (st', e)"
    and "d0 name = Some f0" and "d1 name = Some (log_file (replica_log st'))"
  shows "catch_up P rid d0 True d1 True name oks =
      send_while oks (map (vote_of_record rid) (issued E k (nextsn st) is)) \<and>
    broadcast st' = broadcast st @ map (vote_of_record rid) (issued E k (nextsn st) is) \<and> e = None"
proof -
  have "well_framed P (replica_log st)" using assms(2) by (auto simp: well_framed_def intro: exI [of _ "[]"])
  moreover have "read_log P [] = ([], None)" using read_log_frames [of "[]" P] by simp
  ultimately have run: "broadcast st' = broadcast st @ map (vote_of_record rid) (issued E k (nextsn st) is)"
    "read_log P (log_file (replica_log st')) = (issued E k (nextsn st) is, None)"
    "well_framed P (replica_log st')" "e = None"
    using log_vote_service_logged [of "is" P st E k rid st' e] assms by simp_all
  then have "log_file (replica_log st') = frames P (issued E k (nextsn st) is)"
    using well_framed_read [of P "replica_log st'"] by simp
  then have "fst (collect_entries P \<lparr>mmap = log_file (replica_log st'), position = 0,
      it_file_size = word_of_nat (length f0), path = name\<rparr>) = issued E k (nextsn st) is"
    by (subst collect_frames_end [OF assms(3), where pre = "[]"]) simp_all
  with run(1,4) assms(6,7) show ?thesis by (simp add: catch_up_def get_replica_log_iterator_def)
qed

section \<open>Properties\<close>

text \<open>
  C28. What a connection catches up with is what was broadcast: if the log file holds what the
  log and vote service wrote, from an empty log and under good I/O, then the catch-up task sends
  exactly the votes the service had broadcast for these transactions, in the same order, up to
  where its sends are accepted.
\<close>

theorem catch_up_replays_broadcast:
  assumes "\<forall>i\<in>set is. good_input i" and "replica_log st = \<lparr>log_file = [], file_size = 0, poisoned = False\<rparr>"
    and "broadcast st = []" and "\<forall>r\<in>set (issued E k (nextsn st) is). frame_ok P r"
    and "length (frames P (issued E k (nextsn st) is)) < 2 ^ 64"
    and "start_log_vote_service E P k rid st is = (st', e)"
    and "d0 name = Some f0" and "d1 name = Some (log_file (replica_log st'))"
  shows "catch_up P rid d0 True d1 True name oks = send_while oks (broadcast st')"
  using catch_up_history [OF assms(1,2,4-6), of d0 name f0 d1 oks] assms(3,7,8) by simp

text \<open>A replica that logged one transaction.\<close>

definition one_input :: write_input where
  "one_input = \<lparr>w_transaction = \<lparr>data = [1, 2]\<rparr>, w_now = Some 1234, w_io = good_io, w_has_receiver = True\<rparr>"

definition fresh_replica :: replica_state where
  "fresh_replica = \<lparr>nextsn = 0, replica_log = \<lparr>log_file = [], file_size = 0, poisoned = False\<rparr>, broadcast = []\<rparr>"

lemma one_input_facts:
  "issued demo_ed25519 9 (nextsn fresh_replica) [one_input] = [signed_record demo_ed25519 9 \<lparr>data = [1, 2]\<rparr> 12 0]"
  "frame_ok demo_record_message (signed_record demo_ed25519 9 \<lparr>data = [1, 2]\<rparr> 12 0)"
  "length (frame demo_record_message (signed_record demo_ed25519 9 \<lparr>data = [1, 2]\<rparr> 12 0)) = 86"
  "good_input one_input"
proof -
  show "frame_ok demo_record_message (signed_record demo_ed25519 9 \<lparr>data = [1, 2]\<rparr> 12 0)"
    by (rule demo_record_frame_ok [where t = "\<lparr>data = [1, 2]\<rparr>"]) (simp_all add: signed_record_def demo_ed25519_def)
qed (simp_all add: one_input_def fresh_replica_def get_current_round_def ROUND_SIZE_MS_def good_input_def
    frame_def demo_record_message_def signed_record_def demo_ed25519_def)

theorem catch_up_replays_broadcast_witness:
  "let st' = fst (start_log_vote_service demo_ed25519 demo_record_message 9 3 fresh_replica [one_input]);
       d = [''replica_wal'' \<mapsto> log_file (replica_log st')]
   in catch_up demo_record_message 3 d True d True ''replica_wal'' [True, True] = send_while [True, True] (broadcast st')"
proof -
  let ?run = "start_log_vote_service demo_ed25519 demo_record_message 9 3 fresh_replica [one_input]"
  show ?thesis
    unfolding Let_def
    by (rule catch_up_replays_broadcast [of "[one_input]" fresh_replica demo_ed25519 9 demo_record_message 3
          "fst ?run" "snd ?run"])
      (simp_all add: one_input_facts(4) fresh_replica_def,
       simp_all add: one_input_def get_current_round_def ROUND_SIZE_MS_def one_input_facts(2,3))
qed

text \<open>
  A connection forwards live votes until the first receive error, and no further: every
  vote the broadcast channel delivered before is handed on in order, and one error (a receiver
  that lagged behind the channel's capacity) ends the funnel and with it the connection's
  handler, whatever is broadcast later.
\<close>

theorem funnel_ends_at_first_error:
  "vote_funnel (map (\<lambda>v. (Received v, True)) vs @ (RecvError, ok) # items) = (vs, True) \<and>
   (\<forall>history channel incoming txs wire ended.
      handle_client_connection P rid incoming (map (\<lambda>v. (Received v, True)) vs @ (RecvError, ok) # items)
        history channel = Some (txs, wire, ended) \<longrightarrow> ended \<and> map fst channel \<in> shuffles vs history)"
proof -
  have "vote_funnel (map (\<lambda>v. (Received v, True)) vs @ (RecvError, ok) # items) = (vs, True)"
    by (induction vs) simp_all
  then show ?thesis by (auto simp: handle_client_connection_def split: prod.splits if_splits)
qed

end
