(* ===== verification/SortedMap.thy ===== *)
theory SortedMap
  imports Prelude
begin

text \<open>
  \<open>std::collections::BTreeMap\<close> as far as the vote backlog uses it (\<open>insert\<close>,
  \<open>first_key_value\<close>, \<open>remove\<close>), as an association list in key order, and the contract its
  client relies on: a finite map together with access to its least key.
\<close>

section \<open>Operations\<close>

type_synonym ('k, 'v) btree_map = "('k \<times> 'v) list"

fun bt_insert :: "'k::linorder \<Rightarrow> 'v \<Rightarrow> ('k, 'v) btree_map \<Rightarrow> ('k, 'v) btree_map" where
  "bt_insert k v [] = [(k, v)]"
| "bt_insert k v ((k', v') # m) =
     (if k < k' then (k, v) # (k', v') # m
      else if k = k' then (k, v) # m
      else (k', v') # bt_insert k v m)"

fun bt_first :: "('k, 'v) btree_map \<Rightarrow> ('k \<times> 'v) option" where
  "bt_first [] = None"
| "bt_first (kv # m) = Some kv"

fun bt_remove :: "'k \<Rightarrow> ('k, 'v) btree_map \<Rightarrow> ('k, 'v) btree_map" where
  "bt_remove k [] = []"
| "bt_remove k ((k', v') # m) = (if k = k' then m else (k', v') # bt_remove k m)"

definition bt_sorted :: "('k::linorder, 'v) btree_map \<Rightarrow> bool" where
  "bt_sorted m \<longleftrightarrow> sorted_wrt (<) (map fst m)"

section \<open>Contract\<close>

locale ordered_map =
  fixes ins :: "'k::linorder \<Rightarrow> 'v \<Rightarrow> 'm \<Rightarrow> 'm"
    and first_kv :: "'m \<Rightarrow> ('k \<times> 'v) option"
    and rem :: "'k \<Rightarrow> 'm \<Rightarrow> 'm"
    and emp :: 'm
    and lkp :: "'m \<Rightarrow> 'k \<rightharpoonup> 'v"
    and wf :: "'m \<Rightarrow> bool"
  assumes lkp_emp: "lkp emp = Map.empty" and wf_emp: "wf emp"
    and lkp_ins: "wf m \<Longrightarrow> lkp (ins k v m) = (lkp m)(k \<mapsto> v)"
    and wf_ins: "wf m \<Longrightarrow> wf (ins k v m)"
    and lkp_rem: "wf m \<Longrightarrow> lkp (rem k m) = (lkp m)(k := None)"
    and wf_rem: "wf m \<Longrightarrow> wf (rem k m)"
    and first_None: "wf m \<Longrightarrow> first_kv m = None \<Longrightarrow> lkp m = Map.empty"
    and first_Some: "wf m \<Longrightarrow> first_kv m = Some (k, v) \<Longrightarrow> lkp m k = Some v"
    and first_least: "wf m \<Longrightarrow> first_kv m = Some (k, v) \<Longrightarrow> k' \<in> dom (lkp m) \<Longrightarrow> k \<le> k'"
begin

text \<open>Where every key is at least \<open>n\<close>, a first key other than \<open>n\<close> means \<open>n\<close> is absent.\<close>

lemma first_above:
  assumes "wf m" and "\<forall>k\<in>dom (lkp m). n \<le> k" and "\<forall>v. first_kv m \<noteq> Some (n, v)"
  shows "\<forall>k\<in>dom (lkp m). n < k"
proof (cases "first_kv m")
  case None
  with assms(1) show ?thesis by (simp add: first_None)
next
  case (Some kv)
  obtain k v where kv: "kv = (k, v)" by fastforce
  with Some assms have "k \<in> dom (lkp m)" "k \<noteq> n" by (auto dest: first_Some)
  with assms(2) have "n < k" by (metis order_le_imp_less_or_eq)
  with Some kv show ?thesis using first_least [OF assms(1)] by fastforce
qed

text \<open>Removing the first key raises the bound above it.\<close>

lemma rem_first_above:
  assumes "wf m" and "first_kv m = Some (k, v)"
  shows "\<forall>k'\<in>dom (lkp (rem k m)). k < k'"
  using assms first_least [OF assms] by (auto simp: lkp_rem order_less_le split: if_splits)

lemma dom_ins: "wf m \<Longrightarrow> dom (lkp (ins k v m)) = insert k (dom (lkp m))"
  by (simp add: lkp_ins)

lemma dom_rem: "wf m \<Longrightarrow> dom (lkp (rem k m)) = dom (lkp m) - {k}"
  by (simp add: lkp_rem)

end

section \<open>The sorted list meets the contract\<close>

lemma bt_sorted_Nil [simp]: "bt_sorted []"
  by (simp add: bt_sorted_def)

lemma bt_sorted_Cons [simp]:
  "bt_sorted (kv # m) \<longleftrightarrow> (\<forall>k\<in>fst ` set m. fst kv < k) \<and> bt_sorted m"
  by (auto simp: bt_sorted_def)

lemma bt_insert_keys: "fst ` set (bt_insert k v m) = insert k (fst ` set m)"
  by (induction k v m rule: bt_insert.induct) auto

lemma bt_sorted_insert: "bt_sorted m \<Longrightarrow> bt_sorted (bt_insert k v m)"
  by (induction k v m rule: bt_insert.induct) (auto simp: bt_insert_keys)

lemma map_of_bt_insert: "map_of (bt_insert k v m) = (map_of m)(k \<mapsto> v)"
  by (induction k v m rule: bt_insert.induct) auto

lemma set_bt_remove: "set (bt_remove k m) \<subseteq> set m"
  by (induction k m rule: bt_remove.induct) auto

lemma bt_sorted_remove: "bt_sorted m \<Longrightarrow> bt_sorted (bt_remove k m)"
  using set_bt_remove by (induction k m rule: bt_remove.induct) fastforce+

lemma map_of_bt_remove: "bt_sorted m \<Longrightarrow> map_of (bt_remove k m) = (map_of m)(k := None)"
  by (induction k m rule: bt_remove.induct) (force simp: fun_eq_iff map_of_eq_None_iff)+

lemma bt_first_cases:
  assumes "bt_first m = Some (k, v)"
  obtains m' where "m = (k, v) # m'"
  using assms by (cases m) auto

interpretation bt: ordered_map bt_insert bt_first bt_remove "[]" map_of bt_sorted
proof
  fix m :: "('a::linorder, 'b) btree_map" and k k' v
  show "bt_sorted m \<Longrightarrow> bt_first m = None \<Longrightarrow> map_of m = Map.empty"
    by (cases m) auto
  assume "bt_sorted m" "bt_first m = Some (k, v)"
  then obtain m' where m: "m = (k, v) # m'" "\<forall>k'\<in>fst ` set m'. k < k'"
    by (auto elim: bt_first_cases)
  then show "map_of m k = Some v" by simp
  show "k' \<in> dom (map_of m) \<Longrightarrow> k \<le> k'"
    using m by (auto simp: dom_map_of_conv_image_fst less_imp_le split: if_splits)
qed (simp_all add: map_of_bt_insert bt_sorted_insert map_of_bt_remove bt_sorted_remove)

lemma length_bt_remove_first: "bt_first m = Some (k, v) \<Longrightarrow> length (bt_remove k m) < length m"
  by (auto elim: bt_first_cases)

end
