(* ===== verification/PodDataUpdater.thy ===== *)
theory PodDataUpdater
  imports SortedMap VoteServices
begin

text \<open>
  The client's vote handler (\<open>client/src/pod_data_updater.rs\<close>) over the maps it shares with
  the API service, and its initial state (\<open>client/src/pod_network_client.rs\<close>). A hash map is
  a finite partial function (iteration order matters only to the API service, which takes it
  as an argument), the backlog's tree maps are sorted lists. An early exit of the handler
  (\<open>bail!\<close>, or the overflow panic of \<open>*nextsn + 1\<close>) is an error value next to the state
  reached so far.
\<close>

section \<open>State\<close>

text \<open>
  A parsed \<open>Url\<close>: its text and the parts the programs look at. As the \<open>url\<close> crate has it, the port is
  \<open>None\<close> when the text names none or the default one of its scheme.
\<close>

record url =
  url_str :: string
  url_scheme :: string
  url_host :: "string option"
  url_port :: "u16 option"

record 'pk replica =
  rp_id :: u64
  rp_url :: url
  rp_pk :: 'pk

record 'pk client_state =
  replicas :: "u64 \<rightharpoonup> 'pk replica"
  tsps :: "transaction \<rightharpoonup> (u64 \<rightharpoonup> u64)"
  mrt :: "u64 \<rightharpoonup> u64"
  next_sn :: "u64 \<rightharpoonup> u64"
  ts_vote_msg :: "u64 \<rightharpoonup> vote"
  backlog :: "u64 \<rightharpoonup> (u64, vote) btree_map"

datatype updater_error = NoReplica | NoNextSn | NoMrt | NoTsps | OverflowPanic

text \<open>The maps \<open>init_pod_network_client\<close> builds from the configured replicas.\<close>

definition init_client_state :: "'pk replica list \<Rightarrow> 'pk client_state" where
  "init_client_state replicas_list =
     \<lparr>replicas = fold (\<lambda>r m. m(rp_id r \<mapsto> r)) replicas_list Map.empty,
      tsps = Map.empty,
      mrt = fold (\<lambda>r m. m(rp_id r \<mapsto> 0)) replicas_list Map.empty,
      next_sn = fold (\<lambda>r m. m(rp_id r \<mapsto> 0)) replicas_list Map.empty,
      ts_vote_msg = Map.empty,
      backlog = Map.empty\<rparr>"

section \<open>Operations\<close>

definition is_heartbeat :: "transaction \<Rightarrow> bool" where
  "is_heartbeat txn \<longleftrightarrow> data txn = HEARTBEAT"

definition verify_vote_signature ::
  "('sk, 'pk, 'sig) ed25519 \<Rightarrow> 'pk \<Rightarrow> bytes \<Rightarrow> u64 \<Rightarrow> u64 \<Rightarrow> bytes \<Rightarrow> bool" where
  "verify_vote_signature E pk txn_data t n sig_bytes =
     (let message = message_to_sign txn_data t n in
      if length sig_bytes \<noteq> BYTE_SIZE E then False
      else (case try_from E sig_bytes of
              None \<Rightarrow> False
            | Some s \<Rightarrow> verify_strict E pk message s))"

definition process_vote ::
  "u64 \<Rightarrow> transaction \<Rightarrow> u64 \<Rightarrow> vote \<Rightarrow> 'pk client_state \<Rightarrow> 'pk client_state \<times> updater_error option" where
  "process_vote rid txn t v s =
     (let s1 = (if ts_vote_msg s t = None then s\<lparr>ts_vote_msg := (ts_vote_msg s)(t \<mapsto> v)\<rparr> else s) in
      case mrt s1 rid of
        None \<Rightarrow> (s1, Some NoMrt)
      | Some mrt_entry \<Rightarrow>
          if t < mrt_entry then (s1, None)
          else
            let s2 = s1\<lparr>mrt := (mrt s1)(rid \<mapsto> t)\<rparr> in
            if \<not> is_heartbeat txn then
              let s3 = (if tsps s2 txn = None then s2\<lparr>tsps := (tsps s2)(txn \<mapsto> Map.empty)\<rparr> else s2) in
              (case tsps s3 txn of
                 None \<Rightarrow> (s3, Some NoTsps)
               | Some m \<Rightarrow>
                   if m rid \<noteq> None \<and> m rid \<noteq> Some t then (s3, None)
                   else (s3\<lparr>tsps := (tsps s3)(txn \<mapsto> m(rid \<mapsto> t))\<rparr>, None))
            else (s2, None))"

lemma process_vote_frame:
  "process_vote rid txn t v s = (s', e) \<Longrightarrow>
     replicas s' = replicas s \<and> next_sn s' = next_sn s \<and> backlog s' = backlog s"
  by (auto simp: process_vote_def Let_def split: option.splits if_splits)

text \<open>The loop over the backlog of one replica, after a vote of it was processed.\<close>

function drain_backlog ::
  "u64 \<Rightarrow> 'pk client_state \<Rightarrow> 'pk client_state \<times> updater_error option" where
  "drain_backlog rid s =
     (case backlog s rid of
        None \<Rightarrow> (s, None)
      | Some b \<Rightarrow>
          (case bt_first b of
             None \<Rightarrow> (s, None)
           | Some (next_seq, v) \<Rightarrow>
               (case next_sn s rid of
                  None \<Rightarrow> (s, Some NoNextSn)
                | Some n \<Rightarrow>
                    if next_seq = n then
                      let s1 = s\<lparr>backlog := (backlog s)(rid \<mapsto> bt_remove next_seq b)\<rparr> in
                      (case checked_add n 1 of
                         None \<Rightarrow> (s1, Some OverflowPanic)
                       | Some n1 \<Rightarrow>
                           let s2 = s1\<lparr>next_sn := (next_sn s1)(rid \<mapsto> n1)\<rparr> in
                           (case transaction v of
                              None \<Rightarrow> drain_backlog rid s2
                            | Some txn \<Rightarrow>
                                (case process_vote rid txn (timestamp v) v s2 of
                                   (s3, Some e) \<Rightarrow> (s3, Some e)
                                 | (s3, None) \<Rightarrow> drain_backlog rid s3)))
                    else (s, None))))"
  by pat_completeness auto
termination
proof (relation "measure (\<lambda>(rid, s). length (the (backlog s rid)))", goal_cases)
  case 1
  show ?case by simp
next
  case (2 rid s b p k v n s1 n1 s2)
  then show ?case using length_bt_remove_first [of b k v] by auto
next
  case (3 rid s b p k v n s1 n1 s2 txn s3 e)
  have "process_vote rid txn (timestamp v) v s2 = (s3, None)" "backlog s rid = Some b"
    "bt_first b = Some (k, v)" "backlog s2 rid = Some (bt_remove k b)"
    using 3 by simp_all
  then show ?case
    using process_vote_frame [of rid txn "timestamp v" v s2 s3 None] length_bt_remove_first [of b k v]
    by simp
qed

declare drain_backlog.simps [simp del]

text \<open>One iteration of \<open>start_pod_data_updater\<close>.\<close>

definition handle_vote ::
  "('sk, 'pk, 'sig) ed25519 \<Rightarrow> 'pk client_state \<Rightarrow> vote \<Rightarrow> 'pk client_state \<times> updater_error option" where
  [service_defs]: "handle_vote E s v =
     (case transaction v of
        None \<Rightarrow> (s, None)
      | Some txn \<Rightarrow>
          (case replicas s (replica_id v) of
             None \<Rightarrow> (s, Some NoReplica)
           | Some r \<Rightarrow>
               if \<not> verify_vote_signature E (rp_pk r) (data txn) (timestamp v) (sequence_number v) (signature v)
               then (s, None)
               else
                 (case next_sn s (replica_id v) of
                    None \<Rightarrow> (s, Some NoNextSn)
                  | Some n \<Rightarrow>
                      if sequence_number v < n then (s, None)
                      else if sequence_number v > n then
                        let b = (case backlog s (replica_id v) of None \<Rightarrow> [] | Some b \<Rightarrow> b) in
                        (s\<lparr>backlog := (backlog s)(replica_id v \<mapsto> bt_insert (sequence_number v) v b)\<rparr>, None)
                      else
                        (case checked_add n 1 of
                           None \<Rightarrow> (s, Some OverflowPanic)
                         | Some n1 \<Rightarrow>
                             let s1 = s\<lparr>next_sn := (next_sn s)(replica_id v \<mapsto> n1)\<rparr> in
                             (case process_vote (replica_id v) txn (timestamp v) v s1 of
                                (s2, Some e) \<Rightarrow> (s2, Some e)
                              | (s2, None) \<Rightarrow> drain_backlog (replica_id v) s2)))))"

definition start_pod_data_updater ::
  "('sk, 'pk, 'sig) ed25519 \<Rightarrow> 'pk client_state \<Rightarrow> vote list \<Rightarrow> 'pk client_state \<times> updater_error option" where
  "start_pod_data_updater E s = service_loop (handle_vote E) (s\<lparr>backlog := Map.empty\<rparr>)"

end
