(* ===== verification/ReplicaComms.thy ===== *)
theory ReplicaComms
  imports ClientComms PodDataUpdater
begin

text \<open>
  The client's side of the connections (\<open>client/src/replica_comms_service.rs\<close>): connecting with
  retries, the loop that sends transactions to a replica and takes votes from it, and the service
  that runs one such task per replica and waits for all of them. The loop serves two sources, so
  it is run on the sequence of their events in the order it serves them.
\<close>

section \<open>Connecting\<close>

text \<open>What the \<open>i\<close>-th attempt gives within its five seconds.\<close>

datatype connect_outcome = Connected | ConnectError | TimedOut

datatype connect_result = Stream | ConnectionFailed | GaveUp

function connect_loop :: "(nat \<Rightarrow> connect_outcome) \<Rightarrow> nat \<Rightarrow> connect_result \<times> nat" where
  "connect_loop outcome attempts =
     (let attempts' = attempts + 1 in
      if attempts' > 5 then (GaveUp, attempts)
      else (case outcome attempts' of
              Connected \<Rightarrow> (Stream, attempts')
            | ConnectError \<Rightarrow> (ConnectionFailed, attempts')
            | TimedOut \<Rightarrow> connect_loop outcome attempts'))"
  by pat_completeness auto
termination
  by (relation "measure (\<lambda>(_, attempts). 5 - attempts)") auto

declare connect_loop.simps [simp del]

definition connect_to_replica :: "(nat \<Rightarrow> connect_outcome) \<Rightarrow> connect_result \<times> nat" where
  "connect_to_replica outcome = connect_loop outcome 0"

section \<open>Serving a connection\<close>

record comms_state =
  to_replica :: "bytes list"
  to_updater :: "vote list"

text \<open>An event and whether the send it leads to succeeds.\<close>

datatype comms_event = WriteRequest transaction bool | Incoming ws_item bool

datatype comms_exit = CommsClosed | SendFailed | ParseFailed | ForwardFailed

definition comms_body ::
  "vote prost_message \<Rightarrow> comms_state \<Rightarrow> comms_event \<Rightarrow> comms_state \<times> comms_exit option" where
  "comms_body P s ev =
     (case ev of
        WriteRequest txn sent_ok \<Rightarrow>
          if sent_ok then (s\<lparr>to_replica := to_replica s @ [data txn]\<rparr>, None) else (s, Some SendFailed)
      | Incoming (WsMessage (Binary binary)) sent_ok \<Rightarrow>
          (case decode P binary of
             None \<Rightarrow> (s, Some ParseFailed)
           | Some vote_msg \<Rightarrow>
               if sent_ok then (s\<lparr>to_updater := to_updater s @ [vote_msg]\<rparr>, None) else (s, Some ForwardFailed))
      | Incoming (WsMessage _) _ \<Rightarrow> (s, None)
      | Incoming WsError _ \<Rightarrow> (s, Some CommsClosed)
      | Incoming WsEnd _ \<Rightarrow> (s, Some CommsClosed))"

definition handle_replica_connection ::
  "vote prost_message \<Rightarrow> comms_event list \<Rightarrow> comms_state \<times> comms_exit option" where
  "handle_replica_connection P = service_loop (comms_body P) \<lparr>to_replica = [], to_updater = []\<rparr>"

section \<open>All replicas\<close>

datatype task_result = JoinError | TaskErr | TaskOk

definition process_connection_results :: "task_result list \<Rightarrow> bool" where
  "process_connection_results results \<longleftrightarrow> \<not> list_ex (\<lambda>r. r = JoinError \<or> r = TaskErr) results"

text \<open>The task of one replica, once its connection has ended.\<close>

definition replica_task :: "vote prost_message \<Rightarrow> (nat \<Rightarrow> connect_outcome) \<Rightarrow> comms_event list \<Rightarrow> task_result option" where
  "replica_task P outcome events =
     (case fst (connect_to_replica outcome) of
        Stream \<Rightarrow>
          (case snd (handle_replica_connection P events) of
             None \<Rightarrow> None
           | Some CommsClosed \<Rightarrow> Some TaskOk
           | Some _ \<Rightarrow> Some TaskErr)
      | _ \<Rightarrow> Some TaskErr)"

definition start_replica_comms_service ::
  "vote prost_message \<Rightarrow> ((nat \<Rightarrow> connect_outcome) \<times> comms_event list) list \<Rightarrow> bool option" where
  "start_replica_comms_service P tasks =
     (case those (map (\<lambda>(outcome, events). replica_task P outcome events) tasks) of
        None \<Rightarrow> None
      | Some results \<Rightarrow> Some (process_connection_results results))"

section \<open>Properties\<close>

text \<open>
  Connecting always comes to an end, after at most five attempts: it gives up exactly when
  all five time out, and a refused connection ends it at once, without a retry.
\<close>

theorem connect_bounded:
  "\<exists>r n. connect_to_replica outcome = (r, n) \<and> n \<le> 5 \<and>
     (r = GaveUp \<longleftrightarrow> outcome 1 = TimedOut \<and> outcome 2 = TimedOut \<and> outcome 3 = TimedOut \<and>
        outcome 4 = TimedOut \<and> outcome 5 = TimedOut) \<and>
     (outcome 1 = ConnectError \<longleftrightarrow> (r, n) = (ConnectionFailed, 1))"
  by (cases "outcome 1"; cases "outcome 2"; cases "outcome 3"; cases "outcome 4"; cases "outcome 5")
    (simp_all add: connect_to_replica_def connect_loop.simps numeral_eq_Suc)

text \<open>The parts of a sequence of events that go each way.\<close>

definition writes_of :: "comms_event list \<Rightarrow> transaction list" where
  "writes_of evs = concat (map (\<lambda>ev. case ev of WriteRequest txn _ \<Rightarrow> [txn] | _ \<Rightarrow> []) evs)"

definition binaries_of :: "comms_event list \<Rightarrow> bytes list" where
  "binaries_of evs = concat (map (\<lambda>ev. case ev of Incoming (WsMessage (Binary b)) _ \<Rightarrow> [b] | _ \<Rightarrow> []) evs)"

fun open_event :: "comms_event \<Rightarrow> bool" where
  "open_event (WriteRequest _ ok) \<longleftrightarrow> ok"
| "open_event (Incoming (WsMessage _) ok) \<longleftrightarrow> ok"
| "open_event (Incoming _ _) \<longleftrightarrow> False"

lemma events_simps [simp]:
  "writes_of [] = []" "writes_of (WriteRequest txn ok # evs) = txn # writes_of evs"
  "writes_of (Incoming i ok # evs) = writes_of evs"
  "binaries_of [] = []" "binaries_of (WriteRequest txn ok # evs) = binaries_of evs"
  "binaries_of (Incoming (WsMessage (Binary b)) ok # evs) = b # binaries_of evs"
  "binaries_of (Incoming (WsMessage Close) ok # evs) = binaries_of evs"
  "binaries_of (Incoming (WsMessage OtherMessage) ok # evs) = binaries_of evs"
  by (simp_all add: writes_of_def binaries_of_def)

lemma comms_body_open:
  "comms_body P s (WriteRequest txn True) = (s\<lparr>to_replica := to_replica s @ [data txn]\<rparr>, None)"
  "decode P b \<noteq> None \<Longrightarrow> comms_body P s (Incoming (WsMessage (Binary b)) True) =
     (s\<lparr>to_updater := to_updater s @ [the (decode P b)]\<rparr>, None)"
  "comms_body P s (Incoming (WsMessage Close) ok) = (s, None)"
  "comms_body P s (Incoming (WsMessage OtherMessage) ok) = (s, None)"
  by (auto simp: comms_body_def)

lemma comms_loop:
  assumes "\<forall>ev\<in>set evs. open_event ev" and "\<forall>b\<in>set (binaries_of evs). decode P b \<noteq> None"
  shows "service_loop (comms_body P) s evs =
    (s\<lparr>to_replica := to_replica s @ map data (writes_of evs),
       to_updater := to_updater s @ map (\<lambda>b. the (decode P b)) (binaries_of evs)\<rparr>, None)"
  using assms
proof (induction evs arbitrary: s)
  case Nil
  then show ?case by (cases s) simp
next
  case (Cons ev evs)
  show ?case
  proof (cases ev)
    case (WriteRequest txn ok)
    then show ?thesis using Cons by (simp add: comms_body_open)
  next
    case (Incoming i ok)
    then obtain m where m: "ev = Incoming (WsMessage m) True" using Cons.prems(1) by (cases i) simp_all
    show ?thesis by (cases m) (use Cons m in \<open>simp_all add: comms_body_open\<close>)
  qed
qed

lemma write_task_all:
  "write_task (map (\<lambda>d. (WsMessage (Binary d), True)) ds) = (map (\<lambda>d. \<lparr>data = d\<rparr>) ds, False)"
  by (induction ds) simp_all

text \<open>
  C29. Both directions of a connection are faithful. While nothing fails, the client hands to
  its vote handler exactly the votes the replica's sender took from its channel, in that order,
  each of them under the replica's id whatever id it carried before, and the replica hands to its
  write channel exactly the transactions the client was asked to write, in that order.
\<close>

theorem connection_carries_votes_and_writes:
  assumes "\<forall>v\<in>set votes. wire_ok P (v\<lparr>replica_id := rid\<rparr>)"
    and "vote_sender P rid (map (\<lambda>v. (v, True)) votes) = (wire, ended)"
    and "\<forall>ev\<in>set evs. open_event ev" and "binaries_of evs = wire"
    and "handle_replica_connection P evs = (s, e)"
  shows "e = None \<and> to_updater s = map (\<lambda>v. v\<lparr>replica_id := rid\<rparr>) votes \<and>
    fst (write_task (map (\<lambda>d. (WsMessage (Binary d), True)) (to_replica s))) = writes_of evs"
proof -
  let ?own = "\<lambda>v. v\<lparr>replica_id := rid\<rparr>"
  have wire: "wire = map (\<lambda>v. the (encode P (?own v))) votes" using vote_sender_all [OF assms(1)] assms(2) by simp
  have dec: "decode P (the (encode P (?own v))) = Some (?own v)" if "v \<in> set votes" for v
    using assms(1) that by (auto simp: wire_ok_def split: option.splits)
  then have "\<forall>b\<in>set (binaries_of evs). decode P b \<noteq> None" using assms(4) wire by auto
  from comms_loop [OF assms(3) this] assms(5)
  have "e = None" "to_replica s = map data (writes_of evs)" "to_updater s = map (\<lambda>b. the (decode P b)) wire"
    using assms(4) by (auto simp: handle_replica_connection_def)
  moreover have "map (\<lambda>b. the (decode P b)) wire = map ?own votes" using dec by (simp add: wire)
  moreover have "fst (write_task (map (\<lambda>d. (WsMessage (Binary d), True)) (to_replica s))) =
      map (\<lambda>d. \<lparr>data = d\<rparr>) (to_replica s)"
    by (simp only: write_task_all fst_conv)
  moreover have "map (\<lambda>d. \<lparr>data = d\<rparr>) (map data (writes_of evs)) = writes_of evs" by (simp add: map_idI)
  ultimately show ?thesis by simp
qed

text \<open>A fixed layout for votes without a signature, numbers in unary.\<close>

definition demo_vote_message :: "vote prost_message" where
  "demo_vote_message = \<lparr>encode = (\<lambda>v. Some [word_of_nat (unat (sequence_number v))]),
     merge = (\<lambda>m _. Some m), default_msg = default_vote,
     decode = (\<lambda>b. Some (default_vote\<lparr>replica_id := 3, sequence_number := word_of_nat (unat (hd b))\<rparr>))\<rparr>"

definition demo_events :: "comms_event list" where
  "demo_events = [Incoming (WsMessage (Binary [1])) True, WriteRequest \<lparr>data = [5]\<rparr> True,
     Incoming (WsMessage (Binary [0])) True]"

theorem connection_carries_votes_and_writes_witness:
  "vote_sender demo_vote_message 3 (map (\<lambda>v. (v, True))
      [default_vote\<lparr>replica_id := 8, sequence_number := 1\<rparr>, default_vote]) = ([[1], [0]], False) \<and>
   to_updater (fst (handle_replica_connection demo_vote_message demo_events)) =
      [default_vote\<lparr>replica_id := 3, sequence_number := 1\<rparr>, default_vote\<lparr>replica_id := 3\<rparr>] \<and>
   fst (write_task (map (\<lambda>d. (WsMessage (Binary d), True))
      (to_replica (fst (handle_replica_connection demo_vote_message demo_events))))) = [\<lparr>data = [5]\<rparr>]"
proof -
  let ?votes = "[default_vote\<lparr>replica_id := 8, sequence_number := 1\<rparr>, default_vote]"
  have w: "vote_sender demo_vote_message 3 (map (\<lambda>v. (v, True)) ?votes) = ([[1], [0]], False)"
    by (simp add: demo_vote_message_def default_vote_def)
  have v: "\<forall>v\<in>set ?votes. wire_ok demo_vote_message (v\<lparr>replica_id := 3\<rparr>)"
    by (simp add: wire_ok_def demo_vote_message_def default_vote_def)
  have evs: "\<forall>ev\<in>set demo_events. open_event ev" "binaries_of demo_events = [[1], [0]]"
    "writes_of demo_events = [\<lparr>data = [5]\<rparr>]"
    by (simp_all add: demo_events_def binaries_of_def writes_of_def)
  from connection_carries_votes_and_writes [OF v w evs(1,2) prod.collapse [symmetric]] evs(3) w
  show ?thesis by simp
qed

end
