(* ===== verification/UpdaterInvariant.thy ===== *)
theory UpdaterInvariant
  imports PodDataUpdater
begin

text \<open>
  What every iteration of the client's vote handler keeps: the three per-replica maps have the
  same keys, and each backlog holds verified votes of its replica under their own sequence
  numbers, all above the next expected one. And what it never undoes: \<open>mrt\<close> and \<open>next_sn\<close>
  only grow, recorded timestamps and vote messages are written once. Both make the handler an
  instance of the service interface, so they hold of every run.
\<close>

section \<open>Definitions\<close>

text \<open>The votes the handler takes in: a transaction, a known replica, a valid signature.\<close>

definition accepts :: "('sk, 'pk, 'sig) ed25519 \<Rightarrow> (u64 \<rightharpoonup> 'pk replica) \<Rightarrow> vote \<Rightarrow> bool" where
  "accepts E reps v \<longleftrightarrow>
     (case transaction v of
        None \<Rightarrow> False
      | Some txn \<Rightarrow>
          (case reps (replica_id v) of
             None \<Rightarrow> False
           | Some r \<Rightarrow> verify_vote_signature E (rp_pk r) (data txn) (timestamp v)
                         (sequence_number v) (signature v)))"

text \<open>
  While the backlog of a replica in \<open>X\<close> is being drained, its first key may be the next
  expected number.
\<close>

definition backlog_inv ::
  "('sk, 'pk, 'sig) ed25519 \<Rightarrow> u64 set \<Rightarrow> 'pk client_state \<Rightarrow> u64 \<Rightarrow> (u64, vote) btree_map \<Rightarrow> bool" where
  "backlog_inv E X s r b \<longleftrightarrow> bt_sorted b \<and>
     (\<exists>n. next_sn s r = Some n \<and> (\<forall>k\<in>dom (map_of b). n \<le> k \<and> (r \<notin> X \<longrightarrow> n < k))) \<and>
     (\<forall>k v. map_of b k = Some v \<longrightarrow>
        sequence_number v = k \<and> replica_id v = r \<and> accepts E (replicas s) v)"

definition client_inv_at :: "('sk, 'pk, 'sig) ed25519 \<Rightarrow> u64 set \<Rightarrow> 'pk client_state \<Rightarrow> bool" where
  "client_inv_at E X s \<longleftrightarrow> dom (mrt s) = dom (replicas s) \<and> dom (next_sn s) = dom (replicas s) \<and>
     (\<forall>r b. backlog s r = Some b \<longrightarrow> backlog_inv E X s r b)"

abbreviation client_inv :: "('sk, 'pk, 'sig) ed25519 \<Rightarrow> 'pk client_state \<Rightarrow> bool" where
  "client_inv E \<equiv> client_inv_at E {}"

text \<open>The order on client states: later states know more.\<close>

definition grows :: "('a \<rightharpoonup> u64) \<Rightarrow> ('a \<rightharpoonup> u64) \<Rightarrow> bool" where
  "grows m m' \<longleftrightarrow> (\<forall>k x. m k = Some x \<longrightarrow> (\<exists>y. m' k = Some y \<and> x \<le> y))"

definition ts_of :: "'pk client_state \<Rightarrow> transaction \<Rightarrow> u64 \<rightharpoonup> u64" where
  "ts_of s txn = (case tsps s txn of None \<Rightarrow> Map.empty | Some m \<Rightarrow> m)"

definition client_fwd :: "'pk client_state \<Rightarrow> 'pk client_state \<Rightarrow> bool" where
  "client_fwd s t \<longleftrightarrow> replicas t = replicas s \<and> grows (mrt s) (mrt t) \<and> grows (next_sn s) (next_sn t) \<and>
     (\<forall>txn. ts_of s txn \<subseteq>\<^sub>m ts_of t txn) \<and> dom (tsps s) \<subseteq> dom (tsps t) \<and>
     ts_vote_msg s \<subseteq>\<^sub>m ts_vote_msg t"

section \<open>Order facts\<close>

lemma grows_refl [simp]: "grows m m"
  by (simp add: grows_def)

lemma grows_trans: "grows m m' \<Longrightarrow> grows m' m'' \<Longrightarrow> grows m m''"
  unfolding grows_def by (meson order_trans)

lemma grows_upd: "(\<And>x. m k = Some x \<Longrightarrow> x \<le> y) \<Longrightarrow> grows m (m(k \<mapsto> y))"
  by (simp add: grows_def)

lemma client_fwd_refl: "client_fwd s s"
  by (simp add: client_fwd_def)

lemma client_fwd_trans: "client_fwd s t \<Longrightarrow> client_fwd t u \<Longrightarrow> client_fwd s u"
  unfolding client_fwd_def
  by (elim conjE, intro conjI allI)
    (simp, metis grows_trans, metis grows_trans, metis map_le_trans, blast, metis map_le_trans)

lemma client_fwd_backlog [simp]:
  "client_fwd (s\<lparr>backlog := b\<rparr>) t = client_fwd s t" "client_fwd s (t\<lparr>backlog := b\<rparr>) = client_fwd s t"
  by (simp_all add: client_fwd_def ts_of_def)

lemma client_fwd_next_sn:
  "next_sn s r = Some n \<Longrightarrow> checked_add n 1 = Some n1 \<Longrightarrow>
     client_fwd s (s\<lparr>next_sn := (next_sn s)(r \<mapsto> n1)\<rparr>)"
  by (auto simp: client_fwd_def ts_of_def word_le_nat_alt dest: checked_add_unat intro!: grows_upd)

section \<open>Parts of the invariant\<close>

lemma client_invD: "client_inv_at E X s \<Longrightarrow> backlog s r = Some b \<Longrightarrow> backlog_inv E X s r b"
  by (simp add: client_inv_at_def)

lemma backlog_inv_cong:
  "backlog_inv E X s r b \<Longrightarrow> next_sn s' r = next_sn s r \<Longrightarrow> replicas s' = replicas s \<Longrightarrow>
     (r \<in> X' \<longleftrightarrow> r \<in> X) \<Longrightarrow> backlog_inv E X' s' r b"
  by (simp add: backlog_inv_def)

lemma backlog_inv_next_sn: "client_inv_at E X s \<Longrightarrow> backlog s r = Some b \<Longrightarrow> \<exists>n. next_sn s r = Some n"
  using client_invD [of E X s r b] by (auto simp: backlog_inv_def)

section \<open>Processing a vote\<close>

lemma process_vote_inv:
  assumes "process_vote rid txn t v s = (s', e)" and "client_inv_at E X s" and "rid \<in> dom (replicas s)"
  shows "client_inv_at E X s' \<and> e = None"
proof -
  have "rid \<in> dom (mrt s)" using assms(2,3) by (simp add: client_inv_at_def)
  then have "dom (mrt s') = dom (mrt s)" "e = None"
    using assms(1) by (auto simp: process_vote_def Let_def split: if_splits option.splits)
  with process_vote_frame [OF assms(1)] assms(2) show ?thesis
    by (simp add: client_inv_at_def backlog_inv_def)
qed

lemma process_vote_fwd: "process_vote rid txn t v s = (s', e) \<Longrightarrow> client_fwd s s'"
  by (auto simp: process_vote_def client_fwd_def ts_of_def Let_def map_le_def
      split: if_splits option.splits intro!: grows_upd)

section \<open>Draining the backlog\<close>

text \<open>One round of the drain loop: the first vote of the backlog was the expected one.\<close>

lemma drain_pop_inv:
  assumes "client_inv_at E {rid} s" and "backlog s rid = Some b" and "bt_first b = Some (n, v)"
    and "next_sn s rid = Some n" and "checked_add n 1 = Some n1"
    and "s2 = s\<lparr>backlog := (backlog s)(rid \<mapsto> bt_remove n b), next_sn := (next_sn s)(rid \<mapsto> n1)\<rparr>"
  shows "client_inv_at E {rid} s2 \<and> rid \<in> dom (replicas s2) \<and>
    sequence_number v = n \<and> replica_id v = rid \<and> accepts E (replicas s) v"
proof -
  from assms(1,2) have b: "backlog_inv E {rid} s rid b" by (simp add: client_inv_at_def)
  then have sorted: "bt_sorted b" by (simp add: backlog_inv_def)
  with assms(3) have v: "map_of b n = Some v" by (simp add: bt.first_Some)
  have "\<forall>k\<in>dom (map_of (bt_remove n b)). n1 \<le> k"
    using bt.rem_first_above [OF sorted assms(3)] checked_add_unat [OF assms(5)]
    by (fastforce simp: word_less_nat_alt word_le_nat_alt Suc_le_eq)
  then have "backlog_inv E {rid} s2 rid (bt_remove n b)"
    using b sorted assms(6) by (auto simp: backlog_inv_def bt.lkp_rem bt.wf_rem split: if_splits)
  moreover have "backlog s2 r = Some b' \<Longrightarrow> r \<noteq> rid \<Longrightarrow> backlog_inv E {rid} s2 r b'" for r b'
    using backlog_inv_cong [OF client_invD [OF assms(1)], of r b' s2 "{rid}"] assms(6) by auto
  ultimately have "client_inv_at E {rid} s2"
    using assms(1,4,6) unfolding client_inv_at_def by (auto split: if_splits)
  moreover have "rid \<in> dom (replicas s2)"
    using assms(1,4,6) by (auto simp: client_inv_at_def)
  ultimately show ?thesis using b v by (auto simp: backlog_inv_def)
qed

lemma drain_stop_inv:
  assumes "client_inv_at E {rid} s"
    and "\<And>b n v. backlog s rid = Some b \<Longrightarrow> next_sn s rid = Some n \<Longrightarrow> bt_first b \<noteq> Some (n, v)"
  shows "client_inv E s"
proof -
  have "backlog_inv E {} s rid b" if b: "backlog s rid = Some b" for b
  proof -
    from assms(1) b have inv: "backlog_inv E {rid} s rid b" by (simp add: client_inv_at_def)
    then obtain n where n: "next_sn s rid = Some n" "bt_sorted b" "\<forall>k\<in>dom (map_of b). n \<le> k"
      by (auto simp: backlog_inv_def)
    then have "\<forall>k\<in>dom (map_of b). n < k"
      using assms(2) [OF b n(1)] by (intro bt.first_above) auto
    with inv n show ?thesis by (auto simp: backlog_inv_def)
  qed
  moreover have "backlog_inv E {} s r b" if "backlog s r = Some b" "r \<noteq> rid" for r b
    using backlog_inv_cong [OF client_invD [OF assms(1)], of r b s "{}"] that by auto
  ultimately show ?thesis using assms(1) unfolding client_inv_at_def by metis
qed

lemma drain_overflow_inv:
  assumes "client_inv_at E {rid} s" and "backlog s rid = Some b" and "bt_first b = Some (n, v)"
    and "next_sn s rid = Some n" and "s1 = s\<lparr>backlog := (backlog s)(rid \<mapsto> bt_remove n b)\<rparr>"
  shows "client_inv E s1"
proof -
  have b: "backlog_inv E {rid} s rid b" by (rule client_invD [OF assms(1,2)])
  then have sorted: "bt_sorted b" by (simp add: backlog_inv_def)
  have "backlog_inv E {} s1 rid (bt_remove n b)"
    using b bt.rem_first_above [OF sorted assms(3)] sorted assms(4,5)
    by (auto simp: backlog_inv_def bt.lkp_rem bt.wf_rem split: if_splits)
  moreover have "backlog s1 r = Some b' \<Longrightarrow> r \<noteq> rid \<Longrightarrow> backlog_inv E {} s1 r b'" for r b'
    using backlog_inv_cong [OF client_invD [OF assms(1)], of r b' s1 "{}"] assms(5) by auto
  ultimately show ?thesis
    using assms(1,5) unfolding client_inv_at_def by (auto split: if_splits)
qed

text \<open>
  The drain loop by its three outcomes under the invariant: nothing (more) to do, an overflow
  of the expected number, or one vote processed and the loop entered again.
\<close>

lemma drain_induct [consumes 1, case_names stop overflow pop]:
  assumes "client_inv_at E {rid} s"
    and stop: "\<And>s. client_inv E s \<Longrightarrow> Q s (s, None)"
    and overflow: "\<And>s b n s1 v. client_inv_at E {rid} s \<Longrightarrow> backlog s rid = Some b \<Longrightarrow>
      next_sn s rid = Some n \<Longrightarrow> checked_add n 1 = None \<Longrightarrow>
      s1 = s\<lparr>backlog := (backlog s)(rid \<mapsto> bt_remove n b)\<rparr> \<Longrightarrow> client_inv E s1 \<Longrightarrow> bt_first b = Some (n, v) \<Longrightarrow>
      Q s (s1, Some OverflowPanic)"
    and pop: "\<And>s b n v n1 s2 txn s3. client_inv_at E {rid} s \<Longrightarrow> backlog s rid = Some b \<Longrightarrow>
      bt_first b = Some (n, v) \<Longrightarrow> next_sn s rid = Some n \<Longrightarrow> checked_add n 1 = Some n1 \<Longrightarrow>
      s2 = s\<lparr>backlog := (backlog s)(rid \<mapsto> bt_remove n b), next_sn := (next_sn s)(rid \<mapsto> n1)\<rparr> \<Longrightarrow>
      sequence_number v = n \<Longrightarrow> replica_id v = rid \<Longrightarrow> accepts E (replicas s) v \<Longrightarrow>
      transaction v = Some txn \<Longrightarrow> process_vote rid txn (timestamp v) v s2 = (s3, None) \<Longrightarrow>
      client_inv_at E {rid} s3 \<Longrightarrow> Q s3 (drain_backlog rid s3) \<Longrightarrow> Q s (drain_backlog rid s3)"
  shows "Q s (drain_backlog rid s)"
  using assms(1)
proof (induction "length (the (backlog s rid))" arbitrary: s rule: less_induct)
  case less
  show ?case
  proof (cases "\<exists>b n v. backlog s rid = Some b \<and> next_sn s rid = Some n \<and> bt_first b = Some (n, v)")
    case False
    then have "drain_backlog rid s = (s, None)"
      using backlog_inv_next_sn [OF less.prems]
      by (subst drain_backlog.simps) (fastforce split: option.splits)
    moreover have "client_inv E s" by (rule drain_stop_inv [OF less.prems]) (use False in blast)
    ultimately show ?thesis by (simp add: stop)
  next
    case True
    then obtain b n v where bnv: "backlog s rid = Some b" "next_sn s rid = Some n" "bt_first b = Some (n, v)"
      by blast
    show ?thesis
    proof (cases "checked_add n 1")
      case None
      then have "drain_backlog rid s = (s\<lparr>backlog := (backlog s)(rid \<mapsto> bt_remove n b)\<rparr>, Some OverflowPanic)"
        using bnv by (subst drain_backlog.simps) simp
      with overflow [OF less.prems bnv(1,2) None refl drain_overflow_inv [OF less.prems bnv(1,3,2) refl] bnv(3)]
      show ?thesis by simp
    next
      case (Some n1)
      define s2 where "s2 = s\<lparr>backlog := (backlog s)(rid \<mapsto> bt_remove n b), next_sn := (next_sn s)(rid \<mapsto> n1)\<rparr>"
      have p: "client_inv_at E {rid} s2" "rid \<in> dom (replicas s2)" "sequence_number v = n"
        "replica_id v = rid" "accepts E (replicas s) v"
        using drain_pop_inv [OF less.prems bnv(1,3,2) Some s2_def] by auto
      obtain txn where txn: "transaction v = Some txn"
        using p(5) by (auto simp: accepts_def split: option.splits)
      obtain s3 e where "process_vote rid txn (timestamp v) v s2 = (s3, e)" by fastforce
      with process_vote_inv [OF this p(1,2)] have s3: "process_vote rid txn (timestamp v) v s2 = (s3, None)"
        "client_inv_at E {rid} s3" by auto
      have "backlog s3 rid = Some (bt_remove n b)"
        using process_vote_frame [OF s3(1)] by (simp add: s2_def)
      then have "Q s3 (drain_backlog rid s3)"
        using length_bt_remove_first [OF bnv(3)] bnv(1) s3(2) by (intro less.hyps) auto
      moreover have "drain_backlog rid s = drain_backlog rid s3"
        using bnv Some txn s3(1) by (subst drain_backlog.simps) (simp add: s2_def)
      ultimately show ?thesis
        using pop [OF less.prems bnv(1,3,2) Some s2_def p(3-5) txn s3] by simp
    qed
  qed
qed

lemma drain_backlog_ok:
  "client_inv_at E {rid} s \<Longrightarrow>
     client_inv E (fst (drain_backlog rid s)) \<and> client_fwd s (fst (drain_backlog rid s)) \<and>
     (snd (drain_backlog rid s) = None \<or> snd (drain_backlog rid s) = Some OverflowPanic)"
proof (induction rule: drain_induct)
  case (pop s b n v n1 s2 txn s3)
  have "client_fwd s s2" using pop(4,5,6) client_fwd_next_sn [OF pop(4,5)] by (simp add: client_fwd_def ts_of_def)
  with pop process_vote_fwd [OF pop(11)] show ?case by (auto intro: client_fwd_trans)
qed (simp_all add: client_fwd_refl)

section \<open>One iteration of the handler\<close>

text \<open>Advancing the expected number of the replica whose vote is at hand.\<close>

lemma client_inv_advance:
  assumes "client_inv E s" and "next_sn s r = Some n" and "checked_add n 1 = Some n1"
  shows "client_inv_at E {r} (s\<lparr>next_sn := (next_sn s)(r \<mapsto> n1)\<rparr>)" (is "client_inv_at E {r} ?s")
proof -
  have "backlog_inv E {r} ?s r' b" if b: "backlog s r' = Some b" for r' b
  proof (cases "r' = r")
    case True
    with client_invD [OF assms(1) b] assms(2) have "bt_sorted b" "\<forall>k\<in>dom (map_of b). n < k"
      "\<forall>k v. map_of b k = Some v \<longrightarrow> sequence_number v = k \<and> replica_id v = r' \<and> accepts E (replicas s) v"
      by (auto simp: backlog_inv_def)
    moreover have "\<forall>k\<in>dom (map_of b). n1 \<le> k"
      using \<open>\<forall>k\<in>dom (map_of b). n < k\<close> checked_add_unat [OF assms(3)]
      by (fastforce simp: word_less_nat_alt word_le_nat_alt Suc_le_eq)
    ultimately show ?thesis using True by (simp add: backlog_inv_def)
  next
    case False
    then show ?thesis
      using backlog_inv_cong [OF client_invD [OF assms(1) b], of ?s "{r}"] by simp
  qed
  with assms(1,2) show ?thesis by (auto simp: client_inv_at_def)
qed

lemma client_inv_future:
  assumes "client_inv E s" and "next_sn s (replica_id v) = Some n" and "n < sequence_number v"
    and "accepts E (replicas s) v" and "b = (case backlog s (replica_id v) of None \<Rightarrow> [] | Some b \<Rightarrow> b)"
  shows "client_inv E (s\<lparr>backlog := (backlog s)(replica_id v \<mapsto> bt_insert (sequence_number v) v b)\<rparr>)"
    (is "client_inv E ?s")
proof -
  have "backlog_inv E {} s (replica_id v) b"
  proof (cases "backlog s (replica_id v)")
    case None
    with assms(2,5) show ?thesis by (simp add: backlog_inv_def)
  next
    case (Some b')
    with client_invD [OF assms(1) Some] assms(5) show ?thesis by simp
  qed
  then have "backlog_inv E {} ?s (replica_id v) (bt_insert (sequence_number v) v b)"
    using assms(2-4) by (auto simp: backlog_inv_def bt.wf_ins bt.lkp_ins split: if_splits)
  moreover have "backlog_inv E {} ?s r b'" if "backlog s r = Some b'" for r b'
    using backlog_inv_cong [OF client_invD [OF assms(1) that], of ?s "{}"] by simp
  ultimately show ?thesis
    using assms(1) by (auto simp: client_inv_at_def)
qed

lemma handle_vote_cases [consumes 1, case_names ignored unknown future overflow processed]:
  assumes "client_inv E s"
  obtains
    "handle_vote E s v = (s, None)"
      "accepts E (replicas s) v \<Longrightarrow> \<exists>n. next_sn s (replica_id v) = Some n \<and> sequence_number v < n"
      "transaction v \<noteq> None \<Longrightarrow> replicas s (replica_id v) \<noteq> None"
  | "handle_vote E s v = (s, Some NoReplica)" "transaction v \<noteq> None" "replicas s (replica_id v) = None"
      "\<not> accepts E (replicas s) v"
  | n s' where "handle_vote E s v = (s', None)" "accepts E (replicas s) v"
      "next_sn s (replica_id v) = Some n" "n < sequence_number v"
      "s' = s\<lparr>backlog := (backlog s)(replica_id v \<mapsto> bt_insert (sequence_number v) v
         (case backlog s (replica_id v) of None \<Rightarrow> [] | Some b \<Rightarrow> b))\<rparr>" "client_inv E s'"
  | "handle_vote E s v = (s, Some OverflowPanic)" "accepts E (replicas s) v"
      "next_sn s (replica_id v) = Some (sequence_number v)" "checked_add (sequence_number v) 1 = None"
  | txn n1 s1 s2 where "handle_vote E s v = drain_backlog (replica_id v) s2" "accepts E (replicas s) v"
      "next_sn s (replica_id v) = Some (sequence_number v)" "checked_add (sequence_number v) 1 = Some n1"
      "transaction v = Some txn" "s1 = s\<lparr>next_sn := (next_sn s)(replica_id v \<mapsto> n1)\<rparr>"
      "process_vote (replica_id v) txn (timestamp v) v s1 = (s2, None)"
      "client_inv_at E {replica_id v} s2"
proof (cases "accepts E (replicas s) v")
  case False
  then show ?thesis
    using that(1,2) by (auto simp: handle_vote_def accepts_def split: option.splits)
next
  case True
  then obtain txn r where tr: "transaction v = Some txn" "replicas s (replica_id v) = Some r"
    "verify_vote_signature E (rp_pk r) (data txn) (timestamp v) (sequence_number v) (signature v)"
    by (auto simp: accepts_def split: option.splits)
  obtain n where n: "next_sn s (replica_id v) = Some n"
    using assms tr(2) by (fastforce simp: client_inv_at_def)
  note step = handle_vote_def tr n
  consider "sequence_number v < n" | "n < sequence_number v" | "sequence_number v = n" by fastforce
  then show ?thesis
  proof cases
    case 1
    then have "handle_vote E s v = (s, None)" by (simp add: step)
    with 1 n tr show ?thesis by (intro that(1)) auto
  next
    case 2
    show ?thesis
      by (rule that(3) [OF _ True n 2 refl client_inv_future [OF assms n 2 True refl]])
        (use 2 in \<open>simp add: step Let_def\<close>)
  next
    case 3
    show ?thesis
    proof (cases "checked_add n 1")
      case None
      with 3 have "handle_vote E s v = (s, Some OverflowPanic)" using tr(3) by (simp add: step)
      with 3 n True None show ?thesis by (intro that(4)) simp_all
    next
      case (Some n1)
      define s1 where "s1 = s\<lparr>next_sn := (next_sn s)(replica_id v \<mapsto> n1)\<rparr>"
      have inv: "client_inv_at E {replica_id v} s1"
        unfolding s1_def by (rule client_inv_advance [OF assms n Some])
      obtain s2 e where "process_vote (replica_id v) txn (timestamp v) v s1 = (s2, e)" by fastforce
      with process_vote_inv [OF this inv] tr(2)
      have s2: "process_vote (replica_id v) txn (timestamp v) v s1 = (s2, None)"
        "client_inv_at E {replica_id v} s2" by (auto simp: s1_def)
      have "handle_vote E s v = drain_backlog (replica_id v) s2"
        using 3 Some s2(1) tr(3) by (simp add: step s1_def)
      with that(5) [OF _ True _ _ tr(1) s1_def s2] 3 n Some show ?thesis by simp
    qed
  qed
qed

lemma handle_vote_ok:
  assumes "client_inv E s"
  shows "client_inv E (fst (handle_vote E s v)) \<and> client_fwd s (fst (handle_vote E s v))"
  using assms
proof (cases rule: handle_vote_cases [where v = v])
  case (processed txn n1 s1 s2)
  have "client_fwd s s1" unfolding processed(6) by (rule client_fwd_next_sn [OF processed(3,4)])
  then have "client_fwd s s2" using process_vote_fwd [OF processed(7)] by (rule client_fwd_trans)
  with drain_backlog_ok [OF processed(8)] processed(1) show ?thesis by (auto intro: client_fwd_trans)
qed (use assms in \<open>auto simp: client_fwd_refl\<close>)

interpretation updater: service "handle_vote E" "client_inv E" client_fwd for E
  by unfold_locales
    (use handle_vote_ok in \<open>blast intro: client_fwd_refl client_fwd_trans\<close>)+

lemma init_client_dom:
  "dom (fold (\<lambda>r m. m(rp_id r \<mapsto> f r)) rs m) = rp_id ` set rs \<union> dom m"
  by (induction rs arbitrary: m) auto

lemma init_client_inv: "client_inv E (init_client_state rs)"
  by (simp add: client_inv_at_def init_client_state_def init_client_dom)

end
