(* ===== verification/UpdaterRefinement.thy ===== *)
theory UpdaterRefinement
  imports UpdaterInvariant
begin

text \<open>
  The vote handler against the protocol it implements: Algorithm 1 of the pod paper
  (\<open>pod-core.pdf\<close>, lines 15 to 24), which handles a vote only when it carries the next
  expected sequence number and leaves the backlog to the implementation. The handler is shown
  to do what Algorithm 1 does on the votes it received, put in sequence order without gaps;
  what it has handled is exactly the gap-free part of what arrived.
\<close>

section \<open>Algorithm 1\<close>

record pod_core =
  pc_mrt :: "u64 \<rightharpoonup> u64"
  pc_nextsn :: "u64 \<rightharpoonup> u64"
  pc_tsps :: "transaction \<Rightarrow> u64 \<rightharpoonup> u64"

definition on_vote ::
  "('sk, 'pk, 'sig) ed25519 \<Rightarrow> (u64 \<rightharpoonup> 'pk replica) \<Rightarrow> vote \<Rightarrow> pod_core \<Rightarrow> pod_core" where
  "on_vote E reps v c =
     (let r = replica_id v; txn = the (transaction v); t = timestamp v in
      if \<not> accepts E reps v then c
      else if pc_nextsn c r \<noteq> Some (sequence_number v) then c
      else
        let c1 = c\<lparr>pc_nextsn := (pc_nextsn c)(r \<mapsto> sequence_number v + 1)\<rparr> in
        if t < the (pc_mrt c1 r) then c1
        else
          let c2 = c1\<lparr>pc_mrt := (pc_mrt c1)(r \<mapsto> t)\<rparr> in
          if is_heartbeat txn then c2
          else if pc_tsps c2 txn r \<noteq> None \<and> pc_tsps c2 txn r \<noteq> Some t then c2
          else c2\<lparr>pc_tsps := (pc_tsps c2)(txn := (pc_tsps c2 txn)(r \<mapsto> t))\<rparr>)"

definition pod_core_of :: "'pk client_state \<Rightarrow> pod_core" where
  "pod_core_of s = \<lparr>pc_mrt = mrt s, pc_nextsn = next_sn s, pc_tsps = ts_of s\<rparr>"

section \<open>Processing is a step of Algorithm 1\<close>

lemma pod_core_of_backlog [simp]: "pod_core_of (s\<lparr>backlog := b\<rparr>) = pod_core_of s"
  by (simp add: pod_core_of_def ts_of_def fun_eq_iff)

lemma ts_of_upd [simp]: "ts_of (s\<lparr>next_sn := x\<rparr>) = ts_of s" "ts_of (s\<lparr>backlog := y\<rparr>) = ts_of s"
  by (simp_all add: ts_of_def fun_eq_iff)

text \<open>What \<open>process_vote\<close> does to the abstract state, branch by branch.\<close>

lemma process_vote_mrt:
  "process_vote rid txn t v s = (s', None) \<Longrightarrow> mrt s rid = Some m \<Longrightarrow>
     mrt s' = (if t < m then mrt s else (mrt s)(rid \<mapsto> t))"
  by (auto simp: process_vote_def Let_def split: if_splits option.splits)

lemma process_vote_ts_of:
  "process_vote rid txn t v s = (s', None) \<Longrightarrow> mrt s rid = Some m \<Longrightarrow>
     ts_of s' = (if t < m \<or> is_heartbeat txn \<or> ts_of s txn rid \<noteq> None \<and> ts_of s txn rid \<noteq> Some t then ts_of s
                 else (ts_of s)(txn := (ts_of s txn)(rid \<mapsto> t)))"
  by (rule ext) (auto simp: process_vote_def ts_of_def Let_def split: if_splits option.splits)

lemma process_vote_refines:
  assumes "process_vote (replica_id v) txn (timestamp v) v s2 = (s3, None)"
    and "s2 = s\<lparr>backlog := b, next_sn := (next_sn s)(replica_id v \<mapsto> n1)\<rparr>"
    and "accepts E (replicas s) v" and "transaction v = Some txn"
    and "next_sn s (replica_id v) = Some (sequence_number v)"
    and "checked_add (sequence_number v) 1 = Some n1" and "mrt s (replica_id v) = Some m"
  shows "pod_core_of s3 = on_vote E (replicas s) v (pod_core_of s)"
proof -
  have n1: "n1 = sequence_number v + 1" using assms(6) by (simp add: checked_add_Some)
  have "mrt s2 (replica_id v) = Some m" using assms(2,7) by simp
  note pv = process_vote_mrt [OF assms(1) this] process_vote_ts_of [OF assms(1) this]
    process_vote_frame [OF assms(1)]
  show ?thesis
    using assms(2-5,7) n1 pv by (auto simp: on_vote_def pod_core_of_def Let_def)
qed

section \<open>Delivered votes\<close>

text \<open>
  \<open>ws\<close> is a delivery order for the handler's state \<open>s\<close>: votes from \<open>V\<close>, each replica's in
  sequence order from 0 without gaps, on which Algorithm 1 computes the state.
\<close>

definition delivery ::
  "('sk, 'pk, 'sig) ed25519 \<Rightarrow> vote set \<Rightarrow> pod_core \<Rightarrow> 'pk client_state \<Rightarrow> vote list \<Rightarrow> bool" where
  "delivery E V c0 s ws \<longleftrightarrow> set ws \<subseteq> V \<and>
     (\<forall>r b k v. backlog s r = Some b \<longrightarrow> map_of b k = Some v \<longrightarrow> v \<in> V) \<and>
     pod_core_of s = fold (on_vote E (replicas s)) ws c0 \<and>
     (\<forall>v\<in>set ws. accepts E (replicas s) v) \<and>
     (\<forall>r n. next_sn s r = Some n \<longrightarrow>
        map (\<lambda>v. unat (sequence_number v)) (filter (\<lambda>v. replica_id v = r) ws) = [0..<unat n])"

lemma delivery_step:
  assumes "delivery E V c0 s ws" and "v \<in> V" and "accepts E (replicas s) v"
    and "process_vote (replica_id v) txn (timestamp v) v s2 = (s3, None)"
    and "s2 = s\<lparr>backlog := b, next_sn := (next_sn s)(replica_id v \<mapsto> n1)\<rparr>"
    and "\<And>r b' k v. b r = Some b' \<Longrightarrow> map_of b' k = Some v \<Longrightarrow> v \<in> V"
    and "transaction v = Some txn" and "next_sn s (replica_id v) = Some (sequence_number v)"
    and "checked_add (sequence_number v) 1 = Some n1" and "mrt s (replica_id v) = Some m"
  shows "delivery E V c0 s3 (ws @ [v])"
proof -
  have fr: "replicas s3 = replicas s" "next_sn s3 = (next_sn s)(replica_id v \<mapsto> n1)" "backlog s3 = b"
    using process_vote_frame [OF assms(4)] assms(5) by auto
  have "pod_core_of s3 = on_vote E (replicas s) v (pod_core_of s)"
    by (rule process_vote_refines [OF assms(4,5,3,7-10)])
  moreover have "unat n1 = Suc (unat (sequence_number v))"
    using checked_add_unat [OF assms(9)] by simp
  ultimately show ?thesis
    using assms(1-3,6,8) fr by (auto simp: delivery_def)
qed

lemma drain_delivery:
  assumes "client_inv_at E {rid} s" and "delivery E V c0 s ws"
  shows "snd (drain_backlog rid s) = None \<longrightarrow> (\<exists>us. delivery E V c0 (fst (drain_backlog rid s)) (ws @ us))"
  using assms
proof (induction arbitrary: ws rule: drain_induct)
  case (stop s)
  then show ?case by (auto intro: exI [of _ "[]"])
next
  case (overflow s b n s1)
  then show ?case by simp
next
  case (pop s b n v n1 s2 txn s3)
  have sorted: "bt_sorted b" using client_invD [OF pop(1,2)] by (simp add: backlog_inv_def)
  then have "map_of b n = Some v" using pop(3) by (simp add: bt.first_Some)
  then have "v \<in> V" using pop(2,14) by (auto simp: delivery_def)
  have V: "\<And>r b' k v. ((backlog s)(rid \<mapsto> bt_remove n b)) r = Some b' \<Longrightarrow> map_of b' k = Some v \<Longrightarrow> v \<in> V"
    using pop(2,14) sorted by (auto simp: delivery_def bt.lkp_rem split: if_splits)
  obtain m where m: "mrt s (replica_id v) = Some m"
    using pop(1,4,8) by (fastforce simp: client_inv_at_def)
  have "delivery E V c0 s3 (ws @ [v])"
    by (rule delivery_step [OF pop(14) \<open>v \<in> V\<close> pop(9) _ _ _ pop(10), where
          b = "(backlog s)(rid \<mapsto> bt_remove n b)"])
      (use pop(4-6,7,8,11) m V in auto)
  from pop.IH [OF this] show ?case by auto
qed

lemma handle_vote_delivery:
  assumes "client_inv E s" and "delivery E V c0 s ws" and "v \<in> V" and "handle_vote E s v = (s', None)"
  shows "\<exists>us. delivery E V c0 s' (ws @ us)"
  using assms(1)
proof (cases rule: handle_vote_cases [where v = v])
  case ignored
  with assms(2,4) show ?thesis by (auto intro: exI [of _ "[]"])
next
  case (future n s'')
  have "bt_sorted (case backlog s (replica_id v) of None \<Rightarrow> [] | Some b \<Rightarrow> b)"
    using client_invD [OF assms(1)] by (auto simp: backlog_inv_def split: option.splits)
  with future assms(2-4) have "delivery E V c0 s' ws"
    by (auto simp: delivery_def bt.lkp_ins split: if_splits option.splits)
  then show ?thesis by (auto intro: exI [of _ "[]"])
next
  case (processed txn n1 s1 s2)
  obtain m where m: "mrt s (replica_id v) = Some m"
    using assms(1) processed(3) by (fastforce simp: client_inv_at_def)
  have "delivery E V c0 s2 (ws @ [v])"
    by (rule delivery_step [OF assms(2,3) processed(2,7), where b = "backlog s"])
      (use processed(3-6) assms(2) m in \<open>auto simp: delivery_def\<close>)
  moreover have "drain_backlog (replica_id v) s2 = (s', None)" using processed(1) assms(4) by simp
  ultimately show ?thesis using drain_delivery [OF processed(8), of V c0 "ws @ [v]"] by auto
qed (use assms(4) in auto)

lemma updater_delivery:
  assumes "client_inv E s" and "delivery E V c0 s ws" and "set vs \<subseteq> V"
    and "service_loop (handle_vote E) s vs = (s', None)"
  shows "\<exists>us. delivery E V c0 s' (ws @ us)"
  using assms
proof (induction vs arbitrary: s ws)
  case Nil
  then show ?case by (auto intro: exI [of _ "[]"])
next
  case (Cons v vs)
  from Cons.prems(4) obtain t where t: "handle_vote E s v = (t, None)"
    "service_loop (handle_vote E) t vs = (s', None)" by (auto split: prod.splits option.splits)
  obtain us where "delivery E V c0 t (ws @ us)"
    using handle_vote_delivery [OF Cons.prems(1,2) _ t(1)] Cons.prems(3) by auto
  moreover have "client_inv E t" using updater.body_inv [OF Cons.prems(1), of v] t(1) by simp
  ultimately obtain us' where "delivery E V c0 s' ((ws @ us) @ us')"
    using Cons.IH t(2) Cons.prems(3) by fastforce
  then show ?case by auto
qed

section \<open>What has arrived\<close>

text \<open>The sequence numbers of a replica the handler knows: handled, or waiting in the backlog.\<close>

definition known :: "'pk client_state \<Rightarrow> u64 \<Rightarrow> u64 set" where
  "known s r = (case next_sn s r of None \<Rightarrow> {} | Some n \<Rightarrow> {k. k < n}) \<union>
     (case backlog s r of None \<Rightarrow> {} | Some b \<Rightarrow> dom (map_of b))"

definition received ::
  "('sk, 'pk, 'sig) ed25519 \<Rightarrow> (u64 \<rightharpoonup> 'pk replica) \<Rightarrow> vote list \<Rightarrow> u64 \<Rightarrow> u64 set" where
  "received E reps vs r = sequence_number ` {v \<in> set vs. replica_id v = r \<and> accepts E reps v}"

lemma less_checked_add: "checked_add n 1 = Some n1 \<Longrightarrow> {k. k < n1} = insert n {k. k < n}"
  by (auto simp: word_less_nat_alt less_Suc_eq word_unat_eq_iff dest!: checked_add_unat)

lemma drain_known:
  assumes "client_inv_at E {rid} s"
  shows "snd (drain_backlog rid s) = None \<longrightarrow> known (fst (drain_backlog rid s)) = known s"
  using assms
proof (induction rule: drain_induct)
  case (pop s b n v n1 s2 txn s3)
  have sorted: "bt_sorted b" using client_invD [OF pop(1,2)] by (simp add: backlog_inv_def)
  then have "n \<in> dom (map_of b)" using pop(3) by (auto simp: bt.first_Some)
  then have "known s2 = known s"
    using sorted pop(2,4-6) by (auto simp: known_def fun_eq_iff bt.lkp_rem less_checked_add split: option.splits)
  moreover have "known s3 = known s2"
    using process_vote_frame [OF pop(11)] by (simp add: known_def fun_eq_iff)
  ultimately show ?case using pop.IH by simp
qed simp_all

lemma handle_vote_known:
  assumes "client_inv E s" and "handle_vote E s v = (s', None)"
  shows "known s' r = known s r \<union> received E (replicas s) [v] r"
  using assms(1)
proof (cases rule: handle_vote_cases [where v = v])
  case ignored
  with assms(2) show ?thesis by (auto simp: known_def received_def)
next
  case (future n s'')
  then show ?thesis
    using assms(2) by (auto simp: known_def received_def map_of_bt_insert split: option.splits)
next
  case (processed txn n1 s1 s2)
  have "drain_backlog (replica_id v) s2 = (s', None)" using processed(1) assms(2) by simp
  then have "known s' r = known s2 r" using drain_known [OF processed(8)] by simp
  also have "\<dots> = known s1 r" using process_vote_frame [OF processed(7)] by (simp add: known_def)
  also have "\<dots> = known s r \<union> received E (replicas s) [v] r"
    using processed(2,3,4,6) by (auto simp: known_def received_def less_checked_add)
  finally show ?thesis .
qed (use assms(2) in auto)

lemma updater_known:
  assumes "client_inv E s" and "service_loop (handle_vote E) s vs = (s', None)"
  shows "known s' r = known s r \<union> received E (replicas s) vs r"
  using assms
proof (induction vs arbitrary: s)
  case Nil
  then show ?case by (simp add: received_def)
next
  case (Cons v vs)
  from Cons.prems(2) obtain t where t: "handle_vote E s v = (t, None)"
    "service_loop (handle_vote E) t vs = (s', None)" by (auto split: prod.splits option.splits)
  have "client_inv E t" "replicas t = replicas s"
    using updater.body_inv [OF Cons.prems(1), of v] updater.body_fwd [OF Cons.prems(1), of v] t(1)
    by (simp_all add: client_fwd_def)
  with Cons.IH [OF _ t(2)] handle_vote_known [OF Cons.prems(1) t(1)] show ?case
    by (auto simp: received_def)
qed

text \<open>Under the invariant the next expected number is the least one not known.\<close>

lemma next_sn_least_unknown:
  "client_inv E s \<Longrightarrow> next_sn s r = Some n \<Longrightarrow> n \<notin> known s r \<and> (\<forall>k<n. k \<in> known s r)"
  using client_invD [of E "{}" s r] by (fastforce simp: known_def backlog_inv_def split: option.splits)

lemma init_start: "start_pod_data_updater E (init_client_state rs) = service_loop (handle_vote E) (init_client_state rs)"
  by (rule ext) (simp add: start_pod_data_updater_def init_client_state_def)

lemma init_next_sn:
  "next_sn (init_client_state rs) r = (if r \<in> rp_id ` set rs then Some 0 else None)"
  "mrt (init_client_state rs) r = (if r \<in> rp_id ` set rs then Some 0 else None)"
proof -
  have "fold (\<lambda>r m. m(rp_id r \<mapsto> 0)) rs m r = (if r \<in> rp_id ` set rs then Some 0 else m r)"
    for m :: "u64 \<rightharpoonup> u64" by (induction rs arbitrary: m) auto
  then show "next_sn (init_client_state rs) r = (if r \<in> rp_id ` set rs then Some 0 else None)"
    "mrt (init_client_state rs) r = (if r \<in> rp_id ` set rs then Some 0 else None)"
    by (simp_all add: init_client_state_def)
qed

lemma init_known: "known (init_client_state rs) r = {}"
  by (simp add: known_def init_next_sn) (simp add: init_client_state_def)

lemma init_delivery: "delivery E V (pod_core_of (init_client_state rs)) (init_client_state rs) []"
  by (auto simp: delivery_def init_next_sn split: if_splits) (simp add: init_client_state_def)

end
