(* ===== verification/UpdaterTheorems.thy ===== *)
theory UpdaterTheorems
  imports UpdaterRefinement
begin

text \<open>
  The properties of the client's vote handler, from the invariant, the delivery order and the
  account of what arrived.
\<close>

section \<open>A concrete client\<close>

text \<open>The URL of a host at the default port.\<close>

definition ws_url :: "string \<Rightarrow> url" where
  "ws_url h = \<lparr>url_str = ''ws://'' @ h @ ''/'', url_scheme = ''ws'', url_host = Some h, url_port = None\<rparr>"

text \<open>One replica with id 3 and key 9; its votes 0 and 1 arrive in reverse order.\<close>

definition demo_replicas :: "u8 replica list" where
  "demo_replicas = [\<lparr>rp_id = 3, rp_url = ws_url ''localhost'', rp_pk = 9\<rparr>]"

definition demo_vote :: "u8 \<Rightarrow> u64 \<Rightarrow> u64 \<Rightarrow> vote" where
  "demo_vote d t n = signed_vote demo_ed25519 9 3 \<lparr>data = [d]\<rparr> t n"

lemma demo_verify:
  "verify_vote_signature demo_ed25519 9 [d] t n (signature (demo_vote d t n))"
  by (simp add: verify_vote_signature_def demo_vote_def demo_ed25519_def)

lemma demo_init:
  "replicas (init_client_state demo_replicas) = [3 \<mapsto> \<lparr>rp_id = 3, rp_url = ws_url ''localhost'', rp_pk = 9\<rparr>]"
  by (simp add: init_client_state_def demo_replicas_def)

lemma demo_accepts: "accepts demo_ed25519 (replicas (init_client_state demo_replicas)) (demo_vote d t n)"
  using demo_verify [of d t n] by (simp add: accepts_def demo_init) (simp add: demo_vote_def)

lemma demo_not_heartbeat: "\<not> is_heartbeat \<lparr>data = [d]\<rparr>"
  by (simp add: is_heartbeat_def HEARTBEAT_def)

text \<open>Honest votes are accepted: the two sides build the same byte string.\<close>

lemma signed_vote_verifies:
  "ed25519_ok E \<Longrightarrow>
     verify_vote_signature E (verifying_key E k) (data txn) t n (signature (signed_vote E k rid txn t n))"
  by (auto simp: verify_vote_signature_def ed25519_ok_def)

text \<open>The votes with numbers 0 and 1, in reverse order: both are handled.\<close>

definition demo_votes :: "vote list" where
  "demo_votes = [demo_vote 2 11 1, demo_vote 1 10 0]"

definition demo_final :: "u8 client_state" where
  "demo_final = fst (start_pod_data_updater demo_ed25519 (init_client_state demo_replicas) demo_votes)"

lemma demo_vote_simps [simp]:
  "replica_id (demo_vote d t n) = 3" "timestamp (demo_vote d t n) = t"
  "sequence_number (demo_vote d t n) = n" "transaction (demo_vote d t n) = Some \<lparr>data = [d]\<rparr>"
  by (simp_all add: demo_vote_def)

lemma demo_step_future:
  "next_sn s 3 = Some n \<Longrightarrow> n < k \<Longrightarrow> replicas s = replicas (init_client_state demo_replicas) \<Longrightarrow>
     handle_vote demo_ed25519 s (demo_vote d t k) =
       (s\<lparr>backlog := (backlog s)(3 \<mapsto> bt_insert k (demo_vote d t k)
          (case backlog s 3 of None \<Rightarrow> [] | Some b \<Rightarrow> b))\<rparr>, None)"
  using demo_verify by (simp add: handle_vote_def demo_init Let_def)

lemma demo_run:
  "start_pod_data_updater demo_ed25519 (init_client_state demo_replicas) demo_votes = (demo_final, None)"
  "next_sn demo_final = [3 \<mapsto> 2]" "mrt demo_final = [3 \<mapsto> 11]"
  "tsps demo_final = [\<lparr>data = [1]\<rparr> \<mapsto> [3 \<mapsto> 10], \<lparr>data = [2]\<rparr> \<mapsto> [3 \<mapsto> 11]]"
proof -
  let ?s0 = "init_client_state demo_replicas"
  let ?r = "\<lparr>rp_id = 3, rp_url = ws_url ''localhost'', rp_pk = 9\<rparr> :: u8 replica"
  let ?s1 = "\<lparr>replicas = [3 \<mapsto> ?r], tsps = Map.empty, mrt = [3 \<mapsto> 0], next_sn = [3 \<mapsto> 0],
     ts_vote_msg = Map.empty, backlog = [3 \<mapsto> [(1, demo_vote 2 11 1)]]\<rparr>"
  let ?s2 = "\<lparr>replicas = [3 \<mapsto> ?r], tsps = [\<lparr>data = [1]\<rparr> \<mapsto> [3 \<mapsto> 10], \<lparr>data = [2]\<rparr> \<mapsto> [3 \<mapsto> 11]],
     mrt = [3 \<mapsto> 11], next_sn = [3 \<mapsto> 2],
     ts_vote_msg = [10 \<mapsto> demo_vote 1 10 0, 11 \<mapsto> demo_vote 2 11 1], backlog = [3 \<mapsto> []]\<rparr>"
  have 1: "handle_vote demo_ed25519 ?s0 (demo_vote 2 11 1) = (?s1, None)"
    by (subst demo_step_future [where n = 0])
      (simp_all add: init_next_sn, simp_all add: init_client_state_def demo_replicas_def)
  have 2: "handle_vote demo_ed25519 ?s1 (demo_vote 1 10 0) = (?s2, None)"
    by (simp add: handle_vote_def demo_verify checked_add_def process_vote_def demo_not_heartbeat Let_def
        drain_backlog.simps)
  have "start_pod_data_updater demo_ed25519 ?s0 demo_votes = (?s2, None)"
    by (simp add: init_start demo_votes_def 1 2)
  then show "start_pod_data_updater demo_ed25519 ?s0 demo_votes = (demo_final, None)"
    "next_sn demo_final = [3 \<mapsto> 2]" "mrt demo_final = [3 \<mapsto> 11]"
    "tsps demo_final = [\<lparr>data = [1]\<rparr> \<mapsto> [3 \<mapsto> 10], \<lparr>data = [2]\<rparr> \<mapsto> [3 \<mapsto> 11]]"
    by (simp_all add: demo_final_def)
qed

section \<open>Properties\<close>

text \<open>
  C1. Refinement of Algorithm 1 of the pod paper. Whatever order votes arrive in, with
  duplicates, forgeries and gaps among them, the state the handler reaches is the state
  Algorithm 1 reaches on some of the received votes, delivered for each replica in sequence
  order from 0 up to the number expected next.
\<close>

theorem updater_refines_algorithm_1:
  assumes "start_pod_data_updater E (init_client_state rs) vs = (s, None)"
  shows "\<exists>ws. set ws \<subseteq> set vs \<and>
    pod_core_of s = fold (on_vote E (replicas s)) ws (pod_core_of (init_client_state rs)) \<and>
    (\<forall>r n. next_sn s r = Some n \<longrightarrow>
       map (\<lambda>v. unat (sequence_number v)) (filter (\<lambda>v. replica_id v = r) ws) = [0..<unat n])"
  using updater_delivery [OF init_client_inv init_delivery subset_refl, of E rs vs s] assms
  by (auto simp: init_start delivery_def)

theorem updater_refines_algorithm_1_witness:
  "\<exists>ws. set ws \<subseteq> set demo_votes \<and>
    pod_core_of demo_final =
      fold (on_vote demo_ed25519 (replicas demo_final)) ws (pod_core_of (init_client_state demo_replicas)) \<and>
    map (\<lambda>v. unat (sequence_number v)) (filter (\<lambda>v. replica_id v = 3) ws) = [0..<2]"
proof -
  obtain ws where "set ws \<subseteq> set demo_votes"
    "pod_core_of demo_final =
      fold (on_vote demo_ed25519 (replicas demo_final)) ws (pod_core_of (init_client_state demo_replicas))"
    "map (\<lambda>v. unat (sequence_number v)) (filter (\<lambda>v. replica_id v = 3) ws) = [0..<unat (2 :: u64)]"
    using updater_refines_algorithm_1 [OF demo_run(1)] demo_run(2) by (metis fun_upd_same)
  then show ?thesis by (intro exI [of _ ws]) simp
qed

text \<open>
  C15. Reassembly: the number expected next from a configured replica is the least one for
  which no valid vote of it has arrived; all smaller ones have.
\<close>

theorem next_sn_is_first_gap:
  assumes "start_pod_data_updater E (init_client_state rs) vs = (s, None)" and "r \<in> rp_id ` set rs"
  shows "\<exists>n. next_sn s r = Some n \<and> n \<notin> received E (replicas s) vs r \<and>
    (\<forall>k<n. k \<in> received E (replicas s) vs r)"
proof -
  let ?s0 = "init_client_state rs"
  have run: "service_loop (handle_vote E) ?s0 vs = (s, None)" using assms(1) by (simp add: init_start)
  have inv: "client_inv E s" "replicas s = replicas ?s0" "grows (next_sn ?s0) (next_sn s)"
    using updater.loop_inv [OF init_client_inv [of E rs], of vs]
      updater.loop_fwd [OF init_client_inv [of E rs], of vs] run
    by (simp_all add: client_fwd_def)
  have "next_sn ?s0 r = Some 0" using assms(2) by (simp add: init_next_sn)
  then obtain n where n: "next_sn s r = Some n" using inv(3) unfolding grows_def by blast
  have "known s r = received E (replicas s) vs r"
    using updater_known [OF init_client_inv run] inv(2) by (simp add: init_known)
  with next_sn_least_unknown [OF inv(1) n] n show ?thesis by auto
qed

theorem next_sn_is_first_gap_witness:
  "\<exists>n. next_sn demo_final 3 = Some n \<and> n \<notin> received demo_ed25519 (replicas demo_final) demo_votes 3 \<and>
    (\<forall>k<n. k \<in> received demo_ed25519 (replicas demo_final) demo_votes 3)"
  using next_sn_is_first_gap [OF demo_run(1), of 3] by (simp add: demo_replicas_def)

lemma on_vote_tsps:
  "pc_tsps (fold (on_vote E reps) ws c) txn r = Some t \<Longrightarrow>
     pc_tsps c txn r = Some t \<or> (\<exists>v\<in>set ws. accepts E reps v \<and> transaction v = Some txn \<and>
       replica_id v = r \<and> timestamp v = t)"
proof (induction ws rule: rev_induct)
  case Nil
  then show ?case by simp
next
  case (snoc v ws)
  have "accepts E reps v \<Longrightarrow> transaction v = Some (the (transaction v))"
    by (auto simp: accepts_def split: option.splits)
  with snoc show ?case
    by (auto simp: on_vote_def Let_def split: if_splits)
qed

lemma recorded_vote:
  assumes "start_pod_data_updater E (init_client_state rs) vs = (s, None)" and "ts_of s txn r = Some t"
  shows "\<exists>v\<in>set vs. accepts E (replicas s) v \<and> transaction v = Some txn \<and> replica_id v = r \<and> timestamp v = t"
proof -
  obtain ws where ws: "set ws \<subseteq> set vs"
    "pod_core_of s = fold (on_vote E (replicas s)) ws (pod_core_of (init_client_state rs))"
    using updater_delivery [OF init_client_inv init_delivery subset_refl, of E rs vs s] assms(1)
    by (auto simp: init_start delivery_def)
  have "pc_tsps (pod_core_of s) txn r = Some t" using assms(2) by (simp add: pod_core_of_def)
  moreover have "pc_tsps (pod_core_of (init_client_state rs)) txn r = None"
    by (simp add: pod_core_of_def ts_of_def init_client_state_def)
  ultimately obtain v where "v \<in> set ws" "accepts E (replicas s) v" "transaction v = Some txn"
    "replica_id v = r" "timestamp v = t"
    using on_vote_tsps [of E "replicas s" ws "pod_core_of (init_client_state rs)" txn r t] ws(2) by auto
  with ws(1) show ?thesis by blast
qed

text \<open>
  C16. Authenticity: every timestamp the client has recorded for a transaction and a replica is
  that of a vote it received from that replica's id for that transaction, with a signature
  valid under the replica's configured key.
\<close>

theorem recorded_timestamps_are_signed:
  assumes "start_pod_data_updater E (init_client_state rs) vs = (s, None)"
    and "tsps s txn = Some m" and "m r = Some t"
  shows "\<exists>v\<in>set vs. \<exists>rep. replica_id v = r \<and> transaction v = Some txn \<and> timestamp v = t \<and>
    replicas s r = Some rep \<and>
    verify_vote_signature E (rp_pk rep) (data txn) t (sequence_number v) (signature v)"
proof -
  have "ts_of s txn r = Some t" using assms(2,3) by (simp add: ts_of_def)
  from recorded_vote [OF assms(1) this] show ?thesis by (fastforce simp: accepts_def split: option.splits)
qed

theorem recorded_timestamps_are_signed_witness:
  "\<exists>v\<in>set demo_votes. \<exists>rep. replica_id v = 3 \<and> transaction v = Some \<lparr>data = [1]\<rparr> \<and> timestamp v = 10 \<and>
    replicas demo_final 3 = Some rep \<and>
    verify_vote_signature demo_ed25519 (rp_pk rep) [1] 10 (sequence_number v) (signature v)"
  using recorded_timestamps_are_signed [OF demo_run(1), of "\<lparr>data = [1]\<rparr>" "[3 \<mapsto> 10]" 3 10] demo_run(4)
  by simp

text \<open>
  C23. The client's view only grows: between any two points of a run, the most recent timestamp
  of a replica does not decrease, a recorded timestamp of a transaction is not changed or
  dropped, and neither is the vote message kept for a round.
\<close>

theorem client_view_only_grows:
  assumes "start_pod_data_updater E (init_client_state rs) us = (s, None)"
    and "start_pod_data_updater E (init_client_state rs) (us @ vs) = (t, e)"
  shows "(\<forall>r x. mrt s r = Some x \<longrightarrow> (\<exists>y. mrt t r = Some y \<and> x \<le> y)) \<and>
    (\<forall>txn m r x. tsps s txn = Some m \<longrightarrow> m r = Some x \<longrightarrow> (\<exists>m'. tsps t txn = Some m' \<and> m' r = Some x)) \<and>
    (\<forall>x v. ts_vote_msg s x = Some v \<longrightarrow> ts_vote_msg t x = Some v)"
proof -
  have "client_inv E s"
    using updater.loop_inv [OF init_client_inv [of E rs], of us] assms(1) by (simp add: init_start)
  moreover have "service_loop (handle_vote E) s vs = (t, e)"
    using assms by (simp add: init_start service_loop_append)
  ultimately have fwd: "client_fwd s t" using updater.loop_fwd [of E s vs] by simp
  then have "\<exists>m'. tsps t txn = Some m' \<and> m' r = Some x" if "tsps s txn = Some m" "m r = Some x" for txn m r x
  proof -
    have "ts_of s txn r = Some x" using that by (simp add: ts_of_def)
    then have "ts_of t txn r = Some x" using fwd by (metis client_fwd_def map_le_def domI)
    then show ?thesis by (auto simp: ts_of_def split: option.splits)
  qed
  moreover have "ts_vote_msg s x = Some v \<Longrightarrow> ts_vote_msg t x = Some v" for x v
    using fwd by (metis client_fwd_def map_le_def domI)
  ultimately show ?thesis using fwd by (auto simp: client_fwd_def grows_def)
qed

theorem client_view_only_grows_witness:
  "\<exists>y. mrt demo_final 3 = Some y \<and> 0 \<le> y"
proof -
  have "start_pod_data_updater demo_ed25519 (init_client_state demo_replicas) [] =
      (init_client_state demo_replicas, None)" by (simp add: init_start)
  moreover have "start_pod_data_updater demo_ed25519 (init_client_state demo_replicas) ([] @ demo_votes) =
      (demo_final, None)" using demo_run(1) by simp
  moreover have "mrt (init_client_state demo_replicas) 3 = Some 0" by (simp add: init_next_sn demo_replicas_def)
  ultimately show ?thesis using client_view_only_grows by blast
qed

text \<open>
  One vote can stop the client: the handler ends with an error as soon as a vote carries a
  replica id outside the configuration (its signature is not looked at), and apart from the
  overflow of a sequence number nothing else ends it; its other errors are unreachable.
\<close>

theorem handler_stops_only_on_unknown_replica:
  assumes "start_pod_data_updater E (init_client_state rs) us = (s, None)"
    and "start_pod_data_updater E (init_client_state rs) (us @ [v]) = (t, e)"
  shows "(e = Some NoReplica \<longleftrightarrow> transaction v \<noteq> None \<and> replica_id v \<notin> rp_id ` set rs) \<and>
    e \<in> {None, Some NoReplica, Some OverflowPanic}"
proof -
  have inv: "client_inv E s"
    using updater.loop_inv [OF init_client_inv [of E rs], of us] assms(1) by (simp add: init_start)
  have "replicas s = replicas (init_client_state rs)"
    using updater.loop_fwd [OF init_client_inv [of E rs], of us] assms(1) by (simp add: init_start client_fwd_def)
  then have "dom (replicas s) = rp_id ` set rs"
    using init_client_dom [of "\<lambda>r. r" rs Map.empty] by (simp add: init_client_state_def)
  then have reps: "replicas s r = None \<longleftrightarrow> r \<notin> rp_id ` set rs" for r by (metis domIff)
  have "handle_vote E s v = (t, e)"
    using assms by (auto simp: init_start service_loop_append split: prod.splits option.splits)
  with inv show ?thesis
  proof (cases rule: handle_vote_cases [where v = v])
    case (processed txn n1 s1 s2)
    have "replica_id v \<in> rp_id ` set rs"
      using processed(2) reps [of "replica_id v"] by (auto simp: accepts_def split: option.splits)
    moreover have "drain_backlog (replica_id v) s2 = (t, e)"
      using processed(1) \<open>handle_vote E s v = (t, e)\<close> by simp
    ultimately show ?thesis using drain_backlog_ok [OF processed(8)] by auto
  next
    case (future n s')
    with reps [of "replica_id v"] \<open>handle_vote E s v = (t, e)\<close> show ?thesis
      by (auto simp: accepts_def split: option.splits)
  next
    case overflow
    with reps [of "replica_id v"] \<open>handle_vote E s v = (t, e)\<close> show ?thesis
      by (auto simp: accepts_def split: option.splits)
  qed (use reps [of "replica_id v"] in auto)
qed

text \<open>Votes of other replicas, and other votes of a replica, leave its part of the state alone.\<close>

definition same_at :: "u64 \<Rightarrow> 'pk client_state \<Rightarrow> 'pk client_state \<Rightarrow> bool" where
  "same_at r s s' \<longleftrightarrow> next_sn s' r = next_sn s r \<and> mrt s' r = mrt s r \<and> (\<forall>txn. ts_of s' txn r = ts_of s txn r)"

lemma process_vote_same_at: "process_vote rid txn t v s = (s', e) \<Longrightarrow> r \<noteq> rid \<Longrightarrow> same_at r s s'"
  by (auto simp: same_at_def process_vote_def ts_of_def Let_def split: if_splits option.splits)

lemma drain_same_at:
  assumes "client_inv_at E {rid} s" and "r \<noteq> rid"
  shows "same_at r s (fst (drain_backlog rid s))"
  using assms
proof (induction rule: drain_induct)
  case (pop s b n v n1 s2 txn s3)
  have "same_at r s s2" using pop(6) \<open>r \<noteq> rid\<close> by (simp add: same_at_def)
  with process_vote_same_at [OF pop(11) \<open>r \<noteq> rid\<close>] pop.IH \<open>r \<noteq> rid\<close> show ?case
    by (simp add: same_at_def)
qed (simp_all add: same_at_def)

lemma handle_vote_same_at:
  assumes "client_inv E s" and "next_sn s r = Some n" and "n \<notin> received E (replicas s) [v] r"
  shows "same_at r s (fst (handle_vote E s v))"
  using assms(1)
proof (cases rule: handle_vote_cases [where v = v])
  case (processed txn n1 s1 s2)
  then have ne: "r \<noteq> replica_id v" using assms(2,3) by (auto simp: received_def)
  have "same_at r s s1" using processed(6) ne by (simp add: same_at_def)
  with process_vote_same_at [OF processed(7) ne] drain_same_at [OF processed(8) ne] processed(1)
  show ?thesis by (simp add: same_at_def)
qed (simp_all add: same_at_def)

lemma updater_same_at:
  assumes "client_inv E s" and "next_sn s r = Some n" and "n \<notin> received E (replicas s) vs r"
  shows "same_at r s (fst (service_loop (handle_vote E) s vs))"
  using assms
proof (induction vs arbitrary: s)
  case Nil
  then show ?case by (simp add: same_at_def)
next
  case (Cons v vs)
  let ?t = "fst (handle_vote E s v)"
  have t: "client_inv E ?t" "replicas ?t = replicas s" "same_at r s ?t"
    using updater.body_inv [OF Cons.prems(1), of v] updater.body_fwd [OF Cons.prems(1), of v]
      handle_vote_same_at [OF Cons.prems(1,2), of v] Cons.prems(3)
    by (auto simp: client_fwd_def received_def)
  then have "same_at r ?t (fst (service_loop (handle_vote E) ?t vs))"
    using Cons.prems(2,3) by (intro Cons.IH) (auto simp: same_at_def received_def)
  with t(3) show ?case
    by (cases "handle_vote E s v") (auto simp: same_at_def split: option.splits)
qed

text \<open>
  A missing vote silences a replica for good: if the next expected vote of a replica never
  arrives, then whatever else arrives, from it or from others, its most recent timestamp and
  all its recorded timestamps stay as they are.
\<close>

theorem missing_vote_stalls_replica:
  assumes "start_pod_data_updater E (init_client_state rs) us = (s, None)"
    and "next_sn s r = Some n" and "n \<notin> received E (replicas s) vs r"
    and "start_pod_data_updater E (init_client_state rs) (us @ vs) = (t, e)"
  shows "next_sn t r = Some n \<and> mrt t r = mrt s r \<and> (\<forall>txn. ts_of t txn r = ts_of s txn r)"
proof -
  have "client_inv E s"
    using updater.loop_inv [OF init_client_inv [of E rs], of us] assms(1) by (simp add: init_start)
  moreover have "service_loop (handle_vote E) s vs = (t, e)"
    using assms(1,4) by (simp add: init_start service_loop_append)
  ultimately show ?thesis using updater_same_at [OF _ assms(2,3)] assms(2) by (simp add: same_at_def)
qed

text \<open>
  The client accepts what an honest replica sends: under the contract of the signature
  scheme, a vote made by either replica service verifies under the replica's public key, and
  the signed bytes determine transaction data, timestamp and sequence number, so a signature
  cannot be carried over to other values of them by rearranging bytes.
\<close>

theorem honest_votes_verify:
  assumes "ed25519_ok E"
  shows "verify_vote_signature E (verifying_key E k) (data txn) t n (signature (signed_vote E k rid txn t n)) \<and>
    (message_to_sign (data txn) t n = message_to_sign d' t' n' \<longleftrightarrow> data txn = d' \<and> t = t' \<and> n = n')"
  using signed_vote_verifies [OF assms] by (simp add: message_to_sign_eq_iff)

end
