(* ===== verification/Joining.thy ===== *)
theory Joining
  imports ReplicaComms UpdaterTheorems
begin

text \<open>
  A replica and a client together: what a client knows of a replica it connected to late, after
  votes were cast. The replica subscribes the connection to the broadcast channel before the
  catch-up task maps the log, and a vote is logged before it is broadcast, so every logged vote
  reaches the client one way or the other; a heartbeat is not logged and reaches only the
  connections that were there.
\<close>

section \<open>Votes of an honest replica in order\<close>

lemma issued_take: "issued E k n (take a is) = take a (issued E k n is)"
  by (induction "is" arbitrary: n a) (simp_all add: take_Cons' )

lemma length_issued [simp]: "length (issued E k n is) = length is"
  by (induction "is" arbitrary: n) simp_all

lemma issued_nth:
  "i < length is \<Longrightarrow> issued E k n is ! i =
     signed_record E k (w_transaction (is ! i)) (the (get_current_round (w_now (is ! i)))) (n + word_of_nat i)"
proof (induction "is" arbitrary: n i)
  case (Cons x xs)
  then show ?case by (cases i) (simp_all add: ac_simps)
qed simp

lemma in_issued:
  "r \<in> set (issued E k n is) \<Longrightarrow>
     \<exists>i\<in>set is. \<exists>m. r = signed_record E k (w_transaction i) (the (get_current_round (w_now i))) m"
  by (induction "is" arbitrary: n) auto

text \<open>What Algorithm 1 has of one replica after handling its votes in sequence order.\<close>

definition part_of :: "u64 \<Rightarrow> pod_core \<Rightarrow> u64 option \<times> u64 option \<times> (transaction \<Rightarrow> u64 option)" where
  "part_of r c = (pc_nextsn c r, pc_mrt c r, \<lambda>txn. pc_tsps c txn r)"

lemma on_vote_other: "replica_id v \<noteq> r \<Longrightarrow> part_of r (on_vote E reps v c) = part_of r c"
  by (auto simp: on_vote_def part_of_def Let_def fun_eq_iff)

lemma on_vote_part:
  "part_of (replica_id v) c = part_of (replica_id v) c' \<Longrightarrow>
     part_of (replica_id v) (on_vote E reps v c) = part_of (replica_id v) (on_vote E reps v c')"
  by (auto simp: on_vote_def part_of_def Let_def fun_eq_iff)

lemma fold_part:
  "part_of r (fold (on_vote E reps) ws c) = part_of r (fold (on_vote E reps) (filter (\<lambda>v. replica_id v = r) ws) c)"
proof (induction ws rule: rev_induct)
  case (snoc v ws)
  show ?case
  proof (cases "replica_id v = r")
    case True
    with snoc on_vote_part [of v] show ?thesis by auto
  next
    case False
    with snoc show ?thesis by (simp add: on_vote_other)
  qed
qed simp

lemma on_vote_next:
  assumes "accepts E reps v" and "replica_id v = r" and "transaction v = Some txn" and "\<not> is_heartbeat txn"
    and "part_of r c = (Some (sequence_number v), Some x, f)" and "x \<le> timestamp v" and "f txn = None"
  shows "part_of r (on_vote E reps v c) = (Some (sequence_number v + 1), Some (timestamp v), f(txn \<mapsto> timestamp v))"
  using assms by (auto simp: on_vote_def part_of_def Let_def not_less fun_eq_iff)

definition honest_votes :: "('sk, 'pk, 'sig) ed25519 \<Rightarrow> (u64 \<rightharpoonup> 'pk replica) \<Rightarrow> u64 \<Rightarrow> vote list \<Rightarrow> bool" where
  "honest_votes E reps r us \<longleftrightarrow>
     (\<forall>i<length us. sequence_number (us ! i) = word_of_nat i) \<and> sorted (map timestamp us) \<and>
     distinct (map transaction us) \<and>
     (\<forall>v\<in>set us. accepts E reps v \<and> replica_id v = r \<and> (\<exists>txn. transaction v = Some txn \<and> \<not> is_heartbeat txn))"

lemma honest_votes_snoc:
  assumes "honest_votes E reps r (us @ [v])"
  shows "honest_votes E reps r us" "sequence_number v = word_of_nat (length us)"
    "last (0 # map timestamp us) \<le> timestamp v" "transaction v \<notin> transaction ` set us"
    "accepts E reps v" "replica_id v = r" "\<exists>txn. transaction v = Some txn \<and> \<not> is_heartbeat txn"
proof -
  have sn: "\<forall>i<Suc (length us). sequence_number ((us @ [v]) ! i) = word_of_nat i"
    using assms by (simp add: honest_votes_def)
  then have "\<forall>i<length us. sequence_number (us ! i) = word_of_nat i" by (metis less_SucI nth_append)
  with assms show "honest_votes E reps r us" by (auto simp: honest_votes_def sorted_append)
  show "sequence_number v = word_of_nat (length us)" using sn by (metis lessI nth_append_length)
  show "last (0 # map timestamp us) \<le> timestamp v"
    using assms by (cases us rule: rev_cases) (auto simp: honest_votes_def sorted_append)
qed (use assms in \<open>auto simp: honest_votes_def\<close>)

lemma honest_fold:
  assumes "honest_votes E reps r us" and "part_of r c = (Some 0, Some 0, \<lambda>_. None)"
  shows "part_of r (fold (on_vote E reps) us c) =
    (Some (word_of_nat (length us)), Some (last (0 # map timestamp us)),
     map_of (map (\<lambda>v. (the (transaction v), timestamp v)) us))"
  using assms(1)
proof (induction us rule: rev_induct)
  case Nil
  then show ?case using assms(2) by (simp add: fun_eq_iff)
next
  case (snoc v us)
  note h = honest_votes_snoc [OF snoc.prems]
  obtain txn where txn: "transaction v = Some txn" "\<not> is_heartbeat txn" using h(7) by blast
  have "\<forall>w\<in>set us. \<exists>t. transaction w = Some t" using h(1) by (auto simp: honest_votes_def)
  then have new: "txn \<notin> (\<lambda>v. the (transaction v)) ` set us" using h(4) txn(1) by force
  then have none: "map_of (map (\<lambda>v. (the (transaction v), timestamp v)) us) txn = None"
    by (auto simp: map_of_eq_None_iff image_iff)
  have "part_of r (on_vote E reps v (fold (on_vote E reps) us c)) =
    (Some (sequence_number v + 1), Some (timestamp v),
     (map_of (map (\<lambda>v. (the (transaction v), timestamp v)) us))(txn \<mapsto> timestamp v))"
    by (rule on_vote_next [OF h(5,6) txn snoc.IH [OF h(1), folded h(2)] h(3) none])
  moreover have "(map_of (map (\<lambda>v. (the (transaction v), timestamp v)) us))(txn \<mapsto> timestamp v) =
      map_of (map (\<lambda>v. (the (transaction v), timestamp v)) (us @ [v]))"
    using none txn(1) by (auto simp: fun_eq_iff map_add_def split: option.splits)
  ultimately show ?case using h(2) by (simp add: add.commute)
qed

section \<open>A client that received all of them\<close>

lemma first_gap_of_prefix:
  assumes "n \<notin> word_of_nat ` {..<m}" and "\<forall>k<n. k \<in> word_of_nat ` {..<m}" and "m < 2 ^ 64"
  shows "n = (word_of_nat m :: u64)"
proof -
  have unat: "unat (word_of_nat i :: u64) = i" if "i \<le> m" for i using assms(3) that by (simp add: unat_of_nat)
  have n: "word_of_nat (unat n) = n" by simp
  then have "\<not> unat n < m" using assms(1) by (metis image_eqI lessThan_iff)
  moreover have "\<not> m < unat n"
  proof
    assume "m < unat n"
    then have "word_of_nat m < n" using unat by (simp add: word_less_nat_alt)
    then obtain i where "i < m" "(word_of_nat m :: u64) = word_of_nat i" using assms(2) by auto
    with unat [of m] unat [of i] show False by simp
  qed
  ultimately have "unat n = m" by simp
  with n show ?thesis by simp
qed

lemma honest_sequence:
  assumes "honest_votes E reps r V" and "length V < 2 ^ 64"
    and "map (\<lambda>v. unat (sequence_number v)) us = [0..<length V]" and "set us \<subseteq> set V"
  shows "us = V"
proof (rule nth_equalityI)
  show len: "length us = length V" using arg_cong [OF assms(3), of length] by simp
  fix i assume i: "i < length us"
  then have "us ! i \<in> set V" using assms(4) nth_mem by blast
  then obtain j where j: "j < length V" "us ! i = V ! j" by (metis in_set_conv_nth)
  have "unat (sequence_number (us ! i)) = i"
    using arg_cong [OF assms(3), of "\<lambda>xs. xs ! i"] i len by simp
  moreover have "unat (sequence_number (V ! j)) = j"
    using assms(1,2) j(1) by (simp add: honest_votes_def unat_of_nat)
  ultimately show "us ! i = V ! i" using j(2) by simp
qed

lemma received_honest:
  assumes "honest_votes E reps r V" and "{v \<in> set vs. replica_id v = r \<and> accepts E reps v} = set V"
  shows "received E reps vs r = word_of_nat ` {..<length V}"
proof -
  have "received E reps vs r = sequence_number ` set V" using assms(2) by (simp add: received_def)
  also have "\<dots> = (\<lambda>i. sequence_number (V ! i)) ` {..<length V}"
    unfolding set_conv_nth by auto
  also have "\<dots> = word_of_nat ` {..<length V}"
    using assms(1) by (intro image_cong) (simp_all add: honest_votes_def)
  finally show ?thesis .
qed

lemma client_learns_all:
  assumes "start_pod_data_updater E (init_client_state rs) vs = (s, None)" and "r \<in> rp_id ` set rs"
    and "honest_votes E (replicas (init_client_state rs)) r V" and "length V < 2 ^ 64"
    and "{v \<in> set vs. replica_id v = r \<and> accepts E (replicas (init_client_state rs)) v} = set V"
  shows "next_sn s r = Some (word_of_nat (length V)) \<and>
    (\<forall>v\<in>set V. ts_of s (the (transaction v)) r = Some (timestamp v))"
proof -
  let ?s0 = "init_client_state rs"
  have run: "service_loop (handle_vote E) ?s0 vs = (s, None)" using assms(1) by (simp add: init_start)
  have inv: "client_inv E s" "replicas s = replicas ?s0" "grows (next_sn ?s0) (next_sn s)"
    using updater.loop_inv [OF init_client_inv [of E rs], of vs]
      updater.loop_fwd [OF init_client_inv [of E rs], of vs] run by (simp_all add: client_fwd_def)
  have "next_sn ?s0 r = Some 0" using assms(2) by (simp add: init_next_sn)
  then obtain n where n: "next_sn s r = Some n" using inv(3) unfolding grows_def by blast
  have "known s r = word_of_nat ` {..<length V}"
    using updater_known [OF init_client_inv run] received_honest [OF assms(3,5)] by (simp add: init_known)
  then have n_eq: "n = word_of_nat (length V)"
    using next_sn_least_unknown [OF inv(1) n] by (intro first_gap_of_prefix [OF _ _ assms(4)]) simp_all
  obtain ws where ws: "delivery E (set vs) (pod_core_of ?s0) s ws"
    using updater_delivery [OF init_client_inv init_delivery subset_refl run] by auto
  let ?us = "filter (\<lambda>v. replica_id v = r) ws"
  have "map (\<lambda>v. unat (sequence_number v)) ?us = [0..<length V]"
    using ws n n_eq assms(4) by (simp add: delivery_def unat_of_nat)
  moreover have "set ?us \<subseteq> set V" using ws assms(5) inv(2) by (auto simp: delivery_def)
  ultimately have us: "?us = V" by (rule honest_sequence [OF assms(3,4)])
  have "part_of r (pod_core_of ?s0) = (Some 0, Some 0, \<lambda>_. None)"
    using assms(2) by (simp add: part_of_def pod_core_of_def init_next_sn) (simp add: ts_of_def init_client_state_def)
  from honest_fold [OF assms(3) this] have "part_of r (pod_core_of s) = (Some (word_of_nat (length V)),
      Some (last (0 # map timestamp V)), map_of (map (\<lambda>v. (the (transaction v), timestamp v)) V))"
    using ws inv(2) fold_part [of r E "replicas ?s0" ws "pod_core_of ?s0"] us by (simp add: delivery_def)
  then have ts: "ts_of s txn r = map_of (map (\<lambda>v. (the (transaction v), timestamp v)) V) txn" for txn
    by (simp add: part_of_def pod_core_of_def fun_eq_iff)
  have "distinct (map fst (map (\<lambda>v. (the (transaction v), timestamp v)) V))"
    using assms(3) by (auto simp: honest_votes_def distinct_map inj_on_def) (metis option.sel)
  then show ?thesis using ts n n_eq by (auto intro: map_of_is_SomeI)
qed

section \<open>What reaches a late client\<close>

text \<open>The votes of a fresh replica for a sequence of inputs.\<close>

abbreviation cast_votes :: "('sk, 'pk, 'sig) ed25519 \<Rightarrow> 'sk \<Rightarrow> u64 \<Rightarrow> u64 \<Rightarrow> write_input list \<Rightarrow> vote list" where
  "cast_votes E k rid n is \<equiv> map (vote_of_record rid) (issued E k n is)"

lemma cast_votes_nth:
  "i < length is \<Longrightarrow> cast_votes E k rid n is ! i =
     signed_vote E k rid (w_transaction (is ! i)) (the (get_current_round (w_now (is ! i)))) (n + word_of_nat i)"
  by (simp add: issued_nth signed_vote_def)

lemma cast_votes_honest:
  assumes "ed25519_ok E" and "reps rid = Some rep" and "rp_pk rep = verifying_key E k"
    and "sorted (map (\<lambda>i. the (get_current_round (w_now i))) is)" and "distinct (map w_transaction is)"
    and "\<forall>i\<in>set is. \<not> is_heartbeat (w_transaction i)"
  shows "honest_votes E reps rid (cast_votes E k rid 0 is)"
proof -
  let ?V = "cast_votes E k rid 0 is"
  have acc: "accepts E reps (signed_vote E k rid txn t n)" for txn t n
    using signed_vote_verifies [OF assms(1), of k txn t n rid] assms(2,3) by (simp add: accepts_def)
  have "map timestamp ?V = map (\<lambda>i. the (get_current_round (w_now i))) is"
    by (rule nth_equalityI) (simp_all add: issued_nth vote_of_record_def)
  moreover have "map transaction ?V = map Some (map w_transaction is)"
    by (rule nth_equalityI) (simp_all add: issued_nth vote_of_record_def)
  moreover have "\<forall>v\<in>set ?V. accepts E reps v \<and> replica_id v = rid \<and> (\<exists>txn. transaction v = Some txn \<and> \<not> is_heartbeat txn)"
    using assms(6) acc unfolding signed_vote_def by (auto simp: vote_of_record_def dest!: in_issued)
  moreover have "\<forall>i<length ?V. sequence_number (?V ! i) = word_of_nat i"
    by (simp add: cast_votes_nth del: nth_map)
  ultimately show ?thesis using assms(4,5) unfolding honest_votes_def by (simp add: distinct_map inj_on_def)
qed

text \<open>Everything logged before the log is mapped, and everything broadcast since an earlier point.\<close>

lemma history_and_live:
  assumes "b \<le> a"
  shows "set (drop b xs) \<union> set (take a xs) = set xs"
proof -
  have "set xs = set (take b xs) \<union> set (drop b xs)" by (metis append_take_drop_id set_append)
  moreover have "set (take b xs) \<subseteq> set (take a xs)" by (rule set_take_subset_set_take [OF assms])
  ultimately show ?thesis using set_take_subset [of a xs] by blast
qed

lemma fresh_run:
  assumes "\<forall>i\<in>set is. good_input i" and "\<forall>r\<in>set (issued E k 0 is). frame_ok P r"
    and "length (frames P (issued E k 0 is)) < 2 ^ 64"
    and "start_log_vote_service E P k rid fresh_replica is = (st, e)"
  shows "broadcast st = cast_votes E k rid 0 is"
    and "d0 name = Some f0 \<Longrightarrow> d1 name = Some (log_file (replica_log st)) \<Longrightarrow>
      catch_up P rid d0 True d1 True name oks = send_while oks (cast_votes E k rid 0 is)"
proof -
  have f: "replica_log fresh_replica = \<lparr>log_file = [], file_size = 0, poisoned = False\<rparr>" "nextsn fresh_replica = 0"
    "broadcast fresh_replica = []" by (simp_all add: fresh_replica_def)
  note h = catch_up_history [OF assms(1) f(1), of E k P, unfolded f(2), OF assms(2,3,4)]
  show "broadcast st = cast_votes E k rid 0 is"
    using h [of "\<lambda>_. Some []" "[]" "[]" "\<lambda>_. Some (log_file (replica_log st))"] f(3) by simp
  show "d0 name = Some f0 \<Longrightarrow> d1 name = Some (log_file (replica_log st)) \<Longrightarrow>
      catch_up P rid d0 True d1 True name oks = send_while oks (cast_votes E k rid 0 is)"
    using h [of d0 name f0 d1 oks] by simp
qed

lemma frames_take: "length (frames P (take a rs)) \<le> length (frames P rs)"
  by (metis append_take_drop_id frames_simps(3) le_add1 length_append)

section \<open>Properties\<close>

text \<open>
  C12. A client that connects late misses no transaction. A replica logs and broadcasts the votes
  for a sequence of transactions; a connection subscribes after the first \<open>b\<close> of them and maps the
  log after the first \<open>a \<ge> b\<close>; what the two tasks send is interleaved arbitrarily, and mixed with
  the votes of other replicas. Provided that the replica starts on an empty log, its disk does not
  fail and its clock never steps back, that it casts no heartbeat in between, and that the
  transactions are distinct and none of them is the text of a heartbeat, the client ends up
  expecting the number after the last vote and has recorded every transaction with the round of
  the replica's vote.
\<close>

theorem late_client_misses_no_transaction:
  assumes "ed25519_ok E" and "\<forall>i\<in>set is. good_input i" and "\<forall>r\<in>set (issued E k 0 is). frame_ok P r"
    and "length (frames P (issued E k 0 is)) < 2 ^ 64" and "length is < 2 ^ 64"
    and "sorted (map (\<lambda>i. the (get_current_round (w_now i))) is)" and "distinct (map w_transaction is)"
    and "\<forall>i\<in>set is. \<not> is_heartbeat (w_transaction i)"
    and "b \<le> a" and "start_log_vote_service E P k rid fresh_replica (take b is) = (st_b, e_b)"
    and "start_log_vote_service E P k rid fresh_replica (take a is) = (st_a, e_a)"
    and "start_log_vote_service E P k rid fresh_replica is = (st, e)"
    and "d0 name = Some f0" and "d1 name = Some (log_file (replica_log st_a))"
    and "a \<le> length oks" and "set oks \<subseteq> {True}"
    and "history = catch_up P rid d0 True d1 True name oks"
    and "live = drop (length (broadcast st_b)) (broadcast st)"
    and "channel \<in> shuffles live history"
    and "replicas (init_client_state rs) rid = Some rep" and "rp_pk rep = verifying_key E k"
    and "{v \<in> set vs. replica_id v = rid} = set channel"
    and "start_pod_data_updater E (init_client_state rs) vs = (s, None)"
  shows "next_sn s rid = Some (word_of_nat (length is)) \<and>
    (\<forall>i\<in>set is. ts_of s (w_transaction i) rid = get_current_round (w_now i))"
proof -
  let ?V = "cast_votes E k rid 0 is"
  have pre: "\<forall>i\<in>set (take j is). good_input i" "\<forall>r\<in>set (issued E k 0 (take j is)). frame_ok P r"
    "length (frames P (issued E k 0 (take j is))) < 2 ^ 64" for j
    using assms(2-4) le_less_trans [OF frames_take, of P "issued E k 0 is"]
    by (auto simp: issued_take dest: in_set_takeD)
  have V: "honest_votes E (replicas (init_client_state rs)) rid ?V"
    using cast_votes_honest [of E "replicas (init_client_state rs)" rid rep k "is"] assms(1,6-8,20,21) by simp
  have "history = take a ?V"
    using fresh_run(2) [OF pre assms(11), of d0 name f0 d1 oks] assms(13-17)
    by (simp add: send_while_all issued_take take_map)
  moreover have "live = drop (min b (length is)) ?V"
    using fresh_run(1) [OF pre assms(10)] fresh_run(1) [OF assms(2-4,12)] assms(18) by (simp add: min.commute)
  ultimately have "set channel = set ?V"
    using assms(9,19) history_and_live [of b a ?V] by (auto simp: set_shuffles min_def)
  moreover have "\<forall>v\<in>set ?V. accepts E (replicas (init_client_state rs)) v" using V by (simp add: honest_votes_def)
  ultimately have "{v \<in> set vs. replica_id v = rid \<and> accepts E (replicas (init_client_state rs)) v} = set ?V"
    using assms(22) by blast
  moreover have "rid \<in> rp_id ` set rs"
    using assms(20) init_client_dom [of "\<lambda>r. r" rs Map.empty] by (auto simp: init_client_state_def)
  ultimately have learnt: "next_sn s rid = Some (word_of_nat (length is))"
    "\<forall>v\<in>set ?V. ts_of s (the (transaction v)) rid = Some (timestamp v)"
    using client_learns_all [OF assms(23) _ V] assms(5) by simp_all
  have "ts_of s (w_transaction (is ! j)) rid = get_current_round (w_now (is ! j))" if "j < length is" for j
  proof -
    have "?V ! j \<in> set ?V" using that by (intro nth_mem) simp
    with learnt(2) have "ts_of s (the (transaction (?V ! j))) rid = Some (timestamp (?V ! j))" by blast
    moreover have "w_now (is ! j) \<noteq> None" using assms(2) that by (simp add: good_input_def)
    ultimately show ?thesis using that by (auto simp: issued_nth vote_of_record_def get_current_round_def)
  qed
  with learnt(1) show ?thesis by (metis in_set_conv_nth)
qed

definition late_vote :: vote where
  "late_vote = signed_vote demo_ed25519 9 3 \<lparr>data = [1, 2]\<rparr> 12 0"

lemma cast_one_input: "cast_votes demo_ed25519 9 3 0 [one_input] = [late_vote]"
  using one_input_facts(1) by (simp add: fresh_replica_def late_vote_def signed_vote_def)

text \<open>The one vote reaches the client twice, from the log and from the channel.\<close>

definition late_final :: "u8 client_state" where
  "late_final = fst (start_pod_data_updater demo_ed25519 (init_client_state demo_replicas) [late_vote, late_vote])"

lemma late_run:
  "start_pod_data_updater demo_ed25519 (init_client_state demo_replicas) [late_vote, late_vote] = (late_final, None)"
proof -
  have v: "verify_vote_signature demo_ed25519 9 [1, 2] 12 0 (signature late_vote)"
    using signed_vote_verifies [OF demo_ed25519_ok, of 9 "\<lparr>data = [1, 2]\<rparr>" 12 0 3]
    by (simp add: late_vote_def demo_ed25519_def)
  moreover have "replica_id late_vote = 3" "timestamp late_vote = 12" "sequence_number late_vote = 0"
    "transaction late_vote = Some \<lparr>data = [1, 2]\<rparr>" by (simp_all add: late_vote_def)
  moreover have "\<not> is_heartbeat \<lparr>data = [1, 2]\<rparr>" by (simp add: is_heartbeat_def HEARTBEAT_def)
  ultimately show ?thesis
    by (simp add: late_final_def start_pod_data_updater_def init_client_state_def demo_replicas_def handle_vote_def
        checked_add_def process_vote_def Let_def drain_backlog.simps)
qed

lemma one_input_inputs:
  "w_transaction one_input = \<lparr>data = [1, 2]\<rparr>" "get_current_round (w_now one_input) = Some 12"
  "\<not> is_heartbeat \<lparr>data = [1, 2]\<rparr>"
  "\<forall>r\<in>set (issued demo_ed25519 9 n [one_input]). frame_ok demo_record_message r"
  "length (frames demo_record_message (issued demo_ed25519 9 n [one_input])) < 2 ^ 64"
proof -
  show one: "w_transaction one_input = \<lparr>data = [1, 2]\<rparr>" "get_current_round (w_now one_input) = Some 12"
    "\<not> is_heartbeat \<lparr>data = [1, 2]\<rparr>"
    by (simp_all add: one_input_def get_current_round_def ROUND_SIZE_MS_def is_heartbeat_def HEARTBEAT_def)
  have "frame_ok demo_record_message (signed_record demo_ed25519 9 \<lparr>data = [1, 2]\<rparr> 12 n)"
    by (rule demo_record_frame_ok [where t = "\<lparr>data = [1, 2]\<rparr>"]) (simp_all add: signed_record_def demo_ed25519_def)
  then show "\<forall>r\<in>set (issued demo_ed25519 9 n [one_input]). frame_ok demo_record_message r" by (simp add: one)
  show "length (frames demo_record_message (issued demo_ed25519 9 n [one_input])) < 2 ^ 64"
    by (simp add: one frame_def demo_record_message_def signed_record_def demo_ed25519_def)
qed

abbreviation one_run_state :: replica_state where
  "one_run_state \<equiv> fst (start_log_vote_service demo_ed25519 demo_record_message 9 3 fresh_replica [one_input])"

lemma one_run_sends:
  "broadcast one_run_state = [late_vote]"
  "catch_up demo_record_message 3 (\<lambda>_. Some []) True (\<lambda>_. Some (log_file (replica_log one_run_state))) True
      ''replica_wal'' [True] = [late_vote]"
proof -
  have good: "\<forall>i\<in>set [one_input]. good_input i" using one_input_facts(4) by simp
  note run = fresh_run [OF good one_input_inputs(4,5) prod.collapse [symmetric], where rid = 3]
  show "broadcast one_run_state = [late_vote]" using run(1) cast_one_input by simp
  show "catch_up demo_record_message 3 (\<lambda>_. Some []) True (\<lambda>_. Some (log_file (replica_log one_run_state))) True
      ''replica_wal'' [True] = [late_vote]"
    using run(2) [of "\<lambda>_. Some []" "''replica_wal''" "[]" "\<lambda>_. Some (log_file (replica_log one_run_state))" "[True]"]
      cast_one_input by simp
qed

theorem late_client_misses_no_transaction_witness:
  "next_sn late_final 3 = Some 1 \<and> ts_of late_final \<lparr>data = [1, 2]\<rparr> 3 = Some 12"
proof -
  have "next_sn late_final 3 = Some (word_of_nat (length [one_input])) \<and>
    (\<forall>i\<in>set [one_input]. ts_of late_final (w_transaction i) 3 = get_current_round (w_now i))"
  proof (rule late_client_misses_no_transaction [where b = 0 and a = 1 and rs = demo_replicas and P = demo_record_message and
        k = 9 and E = demo_ed25519 and vs = "[late_vote, late_vote]" and channel = "[late_vote, late_vote]" and
        oks = "[True]" and rep = "\<lparr>rp_id = 3, rp_url = ws_url ''localhost'', rp_pk = 9\<rparr>"])
    show "start_log_vote_service demo_ed25519 demo_record_message 9 3 fresh_replica (take 0 [one_input]) = (fresh_replica, None)"
      by (simp add: start_log_vote_service_def)
    show "start_log_vote_service demo_ed25519 demo_record_message 9 3 fresh_replica (take 1 [one_input]) =
        (one_run_state, snd (start_log_vote_service demo_ed25519 demo_record_message 9 3 fresh_replica [one_input]))"
      "start_log_vote_service demo_ed25519 demo_record_message 9 3 fresh_replica [one_input] =
        (one_run_state, snd (start_log_vote_service demo_ed25519 demo_record_message 9 3 fresh_replica [one_input]))"
      by simp_all
    show "[late_vote] = catch_up demo_record_message 3 (\<lambda>_. Some []) True
        (\<lambda>_. Some (log_file (replica_log one_run_state))) True ''replica_wal'' [True]"
      by (rule one_run_sends(2) [symmetric])
    show "[late_vote] = drop (length (broadcast fresh_replica)) (broadcast one_run_state)"
      by (simp only: one_run_sends(1)) (simp add: fresh_replica_def)
    show "{v \<in> set [late_vote, late_vote]. replica_id v = 3} = set [late_vote, late_vote]"
      by (auto simp: late_vote_def)
    show "rp_pk \<lparr>rp_id = 3, rp_url = ws_url ''localhost'', rp_pk = 9\<rparr> = verifying_key demo_ed25519 9"
      by (simp add: demo_ed25519_def)
  qed (rule one_input_inputs(4,5) late_run | simp add: one_input_facts(4) one_input_inputs(1-3) demo_init)+
  then show ?thesis by (simp add: one_input_inputs)
qed

text \<open>
  C39. A heartbeat before a client connects hides the replica from it. The first vote of a replica
  is a heartbeat, which takes sequence number 0 but is not logged; a client that connects after it
  receives only later numbers, from the log and from the channel alike, so it keeps expecting 0
  and records none of the replica's votes, however many transactions follow.
\<close>

theorem heartbeat_hides_replica_from_late_client:
  assumes "heartbeat_body E k rid fresh_replica tick = (st1, None)"
    and "\<forall>i\<in>set is. good_input i" and "\<forall>r\<in>set (issued E k 1 is). frame_ok P r"
    and "length (frames P (issued E k 1 is)) < 2 ^ 64" and "length is < 2 ^ 64 - 1"
    and "start_log_vote_service E P k rid st1 is = (st2, e)"
    and "d0 name = Some f0" and "d1 name = Some (log_file (replica_log st2))"
    and "rid \<in> rp_id ` set rs"
    and "{v \<in> set vs. replica_id v = rid} \<subseteq>
      set (catch_up P rid d0 True d1 True name oks) \<union> set (drop (length (broadcast st1)) (broadcast st2))"
    and "start_pod_data_updater E (init_client_state rs) vs = (s, None)"
  shows "next_sn s rid = Some 0 \<and> (\<forall>txn. ts_of s txn rid = None)"
proof -
  have st1: "nextsn st1 = 1" "replica_log st1 = \<lparr>log_file = [], file_size = 0, poisoned = False\<rparr>"
    using assms(1) by (auto simp: heartbeat_body_def fetch_add_def fresh_replica_def heartbeat_finish_eq split: option.splits)
  note h = catch_up_history [OF assms(2) st1(2), of E k P, unfolded st1(1), OF assms(3,4,6), of d0 name f0 d1 oks, OF assms(7,8)]
  obtain n where "send_while oks (cast_votes E k rid 1 is) = take n (cast_votes E k rid 1 is)" using send_while_take by blast
  with h have cast: "{v \<in> set vs. replica_id v = rid} \<subseteq> set (cast_votes E k rid 1 is)"
    using assms(10) set_take_subset [of n "cast_votes E k rid 1 is"] by auto
  have "sequence_number (cast_votes E k rid 1 is ! i) \<noteq> 0" if "i < length is" for i
  proof -
    have i: "i < 2 ^ 64 - 1" using that assms(5) by linarith
    then have "unat (word_of_nat i :: u64) = i" by (simp add: unat_of_nat)
    with i unat_Suc_word [of "word_of_nat i"] have "unat (word_of_nat i + 1 :: u64) = Suc i" by metis
    then have "word_of_nat i + 1 \<noteq> (0 :: u64)" by (metis nat.distinct(1) unat_0)
    then show ?thesis using that by (simp add: issued_nth vote_of_record_def add.commute)
  qed
  then have "\<forall>v\<in>set (cast_votes E k rid 1 is). sequence_number v \<noteq> 0"
    unfolding all_set_conv_all_nth by simp
  then have "\<forall>v\<in>set vs. replica_id v = rid \<longrightarrow> sequence_number v \<noteq> 0" using cast by blast
  then have "0 \<notin> received E (replicas (init_client_state rs)) vs rid" by (force simp: received_def)
  moreover have "next_sn (init_client_state rs) rid = Some 0" using assms(9) by (simp add: init_next_sn)
  ultimately have "same_at rid (init_client_state rs) s"
    using updater_same_at [OF init_client_inv, of rs rid 0 E vs] assms(11) by (simp add: init_start)
  then show ?thesis
    using \<open>next_sn (init_client_state rs) rid = Some 0\<close> by (simp add: same_at_def) (simp add: ts_of_def init_client_state_def)
qed

text \<open>The vote after the heartbeat, received twice.\<close>

definition second_vote :: vote where
  "second_vote = signed_vote demo_ed25519 9 3 \<lparr>data = [1, 2]\<rparr> 12 1"

definition waiting_final :: "u8 client_state" where
  "waiting_final = fst (start_pod_data_updater demo_ed25519 (init_client_state demo_replicas) [second_vote, second_vote])"

lemma waiting_run:
  "start_pod_data_updater demo_ed25519 (init_client_state demo_replicas) [second_vote, second_vote] = (waiting_final, None)"
proof -
  have "verify_vote_signature demo_ed25519 9 [1, 2] 12 1 (signature second_vote)"
    using signed_vote_verifies [OF demo_ed25519_ok, of 9 "\<lparr>data = [1, 2]\<rparr>" 12 1 3]
    by (simp add: second_vote_def demo_ed25519_def)
  moreover have "replica_id second_vote = 3" "timestamp second_vote = 12" "sequence_number second_vote = 1"
    "transaction second_vote = Some \<lparr>data = [1, 2]\<rparr>" by (simp_all add: second_vote_def)
  ultimately show ?thesis
    by (simp add: waiting_final_def start_pod_data_updater_def init_client_state_def demo_replicas_def handle_vote_def Let_def)
qed

theorem heartbeat_hides_replica_from_late_client_witness:
  "next_sn waiting_final 3 = Some 0 \<and> (\<forall>txn. ts_of waiting_final txn 3 = None)"
proof -
  let ?hb = "heartbeat_body demo_ed25519 9 3 fresh_replica \<lparr>t_now = Some 1200, t_has_receiver = False\<rparr>"
  let ?lv = "start_log_vote_service demo_ed25519 demo_record_message 9 3 (fst ?hb) [one_input]"
  have hb: "?hb = (fst ?hb, None)" by (simp add: heartbeat_body_def fetch_add_def get_current_round_def)
  have st1: "nextsn (fst ?hb) = 1" "replica_log (fst ?hb) = \<lparr>log_file = [], file_size = 0, poisoned = False\<rparr>"
    "broadcast (fst ?hb) = []"
    by (simp_all add: heartbeat_body_def fetch_add_def fresh_replica_def heartbeat_finish_eq get_current_round_def)
  have good: "\<forall>i\<in>set [one_input]. good_input i" using one_input_facts(4) by simp
  have v: "cast_votes demo_ed25519 9 3 1 [one_input] = [second_vote]"
    by (simp add: one_input_inputs second_vote_def signed_vote_def)
  note h = catch_up_history [OF good st1(2), of demo_ed25519 9 demo_record_message, unfolded st1(1),
      OF one_input_inputs(4,5) prod.collapse [symmetric], where rid = 3]
  have "broadcast (fst ?lv) = [second_vote]"
    using h [of "\<lambda>_. Some []" "[]" "[]" "\<lambda>_. Some (log_file (replica_log (fst ?lv)))"] st1(3) v by simp
  then have "{v \<in> set [second_vote, second_vote]. replica_id v = 3} \<subseteq>
      set (catch_up demo_record_message 3 (\<lambda>_. Some []) True (\<lambda>_. Some (log_file (replica_log (fst ?lv)))) True [] [])
      \<union> set (drop (length (broadcast (fst ?hb))) (broadcast (fst ?lv)))"
    using st1(3) by auto
  from heartbeat_hides_replica_from_late_client [OF hb good one_input_inputs(4,5) _ prod.collapse [symmetric] _ _ _ this waiting_run]
  show ?thesis by (simp add: demo_replicas_def)
qed

end
