(* ===== verification/OrderStats.thy ===== *)
theory OrderStats
  imports Prelude
begin

text \<open>
  Order statistics of lists: the element at a position of the sorted list, characterised by
  counting, and how it moves when values grow, when a few values are replaced, and when
  extreme values are added at either end.
\<close>

abbreviation count_le :: "'a::linorder \<Rightarrow> 'a list \<Rightarrow> nat" where
  "count_le v xs \<equiv> length (filter (\<lambda>x. x \<le> v) xs)"

lemma count_le_mset: "mset xs = mset ys \<Longrightarrow> count_le v xs = count_le v ys"
  by (metis mset_filter size_mset)

lemma sorted_nth_le_iff: "sorted ys \<Longrightarrow> i < length ys \<Longrightarrow> ys ! i \<le> v \<longleftrightarrow> i < count_le v ys"
proof (induction ys arbitrary: i)
  case Nil
  then show ?case by simp
next
  case (Cons y ys)
  show ?case
  proof (cases "y \<le> v")
    case True
    with Cons show ?thesis by (cases i) auto
  next
    case False
    with Cons.prems(1) have "\<forall>x\<in>set (y # ys). \<not> x \<le> v" by auto
    then have "filter (\<lambda>x. x \<le> v) (y # ys) = []" by (simp add: filter_empty_conv)
    with \<open>\<forall>x\<in>set (y # ys). \<not> x \<le> v\<close> Cons.prems(2) show ?thesis by (metis length_greater_0_conv not_less0 nth_mem length_0_conv)
  qed
qed

lemma sort_nth_le_iff: "i < length xs \<Longrightarrow> sort xs ! i \<le> v \<longleftrightarrow> i < count_le v xs"
  using sorted_nth_le_iff [of "sort xs" i v] count_le_mset [of "sort xs" xs v] by simp

lemma sort_nth_in_set: "i < length xs \<Longrightarrow> sort xs ! i \<in> set xs"
  by (metis length_sort nth_mem set_sort)

text \<open>Comparison of two order statistics by counting.\<close>

lemma sort_nth_le:
  assumes "i < length xs" and "j < length ys"
    and "\<And>v. count_le v ys \<le> count_le v xs + (j - i)" and "i \<le> j"
  shows "sort xs ! i \<le> sort ys ! j"
proof -
  have "j < count_le (sort ys ! j) ys" using assms(2) by (simp add: sort_nth_le_iff [symmetric])
  also have "\<dots> \<le> count_le (sort ys ! j) xs + (j - i)" by (rule assms(3))
  finally have "i < count_le (sort ys ! j) xs" using assms(4) by linarith
  then show ?thesis using assms(1) by (simp add: sort_nth_le_iff)
qed

lemma sort_nth_mono: "i \<le> j \<Longrightarrow> j < length xs \<Longrightarrow> sort xs ! i \<le> sort xs ! j"
  by (rule sorted_nth_mono [OF sorted_sort]) simp_all

text \<open>Values that grow make order statistics grow.\<close>

lemma count_le_antimono: "(\<And>x. x \<in> set xs \<Longrightarrow> f x \<le> g x) \<Longrightarrow> count_le v (map g xs) \<le> count_le v (map f xs)"
  by (induction xs) (auto intro: order_trans le_SucI)

lemma sort_map_mono:
  "(\<And>x. x \<in> set xs \<Longrightarrow> f x \<le> g x) \<Longrightarrow> i < length xs \<Longrightarrow> sort (map f xs) ! i \<le> sort (map g xs) ! i"
  by (rule sort_nth_le) (use count_le_antimono [of xs f g] in auto)

text \<open>Replacing at most \<open>b\<close> values moves an order statistic by at most \<open>b\<close> positions.\<close>

lemma count_le_changes:
  "count_le v (map g xs) \<le> count_le v (map f xs) + length (filter (\<lambda>x. f x \<noteq> g x) xs)"
  by (induction xs) auto

lemma sort_map_changes:
  assumes "length (filter (\<lambda>x. f x \<noteq> g x) xs) \<le> b" and "i + b < length xs"
  shows "sort (map f xs) ! i \<le> sort (map g xs) ! (i + b)"
proof (rule sort_nth_le)
  show "count_le v (map g xs) \<le> count_le v (map f xs) + (i + b - i)" for v
    using le_trans [OF count_le_changes add_left_mono [OF assms(1)]] by simp
qed (use assms(2) in simp_all)

text \<open>Least and greatest values sort to the ends.\<close>

lemma sort_append_le:
  "\<forall>x\<in>set xs. \<forall>y\<in>set ys. x \<le> y \<Longrightarrow> sort (xs @ ys) = sort xs @ sort ys"
  by (rule properties_for_sort) (auto simp: sorted_append)

lemma sort_replicate [simp]: "sort (replicate n x) = replicate n x"
  by (rule sorted_sort_id) simp

lemma sort_zeros_append: "sort (replicate b 0 @ xs) = replicate b 0 @ sort (xs :: u64 list)"
  by (subst sort_append_le) (auto simp: word_zero_le)

lemma sort_append_max: "sort (xs @ replicate b u64_MAX) = sort xs @ replicate b u64_MAX"
  by (subst sort_append_le) auto

lemma sort_cong_mset: "mset xs = mset ys \<Longrightarrow> sort xs = sort ys"
  by (metis properties_for_sort mset_sort sorted_sort)

lemma mset_map_filter_cong:
  "distinct xs \<Longrightarrow> distinct ys \<Longrightarrow> set xs = set ys \<Longrightarrow>
     mset (List.map_filter f xs) = mset (List.map_filter f ys)"
  unfolding List.map_filter_def mset_map mset_filter by (metis set_eq_iff_mset_eq_distinct)

end
