(* ===== verification/ClientApi.thy ===== *)
theory ClientApi
  imports OrderStats UpdaterTheorems
begin

text \<open>
  The client's API (\<open>client/src/client_api_service.rs\<close>) over the maps the vote handler keeps.
  The code walks hash maps, in an order it does not control: each walk takes its order from a
  record, constrained only to list the keys of its map once each. \<open>alpha\<close> and \<open>beta\<close> are the
  \<open>usize\<close> parameters of the service; the one subtraction on them, \<open>timestamps.len() - self.alpha\<close>,
  panics when it would be negative, with or without overflow checks (a wrapped length is out of
  range for \<open>split_off\<close>).
\<close>

section \<open>Operations\<close>

datatype api_error = Panic | NoTransactionData | NoReceivers

record hash_order =
  replicas_keys :: "u64 list"
  tsps_keys :: "transaction list"
  tspstx_keys :: "transaction \<Rightarrow> u64 list"
  mrt_keys :: "u64 list"

definition lists_keys :: "'a list \<Rightarrow> ('a \<rightharpoonup> 'b) \<Rightarrow> bool" where
  "lists_keys ks m \<longleftrightarrow> distinct ks \<and> set ks = dom m"

definition hash_order_ok :: "hash_order \<Rightarrow> 'pk client_state \<Rightarrow> bool" where
  "hash_order_ok ho s \<longleftrightarrow> lists_keys (replicas_keys ho) (replicas s) \<and> lists_keys (tsps_keys ho) (tsps s) \<and>
     (\<forall>txn m. tsps s txn = Some m \<longrightarrow> lists_keys (tspstx_keys ho txn) m) \<and> lists_keys (mrt_keys ho) (mrt s)"

text \<open>\<open>timestamps.get(timestamps.len() / 2).cloned().unwrap_or_default()\<close>\<close>

definition median_or_default :: "u64 list \<Rightarrow> u64" where
  "median_or_default timestamps =
     (if length timestamps div 2 < length timestamps then timestamps ! (length timestamps div 2) else 0)"

definition min_possible_ts ::
  "nat \<Rightarrow> nat \<Rightarrow> hash_order \<Rightarrow> 'pk client_state \<Rightarrow> transaction \<Rightarrow> u64" where
  "min_possible_ts alpha beta ho s txn =
     (let timestamps = List.map_filter (\<lambda>rid. case tsps s txn of
                         Some tx_timestamps \<Rightarrow> tx_timestamps rid
                       | None \<Rightarrow> mrt s rid) (replicas_keys ho);
          timestamps = take alpha (replicate beta 0 @ sort timestamps)
      in median_or_default timestamps)"

definition min_possible_ts_for_new_tx :: "nat \<Rightarrow> nat \<Rightarrow> hash_order \<Rightarrow> 'pk client_state \<Rightarrow> u64" where
  "min_possible_ts_for_new_tx alpha beta ho s =
     (let timestamps = replicate beta 0 @ map (\<lambda>rid. the (mrt s rid)) (mrt_keys ho);
          timestamps = take alpha (sort timestamps)
      in median_or_default timestamps)"

definition max_possible_ts ::
  "nat \<Rightarrow> nat \<Rightarrow> hash_order \<Rightarrow> 'pk client_state \<Rightarrow> transaction \<Rightarrow> u64 option" where
  "max_possible_ts alpha beta ho s txn =
     (let timestamps = List.map_filter (\<lambda>rid. case tsps s txn of
                         Some tx_timestamps \<Rightarrow> tx_timestamps rid
                       | None \<Rightarrow> Some u64_MAX) (replicas_keys ho);
          timestamps = sort timestamps @ replicate beta u64_MAX
      in if length timestamps < alpha then None
         else Some (median_or_default (drop (length timestamps - alpha) timestamps)))"

record tx_record =
  tr_transaction :: "transaction option"
  rmin :: u64
  rmax :: u64
  rconf :: "u64 option"
  ctx :: "vote list"

record pod_data =
  pd_t :: "tx_record list"
  rperf :: u64
  cpp :: "vote list"

definition vote_msg_or_default :: "'pk client_state \<Rightarrow> u64 \<Rightarrow> vote" where
  "vote_msg_or_default s t = (case ts_vote_msg s t of Some v \<Rightarrow> v | None \<Rightarrow> default_vote)"

text \<open>The body of the loop over \<open>tsps.keys()\<close>: \<open>None\<close> where \<open>max_possible_ts\<close> panics.\<close>

definition read_tx :: "nat \<Rightarrow> nat \<Rightarrow> hash_order \<Rightarrow> 'pk client_state \<Rightarrow> transaction \<Rightarrow> tx_record option" where
  "read_tx alpha beta ho s txn =
     (case max_possible_ts alpha beta ho s txn of
        None \<Rightarrow> None
      | Some r_max \<Rightarrow>
          let (r_conf, c) =
            (case tsps s txn of
               None \<Rightarrow> (None, [])
             | Some tspstx \<Rightarrow>
                 let timestamps = List.map_filter tspstx (tspstx_keys ho txn) in
                 (Some (median_or_default timestamps), map (vote_msg_or_default s) timestamps))
          in Some \<lparr>tr_transaction = Some txn, rmin = min_possible_ts alpha beta ho s txn,
                    rmax = r_max, rconf = r_conf, ctx = c\<rparr>)"

definition read :: "nat \<Rightarrow> nat \<Rightarrow> hash_order \<Rightarrow> 'pk client_state \<Rightarrow> api_error + pod_data" where
  "read alpha beta ho s =
     (case those (map (read_tx alpha beta ho s) (tsps_keys ho)) of
        None \<Rightarrow> Inl Panic
      | Some t \<Rightarrow> Inr \<lparr>pd_t = t, rperf = min_possible_ts_for_new_tx alpha beta ho s,
          cpp = map (\<lambda>rid. vote_msg_or_default s (the (mrt s rid))) (mrt_keys ho)\<rparr>)"

text \<open>
  The channel of write requests: the number of receivers alive and what was sent to them.
  Sending to a \<open>tokio\<close> broadcast channel fails when there is no receiver.
\<close>

record write_channel =
  receivers :: nat
  sent :: "transaction list"

definition write_tx :: "transaction option \<Rightarrow> write_channel \<Rightarrow> write_channel \<times> (api_error + bool)" where
  "write_tx request ch =
     (case request of
        None \<Rightarrow> (ch, Inl NoTransactionData)
      | Some txn \<Rightarrow>
          if receivers ch = 0 then (ch, Inl NoReceivers)
          else (ch\<lparr>sent := sent ch @ [txn]\<rparr>, Inr True))"

section \<open>The state the API serves\<close>

text \<open>
  What the vote handler guarantees about the maps it shares: votes are recorded for configured
  replicas only, never for heartbeats, no transaction is without votes, and the message of every
  recorded round is kept, under its own timestamp.
\<close>

definition api_inv :: "'pk client_state \<Rightarrow> bool" where
  "api_inv s \<longleftrightarrow> dom (mrt s) = dom (replicas s) \<and>
     (\<forall>txn m. tsps s txn = Some m \<longrightarrow> dom m \<noteq> {} \<and> dom m \<subseteq> dom (replicas s) \<and> \<not> is_heartbeat txn \<and>
        (\<forall>r t. m r = Some t \<longrightarrow> t \<in> dom (ts_vote_msg s))) \<and>
     (\<forall>r t. mrt s r = Some t \<longrightarrow> t \<noteq> 0 \<longrightarrow> t \<in> dom (ts_vote_msg s)) \<and>
     (\<forall>t v. ts_vote_msg s t = Some v \<longrightarrow> timestamp v = t)"

lemma api_inv_upd [simp]: "api_inv (s\<lparr>next_sn := x\<rparr>) = api_inv s" "api_inv (s\<lparr>backlog := y\<rparr>) = api_inv s"
  by (simp_all add: api_inv_def)

lemma api_inv_msg:
  "api_inv s \<Longrightarrow> ts_vote_msg s (timestamp v) = None \<Longrightarrow>
     api_inv (s\<lparr>ts_vote_msg := (ts_vote_msg s)(timestamp v \<mapsto> v)\<rparr>)"
  unfolding api_inv_def by simp

lemma api_inv_mrt:
  "api_inv s \<Longrightarrow> r \<in> dom (replicas s) \<Longrightarrow> t \<in> dom (ts_vote_msg s) \<Longrightarrow> api_inv (s\<lparr>mrt := (mrt s)(r \<mapsto> t)\<rparr>)"
  unfolding api_inv_def by (simp add: insert_absorb)

lemma api_inv_tsps:
  assumes "api_inv s" and "r \<in> dom (replicas s)" and "t \<in> dom (ts_vote_msg s)" and "\<not> is_heartbeat txn"
  shows "api_inv (s\<lparr>tsps := (tsps s)(txn \<mapsto> (ts_of s txn)(r \<mapsto> t))\<rparr>)"
proof -
  have "dom (ts_of s txn) \<subseteq> dom (replicas s) \<and> (\<forall>r t. ts_of s txn r = Some t \<longrightarrow> t \<in> dom (ts_vote_msg s))"
    using assms(1) by (cases "tsps s txn") (simp_all add: api_inv_def ts_of_def)
  with assms show ?thesis unfolding api_inv_def by simp
qed

lemma process_vote_api_inv:
  assumes "process_vote rid txn (timestamp v) v s = (s', None)" and "api_inv s" and "rid \<in> dom (replicas s)"
  shows "api_inv s'"
proof -
  let ?t = "timestamp v"
  define s1 where "s1 = (if ts_vote_msg s ?t = None then s\<lparr>ts_vote_msg := (ts_vote_msg s)(?t \<mapsto> v)\<rparr> else s)"
  have s1: "api_inv s1" "rid \<in> dom (replicas s1)" "?t \<in> dom (ts_vote_msg s1)"
    using assms(2,3) api_inv_msg [of s v] by (auto simp: s1_def)
  define s2 where "s2 = s1\<lparr>mrt := (mrt s1)(rid \<mapsto> ?t)\<rparr>"
  have s2: "api_inv s2" "rid \<in> dom (replicas s2)" "?t \<in> dom (ts_vote_msg s2)"
    using s1 api_inv_mrt [OF s1] by (simp_all add: s2_def)
  have "s' = s1 \<or> s' = s2 \<or> (\<not> is_heartbeat txn \<and> s' = s2\<lparr>tsps := (tsps s2)(txn \<mapsto> (ts_of s2 txn)(rid \<mapsto> ?t))\<rparr>)"
    using assms(1) unfolding process_vote_def Let_def s1_def [symmetric] s2_def [symmetric]
    by (auto simp: ts_of_def split: if_splits option.splits)
  with s1(1) s2(1) api_inv_tsps [OF s2] show ?thesis by auto
qed

lemma drain_api_inv:
  assumes "client_inv_at E {rid} s" and "api_inv s"
  shows "api_inv (fst (drain_backlog rid s))"
  using assms
proof (induction rule: drain_induct)
  case (pop s b n v n1 s2 txn s3)
  have "rid \<in> dom (replicas s2)" using pop(6,8,9) by (auto simp: accepts_def split: option.splits)
  with process_vote_api_inv [OF pop(11)] pop(6) pop.prems have "api_inv s3" by simp
  then show ?case by (rule pop.IH)
qed simp_all

lemma handle_vote_api_inv:
  assumes "client_inv E s" and "api_inv s"
  shows "api_inv (fst (handle_vote E s v))"
  using assms(1)
proof (cases rule: handle_vote_cases [where v = v])
  case (processed txn n1 s1 s2)
  have "replica_id v \<in> dom (replicas s1)" using processed(2,6) by (auto simp: accepts_def split: option.splits)
  with process_vote_api_inv [OF processed(7)] processed(6) assms(2) have "api_inv s2" by simp
  with drain_api_inv [OF processed(8)] processed(1) show ?thesis by simp
qed (use assms in simp_all)

interpretation served: service "handle_vote E" "\<lambda>s. client_inv E s \<and> api_inv s" client_fwd for E
  by unfold_locales
    (use handle_vote_ok handle_vote_api_inv in \<open>blast intro: client_fwd_refl client_fwd_trans\<close>)+

lemma init_api_inv: "api_inv (init_client_state rs)"
proof -
  have "dom (mrt (init_client_state rs)) = dom (replicas (init_client_state rs))"
    by (simp add: init_client_state_def init_client_dom)
  moreover have "tsps (init_client_state rs) = Map.empty" "ts_vote_msg (init_client_state rs) = Map.empty"
    by (simp_all add: init_client_state_def)
  ultimately show ?thesis by (simp add: api_inv_def init_next_sn)
qed

text \<open>The states a client reaches from its configuration.\<close>

lemma reached_inv:
  "start_pod_data_updater E (init_client_state rs) vs = (s, e) \<Longrightarrow> client_inv E s \<and> api_inv s"
  using served.loop_inv [of E "init_client_state rs" vs] init_client_inv [of E rs] init_api_inv [of rs]
  by (simp add: init_start)

end
