(* ===== verification/ApiTheorems.thy ===== *)
theory ApiTheorems
  imports ClientApi
begin

text \<open>
  The properties of the client's API: when a read fails, what it reports, and what the bounds it
  reports mean.
\<close>

section \<open>The bounds as order statistics\<close>

abbreviation lower_bound :: "nat \<Rightarrow> nat \<Rightarrow> u64 list \<Rightarrow> u64" where
  "lower_bound \<alpha> \<beta> xs \<equiv> median_or_default (take \<alpha> (replicate \<beta> 0 @ sort xs))"

abbreviation upper_bound :: "nat \<Rightarrow> nat \<Rightarrow> u64 list \<Rightarrow> u64" where
  "upper_bound \<alpha> \<beta> xs \<equiv> median_or_default (drop (length xs + \<beta> - \<alpha>) (sort xs @ replicate \<beta> u64_MAX))"

lemma median_or_default_pos: "0 < length xs \<Longrightarrow> median_or_default xs = xs ! (length xs div 2)"
  by (simp add: median_or_default_def)

lemma lower_bound_eq:
  assumes "\<alpha> \<le> length xs + \<beta>"
  shows "lower_bound \<alpha> \<beta> xs = (if \<alpha> = 0 \<or> \<alpha> div 2 < \<beta> then 0 else sort xs ! (\<alpha> div 2 - \<beta>))"
proof -
  have "length (take \<alpha> (replicate \<beta> 0 @ sort xs)) = \<alpha>" using assms by simp
  then have "0 < \<alpha> \<Longrightarrow> lower_bound \<alpha> \<beta> xs = (replicate \<beta> 0 @ sort xs) ! (\<alpha> div 2)"
    using median_or_default_pos [of "take \<alpha> (replicate \<beta> 0 @ sort xs)"] by (metis div_less_dividend nth_take one_less_numeral_iff semiring_norm(76))
  then show ?thesis by (auto simp: nth_append median_or_default_def)
qed

lemma upper_bound_eq:
  assumes "\<alpha> \<le> length xs + \<beta>"
  shows "upper_bound \<alpha> \<beta> xs =
    (if \<alpha> = 0 then 0
     else if length xs + \<beta> - \<alpha> + \<alpha> div 2 < length xs then sort xs ! (length xs + \<beta> - \<alpha> + \<alpha> div 2)
     else u64_MAX)"
proof -
  let ?ys = "sort xs @ replicate \<beta> u64_MAX" and ?d = "length xs + \<beta> - \<alpha>"
  have len: "length (drop ?d ?ys) = \<alpha>" using assms by simp
  show ?thesis
  proof (cases "\<alpha> = 0")
    case False
    then have "upper_bound \<alpha> \<beta> xs = drop ?d ?ys ! (\<alpha> div 2)"
      using median_or_default_pos [of "drop ?d ?ys"] len by (metis neq0_conv)
    also have "\<dots> = ?ys ! (?d + \<alpha> div 2)" using assms by (intro nth_drop) simp
    also have "?d + \<alpha> div 2 < length xs + \<beta>" using assms False by linarith
    ultimately show ?thesis using False by (auto simp: nth_append)
  qed (simp add: median_or_default_def)
qed

lemma length_map_filter_dom:
  "distinct ks \<Longrightarrow> dom m \<subseteq> set ks \<Longrightarrow> length (List.map_filter m ks) = card (dom m)"
proof -
  assume ks: "distinct ks" "dom m \<subseteq> set ks"
  have "List.map_filter m ks = map (\<lambda>k. the (m k)) (filter (\<lambda>k. k \<in> dom m) ks)"
    by (simp add: List.map_filter_def dom_def o_def)
  moreover have "set (filter (\<lambda>k. k \<in> dom m) ks) = dom m" using ks(2) by auto
  ultimately show ?thesis using ks(1) by (metis distinct_card distinct_filter length_map)
qed

text \<open>The votes on a transaction as a list, in whatever order of the replicas.\<close>

lemma mset_votes:
  "distinct ks \<Longrightarrow> dom m \<subseteq> set ks \<Longrightarrow> finite (dom m) \<Longrightarrow>
     mset (List.map_filter m ks) = mset (map (\<lambda>k. the (m k)) (sorted_list_of_set (dom m)))"
proof -
  assume ks: "distinct ks" "dom m \<subseteq> set ks" "finite (dom m)"
  have "List.map_filter m ks = map (\<lambda>k. the (m k)) (filter (\<lambda>k. k \<in> dom m) ks)"
    by (simp add: List.map_filter_def dom_def o_def)
  moreover have "set (filter (\<lambda>k. k \<in> dom m) ks) = dom m" using ks(2) by auto
  ultimately have "mset (filter (\<lambda>k. k \<in> dom m) ks) = mset (sorted_list_of_set (dom m))"
    using ks by (metis distinct_filter set_eq_iff_mset_eq_distinct distinct_sorted_list_of_set set_sorted_list_of_set)
  with \<open>List.map_filter m ks = _\<close> show ?thesis by (metis mset_map)
qed

definition votes_of :: "(u64 \<rightharpoonup> u64) \<Rightarrow> u64 list" where
  "votes_of m = map (\<lambda>k. the (m k)) (sorted_list_of_set (dom m))"

lemma length_votes_of: "finite (dom m) \<Longrightarrow> length (votes_of m) = card (dom m)"
  by (simp add: votes_of_def)

text \<open>In a state the handler reaches, the bounds depend on the votes only.\<close>

lemma hash_order_votes:
  assumes "hash_order_ok ho s" and "api_inv s" and "tsps s txn = Some m"
  shows "finite (dom m)" and "sort (List.map_filter m (replicas_keys ho)) = sort (votes_of m)"
    and "length (List.map_filter m (replicas_keys ho)) = length (votes_of m)"
    and "mset (List.map_filter m (tspstx_keys ho txn)) = mset (votes_of m)"
proof -
  have ks: "distinct (replicas_keys ho)" "dom m \<subseteq> set (replicas_keys ho)"
    "distinct (tspstx_keys ho txn)" "dom m \<subseteq> set (tspstx_keys ho txn)"
    using assms by (simp_all add: hash_order_ok_def lists_keys_def api_inv_def)
  show fin: "finite (dom m)" by (rule finite_subset [OF ks(2)]) simp
  show "sort (List.map_filter m (replicas_keys ho)) = sort (votes_of m)"
    unfolding votes_of_def by (rule sort_cong_mset [OF mset_votes [OF ks(1,2) fin]])
  show "length (List.map_filter m (replicas_keys ho)) = length (votes_of m)"
    using length_map_filter_dom [OF ks(1,2)] fin by (simp add: length_votes_of)
  show "mset (List.map_filter m (tspstx_keys ho txn)) = mset (votes_of m)"
    unfolding votes_of_def by (rule mset_votes [OF ks(3,4) fin])
qed

lemma min_possible_ts_votes:
  assumes "hash_order_ok ho s" and "api_inv s" and "tsps s txn = Some m"
  shows "min_possible_ts \<alpha> \<beta> ho s txn = lower_bound \<alpha> \<beta> (votes_of m)"
  using hash_order_votes [OF assms] assms(3) by (simp add: min_possible_ts_def Let_def)

lemma max_possible_ts_votes:
  assumes "hash_order_ok ho s" and "api_inv s" and "tsps s txn = Some m"
  shows "max_possible_ts \<alpha> \<beta> ho s txn =
    (if card (dom m) + \<beta> < \<alpha> then None else Some (upper_bound \<alpha> \<beta> (votes_of m)))"
  using hash_order_votes [OF assms] assms(3)
  by (simp add: max_possible_ts_def Let_def length_votes_of)

lemma rperf_votes:
  assumes "hash_order_ok ho s"
  shows "min_possible_ts_for_new_tx \<alpha> \<beta> ho s = lower_bound \<alpha> \<beta> (votes_of (mrt s))" "finite (dom (mrt s))"
proof -
  have ks: "distinct (mrt_keys ho)" "set (mrt_keys ho) = dom (mrt s)"
    using assms by (simp_all add: hash_order_ok_def lists_keys_def)
  show fin: "finite (dom (mrt s))" by (simp add: ks(2) [symmetric])
  have "mset (mrt_keys ho) = mset (sorted_list_of_set (dom (mrt s)))"
    using ks fin by (metis set_eq_iff_mset_eq_distinct distinct_sorted_list_of_set set_sorted_list_of_set)
  then have "sort (map (\<lambda>k. the (mrt s k)) (mrt_keys ho)) = sort (votes_of (mrt s))"
    unfolding votes_of_def by (intro sort_cong_mset) (simp add: mset_map)
  then show "min_possible_ts_for_new_tx \<alpha> \<beta> ho s = lower_bound \<alpha> \<beta> (votes_of (mrt s))"
    by (simp add: min_possible_ts_for_new_tx_def Let_def sort_zeros_append)
qed

section \<open>The records of a read\<close>

lemma read_tx_eq:
  assumes "hash_order_ok ho s" and "api_inv s" and "tsps s txn = Some m"
  shows "read_tx \<alpha> \<beta> ho s txn =
    (if card (dom m) + \<beta> < \<alpha> then None
     else Some \<lparr>tr_transaction = Some txn, rmin = lower_bound \<alpha> \<beta> (votes_of m), rmax = upper_bound \<alpha> \<beta> (votes_of m),
       rconf = Some (median_or_default (List.map_filter m (tspstx_keys ho txn))),
       ctx = map (vote_msg_or_default s) (List.map_filter m (tspstx_keys ho txn))\<rparr>)"
  using min_possible_ts_votes [OF assms] max_possible_ts_votes [OF assms] assms(3)
  by (simp add: read_tx_def Let_def)

lemma read_records:
  assumes "hash_order_ok ho s" and "api_inv s" and "read \<alpha> \<beta> ho s = Inr pd"
  shows "map tr_transaction (pd_t pd) = map Some (tsps_keys ho)"
    and "rec \<in> set (pd_t pd) \<Longrightarrow> \<exists>txn m. tsps s txn = Some m \<and> \<alpha> \<le> card (dom m) + \<beta> \<and> read_tx \<alpha> \<beta> ho s txn = Some rec"
    and "tsps s txn = Some m \<Longrightarrow> \<exists>rec \<in> set (pd_t pd). read_tx \<alpha> \<beta> ho s txn = Some rec"
proof -
  have t: "map (read_tx \<alpha> \<beta> ho s) (tsps_keys ho) = map Some (pd_t pd)"
    using assms(3) by (auto simp: read_def those_eq_Some split: option.splits)
  have keys: "set (tsps_keys ho) = dom (tsps s)" using assms(1) by (simp add: hash_order_ok_def lists_keys_def)
  have "tr_transaction rec = Some txn" if "read_tx \<alpha> \<beta> ho s txn = Some rec" for txn rec
    using that by (auto simp: read_tx_def Let_def split: option.splits)
  then show "map tr_transaction (pd_t pd) = map Some (tsps_keys ho)" by (rule map_those [OF t])
  show "\<exists>txn m. tsps s txn = Some m \<and> \<alpha> \<le> card (dom m) + \<beta> \<and> read_tx \<alpha> \<beta> ho s txn = Some rec"
    if "rec \<in> set (pd_t pd)"
  proof -
    from that obtain txn where txn: "txn \<in> set (tsps_keys ho)" "read_tx \<alpha> \<beta> ho s txn = Some rec"
      using t by (metis (no_types, lifting) image_iff list.set_map)
    then obtain m where m: "tsps s txn = Some m" using keys by auto
    then have "\<not> card (dom m) + \<beta> < \<alpha>"
      using read_tx_eq [OF assms(1,2) m, of \<alpha> \<beta>] txn(2) by (metis option.distinct(1))
    with txn m show ?thesis by (metis not_less)
  qed
  show "\<exists>rec \<in> set (pd_t pd). read_tx \<alpha> \<beta> ho s txn = Some rec" if "tsps s txn = Some m"
  proof -
    have "txn \<in> set (tsps_keys ho)" using keys that by auto
    then show ?thesis using t by (metis (no_types, lifting) image_iff list.set_map)
  qed
qed

lemma lower_le_upper:
  assumes "\<alpha> \<le> length xs + \<beta>"
  shows "lower_bound \<alpha> \<beta> xs \<le> upper_bound \<alpha> \<beta> xs"
  unfolding lower_bound_eq [OF assms] upper_bound_eq [OF assms]
  using assms by (auto intro: sort_nth_mono)

lemma median_between_bounds:
  assumes "\<alpha> \<le> length ks" and "length (filter (\<lambda>k. f k \<noteq> g k) ks) \<le> \<beta>" and "ks \<noteq> []" and "0 < \<alpha>"
  shows "lower_bound \<alpha> \<beta> (map f ks) \<le> sort (map g ks) ! (length ks div 2)"
    and "sort (map g ks) ! (length ks div 2) \<le> upper_bound \<alpha> \<beta> (map f ks)"
proof -
  let ?k = "length ks div 2"
  have k: "?k < length ks" using assms(3) by (simp add: div_less_dividend)
  have \<alpha>: "\<alpha> \<le> length (map f ks) + \<beta>" using assms(1) by simp
  show "lower_bound \<alpha> \<beta> (map f ks) \<le> sort (map g ks) ! ?k"
  proof (cases "\<alpha> div 2 < \<beta>")
    case True
    then show ?thesis by (subst lower_bound_eq [OF \<alpha>]) simp
  next
    case False
    have "sort (map f ks) ! (\<alpha> div 2 - \<beta>) \<le> sort (map f ks) ! (?k - \<beta>)"
      using k assms(1) by (intro sort_nth_mono) (auto intro: diff_le_mono div_le_mono)
    also have "\<dots> \<le> sort (map g ks) ! (?k - \<beta> + \<beta>)"
      using k False div_le_mono [OF assms(1), of 2] by (intro sort_map_changes [OF assms(2)]) linarith
    also have "?k - \<beta> + \<beta> = ?k" using False div_le_mono [OF assms(1), of 2] by linarith
    finally show ?thesis using False assms(4) by (subst lower_bound_eq [OF \<alpha>]) simp
  qed
  show "sort (map g ks) ! ?k \<le> upper_bound \<alpha> \<beta> (map f ks)"
  proof (cases "length ks + \<beta> - \<alpha> + \<alpha> div 2 < length ks")
    case True
    have "?k + \<beta> \<le> length ks + \<beta> - \<alpha> + \<alpha> div 2" using assms(1) by linarith
    with True have "?k + \<beta> < length ks" by linarith
    have changed: "length (filter (\<lambda>k. g k \<noteq> f k) ks) \<le> \<beta>" using assms(2) by (metis (mono_tags, lifting) filter_cong)
    have "sort (map g ks) ! ?k \<le> sort (map f ks) ! (?k + \<beta>)"
      by (rule sort_map_changes [OF changed \<open>?k + \<beta> < length ks\<close>])
    also have "\<dots> \<le> sort (map f ks) ! (length ks + \<beta> - \<alpha> + \<alpha> div 2)"
      using True \<open>?k + \<beta> \<le> _\<close> by (intro sort_nth_mono) simp_all
    finally show ?thesis using True assms(4) by (subst upper_bound_eq [OF \<alpha>]) simp
  next
    case False
    then show ?thesis using assms(4) by (subst upper_bound_eq [OF \<alpha>]) simp
  qed
qed

section \<open>A concrete client of three replicas\<close>

definition three_replicas :: "u8 replica list" where
  "three_replicas =
     [\<lparr>rp_id = 1, rp_url = ws_url ''r1'', rp_pk = 1\<rparr>, \<lparr>rp_id = 2, rp_url = ws_url ''r2'', rp_pk = 2\<rparr>,
      \<lparr>rp_id = 3, rp_url = ws_url ''r3'', rp_pk = 3\<rparr>]"

text \<open>The first vote of replica \<open>r\<close>, whose key is \<open>k\<close>.\<close>

definition first_vote :: "u8 \<Rightarrow> u64 \<Rightarrow> u8 \<Rightarrow> u64 \<Rightarrow> vote" where
  "first_vote k r d t = signed_vote demo_ed25519 k r \<lparr>data = [d]\<rparr> t 0"

definition three_run :: "vote list \<Rightarrow> u8 client_state" where
  "three_run vs = fst (start_pod_data_updater demo_ed25519 (init_client_state three_replicas) vs)"

lemma first_vote_simps [simp]:
  "replica_id (first_vote k r d t) = r" "timestamp (first_vote k r d t) = t"
  "sequence_number (first_vote k r d t) = 0" "transaction (first_vote k r d t) = Some \<lparr>data = [d]\<rparr>"
  by (simp_all add: first_vote_def)

lemma first_vote_verify: "verify_vote_signature demo_ed25519 k [d] t 0 (signature (first_vote k r d t))"
  by (simp add: verify_vote_signature_def first_vote_def demo_ed25519_def)

lemma three_init:
  "init_client_state three_replicas =
     \<lparr>replicas = [1 \<mapsto> \<lparr>rp_id = 1, rp_url = ws_url ''r1'', rp_pk = 1\<rparr>,
        2 \<mapsto> \<lparr>rp_id = 2, rp_url = ws_url ''r2'', rp_pk = 2\<rparr>, 3 \<mapsto> \<lparr>rp_id = 3, rp_url = ws_url ''r3'', rp_pk = 3\<rparr>],
      tsps = Map.empty, mrt = [1 \<mapsto> 0, 2 \<mapsto> 0, 3 \<mapsto> 0], next_sn = [1 \<mapsto> 0, 2 \<mapsto> 0, 3 \<mapsto> 0],
      ts_vote_msg = Map.empty, backlog = Map.empty\<rparr>"
  by (simp add: init_client_state_def three_replicas_def)

lemma first_vote_step:
  assumes "replicas s r = Some rp" and "rp_pk rp = k" and "next_sn s r = Some 0" and "backlog s r = None"
  shows "handle_vote demo_ed25519 s (first_vote k r d t) =
    process_vote r \<lparr>data = [d]\<rparr> t (first_vote k r d t) (s\<lparr>next_sn := (next_sn s)(r \<mapsto> 1)\<rparr>)"
  using assms first_vote_verify [of k d t r]
  by (auto simp: handle_vote_def checked_add_def drain_backlog.simps split: prod.splits option.splits
      dest: process_vote_frame)

lemmas three_step = first_vote_step process_vote_def Let_def demo_not_heartbeat

text \<open>All three replicas vote on one transaction, or two of them on two in the same round.\<close>

definition a_votes :: "vote list" where
  "a_votes = [first_vote 1 1 7 10]"

definition abc_votes :: "vote list" where
  "abc_votes = a_votes @ [first_vote 2 2 7 5, first_vote 3 3 7 6]"

definition ab_votes :: "vote list" where
  "ab_votes = [first_vote 1 1 7 10, first_vote 2 2 8 10]"

lemma a_run:
  "start_pod_data_updater demo_ed25519 (init_client_state three_replicas) a_votes =
     (three_run a_votes, None)"
  "tsps (three_run a_votes) = [\<lparr>data = [7]\<rparr> \<mapsto> [1 \<mapsto> 10]]"
  "mrt (three_run a_votes) = [2 \<mapsto> 0, 3 \<mapsto> 0, 1 \<mapsto> 10]"
  by (simp_all add: three_run_def start_pod_data_updater_def three_init a_votes_def abc_votes_def three_step)

lemma abc_run:
  "start_pod_data_updater demo_ed25519 (init_client_state three_replicas) abc_votes = (three_run abc_votes, None)"
  "tsps (three_run abc_votes) = [\<lparr>data = [7]\<rparr> \<mapsto> [1 \<mapsto> 10, 2 \<mapsto> 5, 3 \<mapsto> 6]]"
  "mrt (three_run abc_votes) = [1 \<mapsto> 10, 2 \<mapsto> 5, 3 \<mapsto> 6]"
  "ts_vote_msg (three_run abc_votes) = [10 \<mapsto> first_vote 1 1 7 10, 5 \<mapsto> first_vote 2 2 7 5, 6 \<mapsto> first_vote 3 3 7 6]"
  by (simp_all add: three_run_def start_pod_data_updater_def three_init a_votes_def abc_votes_def three_step)

lemma ab_run:
  "start_pod_data_updater demo_ed25519 (init_client_state three_replicas) ab_votes = (three_run ab_votes, None)"
  "tsps (three_run ab_votes) = [\<lparr>data = [7]\<rparr> \<mapsto> [1 \<mapsto> 10], \<lparr>data = [8]\<rparr> \<mapsto> [2 \<mapsto> 10]]"
  "ts_vote_msg (three_run ab_votes) = [10 \<mapsto> first_vote 1 1 7 10]"
  by (simp_all add: three_run_def start_pod_data_updater_def three_init ab_votes_def three_step)

lemma three_replicas_dom: "dom (replicas (three_run vs)) = {1, 2, 3}"
proof -
  have "replicas (three_run vs) = replicas (init_client_state three_replicas)"
    using updater.loop_fwd [OF init_client_inv [of demo_ed25519 three_replicas], of vs]
    by (simp add: three_run_def init_start client_fwd_def)
  then show ?thesis by (auto simp: three_init)
qed

definition three_order :: "transaction list \<Rightarrow> (transaction \<Rightarrow> u64 list) \<Rightarrow> hash_order" where
  "three_order txs per_tx =
     \<lparr>replicas_keys = [1, 2, 3], tsps_keys = txs, tspstx_keys = per_tx, mrt_keys = [3, 1, 2]\<rparr>"

lemma three_order_ok:
  "hash_order_ok (three_order [\<lparr>data = [7]\<rparr>] (\<lambda>_. [1])) (three_run a_votes)"
  "hash_order_ok (three_order [\<lparr>data = [7]\<rparr>] (\<lambda>_. [2, 1, 3])) (three_run abc_votes)"
  "hash_order_ok (three_order [\<lparr>data = [7]\<rparr>] (\<lambda>_. [3, 2, 1])) (three_run abc_votes)"
  by (auto simp: hash_order_ok_def lists_keys_def three_order_def three_replicas_dom a_run abc_run split: if_splits)

section \<open>Properties\<close>

text \<open>
  C25. When a read fails: exactly when some transaction on record has fewer than
  \<open>alpha - beta\<close> votes, because \<open>max_possible_ts\<close> then takes more values off its list than
  the list has. It fails by a panic; otherwise it returns data.
\<close>

theorem read_panics_iff:
  assumes "start_pod_data_updater E (init_client_state rs) vs = (s, e)" and "hash_order_ok ho s"
  shows "(read \<alpha> \<beta> ho s = Inl Panic \<longleftrightarrow> (\<exists>txn m. tsps s txn = Some m \<and> card (dom m) + \<beta> < \<alpha>)) \<and>
    (read \<alpha> \<beta> ho s \<noteq> Inl Panic \<longrightarrow> (\<exists>pd. read \<alpha> \<beta> ho s = Inr pd))"
proof -
  have inv: "api_inv s" using reached_inv [OF assms(1)] by simp
  have keys: "set (tsps_keys ho) = dom (tsps s)" using assms(2) by (simp add: hash_order_ok_def lists_keys_def)
  have rt: "read_tx \<alpha> \<beta> ho s txn = None \<longleftrightarrow> card (dom m) + \<beta> < \<alpha>" if "tsps s txn = Some m" for txn m
    using read_tx_eq [OF assms(2) inv that] by simp
  have "read \<alpha> \<beta> ho s = Inl Panic \<longleftrightarrow> those (map (read_tx \<alpha> \<beta> ho s) (tsps_keys ho)) = None"
    by (simp add: read_def split: option.splits)
  also have "\<dots> \<longleftrightarrow> None \<in> set (map (read_tx \<alpha> \<beta> ho s) (tsps_keys ho))" by (rule those_eq_None)
  also have "\<dots> \<longleftrightarrow> (\<exists>txn\<in>dom (tsps s). read_tx \<alpha> \<beta> ho s txn = None)"
    unfolding set_map keys by (metis image_iff)
  also have "\<dots> \<longleftrightarrow> (\<exists>txn m. tsps s txn = Some m \<and> card (dom m) + \<beta> < \<alpha>)"
  proof
    assume "\<exists>txn\<in>dom (tsps s). read_tx \<alpha> \<beta> ho s txn = None"
    then obtain txn m where "tsps s txn = Some m" "read_tx \<alpha> \<beta> ho s txn = None" by blast
    then show "\<exists>txn m. tsps s txn = Some m \<and> card (dom m) + \<beta> < \<alpha>" using rt by blast
  qed (use rt in blast)
  finally have "read \<alpha> \<beta> ho s = Inl Panic \<longleftrightarrow> (\<exists>txn m. tsps s txn = Some m \<and> card (dom m) + \<beta> < \<alpha>)" .
  moreover have "read \<alpha> \<beta> ho s \<noteq> Inl Panic \<longrightarrow> (\<exists>pd. read \<alpha> \<beta> ho s = Inr pd)"
    by (simp add: read_def split: option.splits)
  ultimately show ?thesis by (rule conjI)
qed

theorem read_panics_iff_witness:
  "read 2 0 (three_order [\<lparr>data = [7]\<rparr>] (\<lambda>_. [1])) (three_run a_votes) = Inl Panic"
  using read_panics_iff [OF a_run(1) three_order_ok(1), of 2 0] by (auto simp: a_run)

text \<open>
  C26. What a read reports: one record for each transaction with a vote, none for heartbeats,
  and with it one vote message per recorded timestamp, bearing that timestamp.
\<close>

theorem read_reports_recorded_votes:
  assumes "start_pod_data_updater E (init_client_state rs) vs = (s, e)" and "hash_order_ok ho s"
    and "read \<alpha> \<beta> ho s = Inr pd"
  shows "distinct (map tr_transaction (pd_t pd)) \<and> set (map tr_transaction (pd_t pd)) = Some ` dom (tsps s) \<and>
    (\<forall>rec\<in>set (pd_t pd). \<exists>txn m. tr_transaction rec = Some txn \<and> \<not> is_heartbeat txn \<and> tsps s txn = Some m \<and>
       dom m \<noteq> {} \<and> mset (map timestamp (ctx rec)) = mset (votes_of m))"
proof -
  have inv: "api_inv s" using reached_inv [OF assms(1)] by simp
  note recs = read_records [OF assms(2) inv assms(3)]
  have "\<exists>txn m. tr_transaction rec = Some txn \<and> \<not> is_heartbeat txn \<and> tsps s txn = Some m \<and>
       dom m \<noteq> {} \<and> mset (map timestamp (ctx rec)) = mset (votes_of m)" if rec: "rec \<in> set (pd_t pd)" for rec
  proof -
    obtain txn m where m: "tsps s txn = Some m" "\<alpha> \<le> card (dom m) + \<beta>" "read_tx \<alpha> \<beta> ho s txn = Some rec"
      using recs(2) [OF rec] by blast
    let ?ts = "List.map_filter m (tspstx_keys ho txn)"
    have r: "tr_transaction rec = Some txn" "ctx rec = map (vote_msg_or_default s) ?ts"
      using read_tx_eq [OF assms(2) inv m(1), of \<alpha> \<beta>] m(2,3) by auto
    have "timestamp (vote_msg_or_default s t) = t" if "t \<in> set ?ts" for t
      using inv m(1) that unfolding api_inv_def vote_msg_or_default_def
      by (fastforce simp: List.map_filter_def split: option.splits)
    then have "map timestamp (ctx rec) = ?ts" by (simp add: r(2) map_idI)
    with r(1) m(1) inv hash_order_votes(4) [OF assms(2) inv m(1)] show ?thesis by (auto simp: api_inv_def)
  qed
  moreover have "distinct (tsps_keys ho)" "set (tsps_keys ho) = dom (tsps s)"
    using assms(2) by (simp_all add: hash_order_ok_def lists_keys_def)
  ultimately show ?thesis using recs(1) by (simp add: distinct_map)
qed

definition three_read :: pod_data where
  "three_read = projr (read 3 0 (three_order [\<lparr>data = [7]\<rparr>] (\<lambda>_. [2, 1, 3])) (three_run abc_votes))"

lemma sort_three [simp]: "sort [10, 5, 6 :: u64] = [5, 6, 10]" "sort [5, 10, 6 :: u64] = [5, 6, 10]"
  by (simp_all add: sort_key_def)

lemma three_read:
  "read 3 0 (three_order [\<lparr>data = [7]\<rparr>] (\<lambda>_. [2, 1, 3])) (three_run abc_votes) = Inr three_read"
  "pd_t three_read = [\<lparr>tr_transaction = Some \<lparr>data = [7]\<rparr>, rmin = 6, rmax = 6, rconf = Some 10,
     ctx = [first_vote 2 2 7 5, first_vote 1 1 7 10, first_vote 3 3 7 6]\<rparr>]"
  by (simp_all add: three_read_def read_def read_tx_def max_possible_ts_def min_possible_ts_def three_order_def
      abc_run List.map_filter_def median_or_default_def vote_msg_or_default_def)

theorem read_reports_recorded_votes_witness:
  "distinct (map tr_transaction (pd_t three_read)) \<and>
   set (map tr_transaction (pd_t three_read)) = Some ` dom (tsps (three_run abc_votes))"
  using read_reports_recorded_votes [OF abc_run(1) three_order_ok(2) three_read(1)] by blast

text \<open>
  C27. The order of hash maps does not show in the bounds: two reads of one state report the
  same past-perfect round, and the same \<open>rmin\<close> and \<open>rmax\<close> for each transaction.
\<close>

theorem bounds_independent_of_hash_order:
  assumes "start_pod_data_updater E (init_client_state rs) vs = (s, e)"
    and "hash_order_ok ho s" and "hash_order_ok ho' s"
    and "read \<alpha> \<beta> ho s = Inr pd" and "read \<alpha> \<beta> ho' s = Inr pd'"
  shows "rperf pd' = rperf pd \<and>
    (\<forall>rec\<in>set (pd_t pd). \<exists>rec'\<in>set (pd_t pd').
       tr_transaction rec' = tr_transaction rec \<and> rmin rec' = rmin rec \<and> rmax rec' = rmax rec)"
proof -
  have inv: "api_inv s" using reached_inv [OF assms(1)] by simp
  have "\<exists>rec'\<in>set (pd_t pd'). tr_transaction rec' = tr_transaction rec \<and> rmin rec' = rmin rec \<and> rmax rec' = rmax rec"
    if rec: "rec \<in> set (pd_t pd)" for rec
  proof -
    obtain txn m where m: "tsps s txn = Some m" "\<alpha> \<le> card (dom m) + \<beta>" "read_tx \<alpha> \<beta> ho s txn = Some rec"
      using read_records(2) [OF assms(2) inv assms(4) rec] by blast
    obtain rec' where r: "rec' \<in> set (pd_t pd')" "read_tx \<alpha> \<beta> ho' s txn = Some rec'"
      using read_records(3) [OF assms(3) inv assms(5) m(1)] by blast
    show ?thesis
      using read_tx_eq [OF assms(2) inv m(1), of \<alpha> \<beta>] read_tx_eq [OF assms(3) inv m(1), of \<alpha> \<beta>] m r
      by (intro bexI [OF _ r(1)]) auto
  qed
  moreover have "rperf pd = lower_bound \<alpha> \<beta> (votes_of (mrt s))" "rperf pd' = lower_bound \<alpha> \<beta> (votes_of (mrt s))"
    using assms(4,5) rperf_votes(1) [OF assms(2)] rperf_votes(1) [OF assms(3)]
    by (auto simp: read_def split: option.splits)
  ultimately show ?thesis by simp
qed

definition three_read' :: pod_data where
  "three_read' = projr (read 3 0 (three_order [\<lparr>data = [7]\<rparr>] (\<lambda>_. [3, 2, 1])) (three_run abc_votes))"

lemma three_read':
  "read 3 0 (three_order [\<lparr>data = [7]\<rparr>] (\<lambda>_. [3, 2, 1])) (three_run abc_votes) = Inr three_read'"
  by (simp add: three_read'_def read_def read_tx_def max_possible_ts_def three_order_def
      abc_run List.map_filter_def)

theorem bounds_independent_of_hash_order_witness:
  "rperf three_read' = rperf three_read"
  using bounds_independent_of_hash_order [OF abc_run(1) three_order_ok(2,3) three_read(1) three_read'] by blast

text \<open>
  C14. Robustness of the bounds: when a transaction has at least \<open>alpha\<close> votes, then however up
  to \<open>beta\<close> of the replicas that voted lied about their timestamp, the median of the timestamps
  they should have given lies between the reported \<open>rmin\<close> and \<open>rmax\<close>.
\<close>

theorem true_median_within_bounds:
  assumes "start_pod_data_updater E (init_client_state rs) vs = (s, e)" and "hash_order_ok ho s"
    and "read \<alpha> \<beta> ho s = Inr pd" and "rec \<in> set (pd_t pd)" and "tr_transaction rec = Some txn"
    and "tsps s txn = Some m" and "0 < \<alpha>" and "\<alpha> \<le> card (dom m)"
    and "card {r \<in> dom m. m r \<noteq> Some (g r)} \<le> \<beta>"
  shows "rmin rec \<le> sort (map g (sorted_list_of_set (dom m))) ! (card (dom m) div 2) \<and>
    sort (map g (sorted_list_of_set (dom m))) ! (card (dom m) div 2) \<le> rmax rec"
proof -
  have inv: "api_inv s" using reached_inv [OF assms(1)] by simp
  note fin = hash_order_votes(1) [OF assms(2) inv assms(6)]
  let ?ks = "sorted_list_of_set (dom m)"
  obtain txn' m' where m': "tsps s txn' = Some m'" "\<alpha> \<le> card (dom m') + \<beta>" "read_tx \<alpha> \<beta> ho s txn' = Some rec"
    using read_records(2) [OF assms(2) inv assms(3,4)] by blast
  have "txn' = txn" using read_tx_eq [OF assms(2) inv m'(1), of \<alpha> \<beta>] m'(2,3) assms(5) by auto
  then have r: "rmin rec = lower_bound \<alpha> \<beta> (votes_of m)" "rmax rec = upper_bound \<alpha> \<beta> (votes_of m)"
    using read_tx_eq [OF assms(2) inv m'(1), of \<alpha> \<beta>] m' assms(6) by auto
  have "{r \<in> dom m. m r \<noteq> Some (g r)} = set (filter (\<lambda>k. the (m k) \<noteq> g k) ?ks)" using fin by auto
  moreover have "card (set (filter (\<lambda>k. the (m k) \<noteq> g k) ?ks)) = length (filter (\<lambda>k. the (m k) \<noteq> g k) ?ks)"
    by (rule distinct_card) simp
  ultimately have "length (filter (\<lambda>k. the (m k) \<noteq> g k) ?ks) \<le> \<beta>" using assms(9) by simp
  moreover have "length ?ks = card (dom m)" by simp
  moreover have "?ks \<noteq> []" using assms(7,8) fin by auto
  ultimately show ?thesis
    using median_between_bounds [of \<alpha> ?ks "\<lambda>k. the (m k)" g \<beta>] assms(7,8) r unfolding votes_of_def by simp
qed

theorem true_median_within_bounds_witness:
  "rmin (hd (pd_t three_read)) \<le> 6 \<and> 6 \<le> rmax (hd (pd_t three_read))"
proof -
  let ?m = "[1 \<mapsto> 10, 2 \<mapsto> 5, 3 \<mapsto> 6] :: u64 \<rightharpoonup> u64" and ?g = "\<lambda>r :: u64. if r = 1 then 10 else if r = 2 then 5 else 6 :: u64"
  have dom: "dom ?m = {1, 2, 3}" by auto
  have keys: "sorted_list_of_set {1, 2, 3 :: u64} = [1, 2, 3]" by simp
  have "card {r \<in> dom ?m. ?m r \<noteq> Some (?g r)} \<le> 0" by (simp add: dom)
  then show ?thesis
    using true_median_within_bounds [OF abc_run(1) three_order_ok(2) three_read(1),
        of "hd (pd_t three_read)" "\<lparr>data = [7]\<rparr>" ?m ?g]
    unfolding dom keys by (simp add: three_read abc_run)
qed

text \<open>
  The bounds are ordered: \<open>rmin\<close> never exceeds \<open>rmax\<close> in a record that a read returns.
\<close>

theorem rmin_le_rmax:
  assumes "start_pod_data_updater E (init_client_state rs) vs = (s, e)" and "hash_order_ok ho s"
    and "read \<alpha> \<beta> ho s = Inr pd" and "rec \<in> set (pd_t pd)"
  shows "rmin rec \<le> rmax rec"
proof -
  have inv: "api_inv s" using reached_inv [OF assms(1)] by simp
  obtain txn m where m: "tsps s txn = Some m" "\<alpha> \<le> card (dom m) + \<beta>" "read_tx \<alpha> \<beta> ho s txn = Some rec"
    using read_records(2) [OF assms(2) inv assms(3,4)] by blast
  then have "rmin rec = lower_bound \<alpha> \<beta> (votes_of m)" "rmax rec = upper_bound \<alpha> \<beta> (votes_of m)"
    using read_tx_eq [OF assms(2) inv m(1), of \<alpha> \<beta>] by auto
  moreover have "\<alpha> \<le> length (votes_of m) + \<beta>"
    using m(2) hash_order_votes(1) [OF assms(2) inv m(1)] by (simp add: length_votes_of)
  ultimately show ?thesis using lower_le_upper by metis
qed

end
