(* ===== verification/PastPerfect.thy ===== *)
theory PastPerfect
  imports ApiTheorems
begin

text \<open>
  Reads over time: what a later read may report relative to an earlier one. The handler records
  a vote only when its timestamp is at least the replica's most recent one, which is what makes
  the past-perfect round of a read a promise about all later reads; three closed examples show
  where the other reported values keep no such promise.
\<close>

section \<open>What a run adds is not older than what it found\<close>

definition ages :: "'pk client_state \<Rightarrow> 'pk client_state \<Rightarrow> bool" where
  "ages s t \<longleftrightarrow> client_fwd s t \<and>
     (\<forall>txn r x y. ts_of t txn r = Some x \<longrightarrow> ts_of s txn r \<noteq> Some x \<longrightarrow> mrt s r = Some y \<longrightarrow> y \<le> x)"

lemma ages_refl: "ages s s"
  by (simp add: ages_def client_fwd_refl)

lemma ages_trans:
  assumes "ages s t" and "ages t u"
  shows "ages s u"
proof -
  have "y \<le> x" if u: "ts_of u txn r = Some x" "ts_of s txn r \<noteq> Some x" "mrt s r = Some y" for txn r x y
  proof (cases "ts_of t txn r = Some x")
    case True
    with assms(1) u show ?thesis unfolding ages_def by blast
  next
    case False
    obtain z where z: "mrt t r = Some z" "y \<le> z"
      using assms(1) u(3) unfolding ages_def client_fwd_def grows_def by blast
    with assms(2) u(1) False have "z \<le> x" unfolding ages_def by blast
    with z(2) show ?thesis by (rule order_trans)
  qed
  with assms show ?thesis unfolding ages_def using client_fwd_trans by blast
qed

lemma ages_same: "client_fwd s t \<Longrightarrow> ts_of t = ts_of s \<Longrightarrow> ages s t"
  by (simp add: ages_def)

lemma process_vote_ages:
  assumes "process_vote rid txn t v s = (s', e)"
  shows "ages s s'"
proof -
  have "y \<le> x" if x: "ts_of s' txn' r = Some x" "ts_of s txn' r \<noteq> Some x" "mrt s r = Some y" for txn' r x y
    using assms x unfolding process_vote_def Let_def
    by (auto simp: ts_of_def split: if_splits option.splits)
  with process_vote_fwd [OF assms] show ?thesis unfolding ages_def by blast
qed

lemma drain_ages: "client_inv_at E {rid} s \<Longrightarrow> ages s (fst (drain_backlog rid s))"
proof (induction rule: drain_induct)
  case (pop s b n v n1 s2 txn s3)
  have "client_fwd s s2" using pop(6) client_fwd_next_sn [OF pop(4,5)] by (simp add: client_fwd_def ts_of_def)
  then have "ages s s2" using pop(6) by (intro ages_same) simp_all
  then have "ages s s3" using process_vote_ages [OF pop(11)] by (rule ages_trans)
  then show ?case using pop.IH by (rule ages_trans)
qed (auto intro: ages_same simp: client_fwd_refl ages_refl)

lemma handle_vote_ages:
  assumes "client_inv E s"
  shows "ages s (fst (handle_vote E s v))"
  using assms
proof (cases rule: handle_vote_cases [where v = v])
  case (processed txn n1 s1 s2)
  have "ages s s1" unfolding processed(6) using client_fwd_next_sn [OF processed(3,4)] by (intro ages_same) simp_all
  then have "ages s s2" using process_vote_ages [OF processed(7)] by (rule ages_trans)
  with drain_ages [OF processed(8)] processed(1) show ?thesis by (auto intro: ages_trans)
qed (auto intro: ages_same simp: client_fwd_refl ages_refl)

interpretation aging: service "handle_vote E" "client_inv E" ages for E
  by unfold_locales (use handle_vote_ok handle_vote_ages in \<open>blast intro: ages_refl ages_trans\<close>)+

section \<open>Lower bounds of growing maps\<close>

lemma count_votes_of:
  assumes "finite (dom m)"
  shows "count_le v (votes_of m) = card {r \<in> dom m. the (m r) \<le> v}"
proof -
  let ?ks = "filter (\<lambda>r. the (m r) \<le> v) (sorted_list_of_set (dom m))"
  have "count_le v (votes_of m) = length ?ks" by (simp add: votes_of_def filter_map o_def)
  also have "\<dots> = card (set ?ks)" by (rule distinct_card [symmetric]) simp
  also have "set ?ks = {r \<in> dom m. the (m r) \<le> v}" using assms by auto
  finally show ?thesis .
qed

lemma lower_bound_mono:
  assumes "finite (dom m)" and "dom m' \<subseteq> dom m" and "\<And>r. r \<in> dom m' \<Longrightarrow> the (m r) \<le> the (m' r)"
    and "\<alpha> \<le> card (dom m') + \<beta>"
  shows "lower_bound \<alpha> \<beta> (votes_of m) \<le> lower_bound \<alpha> \<beta> (votes_of m')"
proof -
  have fin: "finite (dom m')" by (rule finite_subset [OF assms(2,1)])
  have le: "\<alpha> \<le> length (votes_of m') + \<beta>" "length (votes_of m') \<le> length (votes_of m)"
    using assms fin by (simp_all add: length_votes_of card_mono)
  have "count_le v (votes_of m') \<le> count_le v (votes_of m)" for v
    unfolding count_votes_of [OF fin] count_votes_of [OF assms(1)]
    using assms(1,2) order_trans [OF assms(3)] by (intro card_mono) auto
  then have "sort (votes_of m) ! i \<le> sort (votes_of m') ! i" if "i < length (votes_of m')" for i
    using that le(2) by (intro sort_nth_le) auto
  moreover have "\<alpha> div 2 - \<beta> < length (votes_of m')" if "0 < \<alpha>" "\<not> \<alpha> div 2 < \<beta>" using that le by linarith
  ultimately show ?thesis
    using le lower_bound_eq [of \<alpha> "votes_of m" \<beta>] lower_bound_eq [of \<alpha> "votes_of m'" \<beta>] by auto
qed

section \<open>Two points of a run\<close>

lemma later_state:
  assumes "start_pod_data_updater E (init_client_state rs) us = (s, None)"
    and "start_pod_data_updater E (init_client_state rs) (us @ vs) = (t, e)"
  shows "ages s t" "api_inv s" "api_inv t" "dom (mrt t) = dom (mrt s)" "replicas t = replicas s"
    "dom (mrt s) = rp_id ` set rs"
proof -
  show inv: "api_inv s" "api_inv t" using reached_inv [OF assms(1)] reached_inv [OF assms(2)] by simp_all
  have "service_loop (handle_vote E) s vs = (t, e)"
    using assms by (simp add: init_start service_loop_append)
  then show "ages s t" using aging.loop_fwd [of E s vs] reached_inv [OF assms(1)] by simp
  then show reps: "replicas t = replicas s" by (simp add: ages_def client_fwd_def)
  then show "dom (mrt t) = dom (mrt s)" using inv by (simp add: api_inv_def)
  have "replicas s = replicas (init_client_state rs)"
    using updater.loop_fwd [OF init_client_inv [of E rs], of us] assms(1) by (simp add: init_start client_fwd_def)
  then show "dom (mrt s) = rp_id ` set rs"
    using inv(1) init_client_dom [of "\<lambda>r. r" rs Map.empty] by (simp add: api_inv_def init_client_state_def)
qed

lemma grows_the: "grows m m' \<Longrightarrow> r \<in> dom m \<Longrightarrow> the (m r) \<le> the (m' r)"
  unfolding grows_def by force

lemma unseen_votes_after_mrt:
  assumes "ages s t" and "tsps s txn = None" and "tsps t txn = Some m" and "r \<in> dom m" and "r \<in> dom (mrt s)"
  shows "the (mrt s r) \<le> the (m r)"
proof -
  obtain x y where xy: "m r = Some x" "mrt s r = Some y" using assms(4,5) by blast
  then have "ts_of t txn r = Some x" "ts_of s txn r \<noteq> Some x" using assms(2,3) by (simp_all add: ts_of_def)
  with assms(1) xy have "y \<le> x" unfolding ages_def by blast
  with xy show ?thesis by simp
qed

lemma read_rperf:
  "hash_order_ok ho s \<Longrightarrow> read \<alpha> \<beta> ho s = Inr pd \<Longrightarrow> rperf pd = lower_bound \<alpha> \<beta> (votes_of (mrt s))"
  using rperf_votes(1) [of ho s \<alpha> \<beta>] by (auto simp: read_def split: option.splits)

lemma read_rmin:
  assumes "hash_order_ok ho s" and "api_inv s" and "read \<alpha> \<beta> ho s = Inr pd" and "rec \<in> set (pd_t pd)"
  obtains txn m where "tsps s txn = Some m" "\<alpha> \<le> card (dom m) + \<beta>" "tr_transaction rec = Some txn"
    "rmin rec = lower_bound \<alpha> \<beta> (votes_of m)"
proof -
  obtain txn m where m: "tsps s txn = Some m" "\<alpha> \<le> card (dom m) + \<beta>" "read_tx \<alpha> \<beta> ho s txn = Some rec"
    using read_records(2) [OF assms] by blast
  with read_tx_eq [OF assms(1,2) m(1), of \<alpha> \<beta>] show ?thesis by (intro that [OF m(1,2)]) auto
qed

section \<open>Properties\<close>

text \<open>
  C3. Past perfection. A read's past-perfect round is a promise: any transaction not on record
  at that read will, in every later read of the same client, have an \<open>rmin\<close> of at least that
  round; and the past-perfect round itself does not decrease.
\<close>

theorem past_perfection:
  assumes "start_pod_data_updater E (init_client_state rs) us = (s, None)"
    and "start_pod_data_updater E (init_client_state rs) (us @ vs) = (t, e)"
    and "hash_order_ok ho s" and "hash_order_ok ho' t"
    and "read \<alpha> \<beta> ho s = Inr pd" and "read \<alpha> \<beta> ho' t = Inr pd'"
    and "\<alpha> \<le> card (rp_id ` set rs) + \<beta>"
  shows "rperf pd \<le> rperf pd' \<and>
    (\<forall>rec\<in>set (pd_t pd'). \<forall>txn. tr_transaction rec = Some txn \<longrightarrow> tsps s txn = None \<longrightarrow> rperf pd \<le> rmin rec)"
proof -
  note later = later_state [OF assms(1,2)]
  have p: "rperf pd = lower_bound \<alpha> \<beta> (votes_of (mrt s))" by (rule read_rperf [OF assms(3,5)])
  have "rperf pd \<le> rperf pd'"
    unfolding p read_rperf [OF assms(4,6)]
  proof (rule lower_bound_mono [OF rperf_votes(2) [OF assms(3)]])
    have "grows (mrt s) (mrt t)" using later(1) by (simp add: ages_def client_fwd_def)
    then show "the (mrt s r) \<le> the (mrt t r)" if "r \<in> dom (mrt t)" for r
      using grows_the later(4) that by metis
  qed (use later(4,6) assms(7) in simp_all)
  moreover have "rperf pd \<le> rmin rec"
    if rec: "rec \<in> set (pd_t pd')" "tr_transaction rec = Some txn" "tsps s txn = None" for rec txn
  proof -
    obtain txn' m where m: "tsps t txn' = Some m" "\<alpha> \<le> card (dom m) + \<beta>" "tr_transaction rec = Some txn'"
      "rmin rec = lower_bound \<alpha> \<beta> (votes_of m)"
      using read_rmin [OF assms(4) later(3) assms(6) rec(1)] by metis
    then have m': "tsps t txn = Some m" using rec(2) by simp
    then have "dom m \<subseteq> dom (mrt s)" using later(2,3,5) by (simp add: api_inv_def)
    then show ?thesis
      unfolding p m(4) using unseen_votes_after_mrt [OF later(1) rec(3) m'] m(2)
      by (intro lower_bound_mono [OF rperf_votes(2) [OF assms(3)]]) auto
  qed
  ultimately show ?thesis by blast
qed

text \<open>One replica votes in round 10 for one transaction and in round 11 for another.\<close>

definition one_state :: "vote list \<Rightarrow> u8 client_state" where
  "one_state vs = fst (start_pod_data_updater demo_ed25519 (init_client_state demo_replicas) vs)"

lemma one_run:
  "start_pod_data_updater demo_ed25519 (init_client_state demo_replicas) [demo_vote 1 10 0] =
     (one_state [demo_vote 1 10 0], None)"
  "start_pod_data_updater demo_ed25519 (init_client_state demo_replicas) ([demo_vote 1 10 0] @ [demo_vote 2 11 1]) =
     (one_state [demo_vote 1 10 0, demo_vote 2 11 1], None)"
  "tsps (one_state [demo_vote 1 10 0]) = [\<lparr>data = [1]\<rparr> \<mapsto> [3 \<mapsto> 10]]"
  "mrt (one_state [demo_vote 1 10 0]) = [3 \<mapsto> 10]"
  "dom (replicas (one_state [demo_vote 1 10 0])) = {3}"
  "tsps (one_state [demo_vote 1 10 0, demo_vote 2 11 1]) =
     [\<lparr>data = [1]\<rparr> \<mapsto> [3 \<mapsto> 10], \<lparr>data = [2]\<rparr> \<mapsto> [3 \<mapsto> 11]]"
  "mrt (one_state [demo_vote 1 10 0, demo_vote 2 11 1]) = [3 \<mapsto> 11]"
  "dom (replicas (one_state [demo_vote 1 10 0, demo_vote 2 11 1])) = {3}"
  by (simp_all add: one_state_def start_pod_data_updater_def init_client_state_def demo_replicas_def handle_vote_def
      demo_verify checked_add_def process_vote_def demo_not_heartbeat Let_def drain_backlog.simps)

definition one_order :: "transaction list \<Rightarrow> hash_order" where
  "one_order txs = \<lparr>replicas_keys = [3], tsps_keys = txs, tspstx_keys = (\<lambda>_. [3]), mrt_keys = [3]\<rparr>"

lemma one_order_ok:
  "hash_order_ok (one_order [\<lparr>data = [1]\<rparr>]) (one_state [demo_vote 1 10 0])"
  "hash_order_ok (one_order [\<lparr>data = [1]\<rparr>, \<lparr>data = [2]\<rparr>]) (one_state [demo_vote 1 10 0, demo_vote 2 11 1])"
  by (auto simp: hash_order_ok_def lists_keys_def one_order_def one_run split: if_splits)

lemma one_read:
  "\<exists>pd. read 1 0 (one_order [\<lparr>data = [1]\<rparr>]) (one_state [demo_vote 1 10 0]) = Inr pd \<and> rperf pd = 10"
  "\<exists>pd. read 1 0 (one_order [\<lparr>data = [1]\<rparr>, \<lparr>data = [2]\<rparr>]) (one_state [demo_vote 1 10 0, demo_vote 2 11 1]) = Inr pd \<and>
     (\<exists>rec\<in>set (pd_t pd). tr_transaction rec = Some \<lparr>data = [2]\<rparr>)"
  by (simp_all add: read_def read_tx_def max_possible_ts_def min_possible_ts_def min_possible_ts_for_new_tx_def
      one_order_def one_run List.map_filter_def median_or_default_def)

theorem past_perfection_witness:
  "\<exists>pd rec. read 1 0 (one_order [\<lparr>data = [1]\<rparr>, \<lparr>data = [2]\<rparr>]) (one_state [demo_vote 1 10 0, demo_vote 2 11 1]) = Inr pd \<and>
     rec \<in> set (pd_t pd) \<and> tr_transaction rec = Some \<lparr>data = [2]\<rparr> \<and> 10 \<le> rmin rec"
proof -
  obtain pd where pd: "read 1 0 (one_order [\<lparr>data = [1]\<rparr>]) (one_state [demo_vote 1 10 0]) = Inr pd" "rperf pd = 10"
    using one_read(1) by blast
  obtain pd' rec where pd': "read 1 0 (one_order [\<lparr>data = [1]\<rparr>, \<lparr>data = [2]\<rparr>]) (one_state [demo_vote 1 10 0, demo_vote 2 11 1]) = Inr pd'"
    "rec \<in> set (pd_t pd')" "tr_transaction rec = Some \<lparr>data = [2]\<rparr>"
    using one_read(2) by blast
  have "rperf pd \<le> rmin rec"
    using past_perfection [OF one_run(1,2) one_order_ok pd(1) pd'(1)] pd'(2,3) by (simp add: one_run demo_replicas_def)
  with pd(2) pd' show ?thesis by auto
qed

text \<open>
  Where the lower bound is no bound: \<open>min_possible_ts\<close> leaves out replicas that have not
  voted on a transaction instead of counting them with their most recent timestamp. With three
  replicas, \<open>alpha\<close> 1 and \<open>beta\<close> 0, after one vote a read reports an \<open>rmin\<close> of 10; when the
  other two honest votes arrive, the median of all votes is 6 and \<open>rmin\<close> has dropped to 5.
\<close>

theorem rmin_may_decrease:
  "start_pod_data_updater demo_ed25519 (init_client_state three_replicas) abc_votes =
     start_pod_data_updater demo_ed25519 (three_run a_votes) [first_vote 2 2 7 5, first_vote 3 3 7 6] \<and>
   min_possible_ts 1 0 (three_order [\<lparr>data = [7]\<rparr>] (\<lambda>_. [1])) (three_run a_votes) \<lparr>data = [7]\<rparr> = 10 \<and>
   sort (votes_of (the (tsps (three_run abc_votes) \<lparr>data = [7]\<rparr>))) ! 1 = 6 \<and>
   min_possible_ts 1 0 (three_order [\<lparr>data = [7]\<rparr>] (\<lambda>_. [2, 1, 3])) (three_run abc_votes) \<lparr>data = [7]\<rparr> = 5"
proof -
  have dom: "dom [1 \<mapsto> 10, 2 \<mapsto> 5, 3 \<mapsto> 6 :: u64] = {1, 2, 3 :: u64}" by auto
  have "votes_of [1 \<mapsto> 10, 2 \<mapsto> 5, 3 \<mapsto> 6] = [10, 5, 6]" unfolding votes_of_def dom by simp
  moreover have "start_pod_data_updater demo_ed25519 (init_client_state three_replicas) abc_votes =
     start_pod_data_updater demo_ed25519 (three_run a_votes) [first_vote 2 2 7 5, first_vote 3 3 7 6]"
    by (simp add: three_run_def start_pod_data_updater_def three_init a_votes_def abc_votes_def three_step)
  ultimately show ?thesis
    by (simp add: min_possible_ts_def a_run abc_run three_order_def List.map_filter_def median_or_default_def)
qed

text \<open>
  The confirmed round depends on the order of a hash map: \<open>rconf\<close> is the middle of the
  unsorted list of timestamps. For the votes 10, 5 and 6 a read with \<open>alpha\<close> 3 and \<open>beta\<close> 0
  may report 10 while both bounds are 6.
\<close>

theorem rconf_may_leave_bounds:
  "hash_order_ok (three_order [\<lparr>data = [7]\<rparr>] (\<lambda>_. [2, 1, 3])) (three_run abc_votes) \<and>
   (\<exists>pd rec. read 3 0 (three_order [\<lparr>data = [7]\<rparr>] (\<lambda>_. [2, 1, 3])) (three_run abc_votes) = Inr pd \<and>
     pd_t pd = [rec] \<and> rmin rec = 6 \<and> rmax rec = 6 \<and> rconf rec = Some 10)"
  using three_order_ok(2) three_read by auto

text \<open>
  Certificates may be about something else: vote messages are kept per round only, so when
  two replicas vote for different transactions in the same round, the certificate a read
  returns for the second transaction is the first replica's vote for the first transaction.
\<close>

theorem certificate_may_name_other_transaction:
  "tsps (three_run ab_votes) \<lparr>data = [8]\<rparr> = Some [2 \<mapsto> 10] \<and>
   (\<exists>pd. read 1 0 (three_order [\<lparr>data = [7]\<rparr>, \<lparr>data = [8]\<rparr>] (\<lambda>txn. if data txn = [7] then [1] else [2]))
      (three_run ab_votes) = Inr pd \<and>
    (\<exists>rec\<in>set (pd_t pd). tr_transaction rec = Some \<lparr>data = [8]\<rparr> \<and> ctx rec = [first_vote 1 1 7 10]))"
  by (simp add: read_def read_tx_def max_possible_ts_def three_order_def ab_run List.map_filter_def
      vote_msg_or_default_def)

end
