(* ===== verification/ReplicaNode.thy ===== *)
theory ReplicaNode
  imports VoteServices
begin

text \<open>
  A replica (\<open>pod/src/pod_network_node.rs\<close>): the log and vote service and the heartbeat
  service running concurrently on one sequence counter, one log and one broadcast channel.
  The tasks run on a multi-threaded runtime, so their iterations interleave; the step relation
  lets either service move between taking a number, reading the clock, appending to the log and
  sending on the channel. A service that panicked stays stopped.
\<close>

section \<open>State and initialisation\<close>

datatype lv_pc =
    LvIdle
  | LvTaken transaction u64
  | LvStamped transaction u64 u64
  | LvLogged vote_record    \<comment> \<open>appended; its vote is broadcast next\<close>
  | LvStopped

datatype hb_pc =
    HbStart
  | HbTicking
  | HbTaken u64
  | HbStamped u64 u64
  | HbStopped

record node_state = replica_state +
  lv :: lv_pc
  hb :: hb_pc

text \<open>
  \<open>init_pod_network_node\<close> up to the spawned services: \<open>nextsn\<close> starts at 0 whatever the log
  file holds, and a log that cannot be opened ends the replica.
\<close>

definition init_pod_network_node ::
  "bool \<Rightarrow> bool \<Rightarrow> bytes option \<Rightarrow> log_error + node_state" where
  "init_pod_network_node open_ok meta_ok content =
     (case open_log open_ok meta_ok content of
        Inl e \<Rightarrow> Inl e
      | Inr l \<Rightarrow> Inr \<lparr>nextsn = 0, replica_log = l, broadcast = [], lv = LvIdle, hb = HbStart\<rparr>)"

section \<open>Interleaved steps\<close>

text \<open>Where the log service goes after \<open>append\<close>: an error is logged, a panic ends it.\<close>

fun after_append :: "vote_record \<Rightarrow> append_result \<Rightarrow> lv_pc" where
  "after_append r Appended = LvLogged r"
| "after_append r (AppendErr _) = LvIdle"
| "after_append r AppendPanic = LvStopped"

inductive node_step ::
  "('sk, 'pk, 'sig) ed25519 \<Rightarrow> vote_record prost_message \<Rightarrow> 'sk \<Rightarrow> u64 \<Rightarrow>
     node_state \<Rightarrow> node_state \<Rightarrow> bool"
  for E P k rid where
  lv_recv: "lv s = LvIdle \<Longrightarrow> fetch_add s = (n, s1) \<Longrightarrow>
     node_step E P k rid s (s1\<lparr>lv := LvTaken txn n\<rparr>)"
| lv_clock: "lv s = LvTaken txn n \<Longrightarrow> get_current_round now = Some t \<Longrightarrow>
     node_step E P k rid s (s\<lparr>lv := LvStamped txn n t\<rparr>)"
| lv_clock_panic: "lv s = LvTaken txn n \<Longrightarrow> get_current_round now = None \<Longrightarrow>
     node_step E P k rid s (s\<lparr>lv := LvStopped\<rparr>)"
| lv_append: "lv s = LvStamped txn n t \<Longrightarrow> log_vote_append E P k txn n t io s = (s1, rec, r) \<Longrightarrow>
     node_step E P k rid s (s1\<lparr>lv := after_append rec r\<rparr>)"
| lv_send: "lv s = LvLogged rec \<Longrightarrow>
     node_step E P k rid s ((log_vote_send rid rec rx s)\<lparr>lv := LvIdle\<rparr>)"
| hb_start: "hb s = HbStart \<Longrightarrow> heartbeat_wait_time now = Some w \<Longrightarrow>
     node_step E P k rid s (s\<lparr>hb := HbTicking\<rparr>)"
| hb_start_panic: "hb s = HbStart \<Longrightarrow> heartbeat_wait_time now = None \<Longrightarrow>
     node_step E P k rid s (s\<lparr>hb := HbStopped\<rparr>)"
| hb_tick: "hb s = HbTicking \<Longrightarrow> fetch_add s = (n, s1) \<Longrightarrow>
     node_step E P k rid s (s1\<lparr>hb := HbTaken n\<rparr>)"
| hb_clock: "hb s = HbTaken n \<Longrightarrow> get_current_round now = Some t \<Longrightarrow>
     node_step E P k rid s (s\<lparr>hb := HbStamped n t\<rparr>)"
| hb_clock_panic: "hb s = HbTaken n \<Longrightarrow> get_current_round now = None \<Longrightarrow>
     node_step E P k rid s (s\<lparr>hb := HbStopped\<rparr>)"
| hb_finish: "hb s = HbStamped n t \<Longrightarrow>
     node_step E P k rid s ((heartbeat_finish E k rid n t rx s)\<lparr>hb := HbTicking\<rparr>)"

text \<open>The states reachable from \<open>s0\<close> in \<open>m\<close> steps.\<close>

inductive node_run ::
  "('sk, 'pk, 'sig) ed25519 \<Rightarrow> vote_record prost_message \<Rightarrow> 'sk \<Rightarrow> u64 \<Rightarrow> node_state \<Rightarrow>
     nat \<Rightarrow> node_state \<Rightarrow> bool"
  for E P k rid s0 where
  run_start: "node_run E P k rid s0 0 s0"
| run_step: "node_run E P k rid s0 m s \<Longrightarrow> node_step E P k rid s s' \<Longrightarrow>
     node_run E P k rid s0 (Suc m) s'"

section \<open>The invariant\<close>

text \<open>The sequence numbers taken but not yet broadcast.\<close>

definition pending :: "node_state \<Rightarrow> u64 list" where
  "pending s =
     (case lv s of LvTaken _ n \<Rightarrow> [n] | LvStamped _ n _ \<Rightarrow> [n] | LvLogged r \<Rightarrow> [sn r] | _ \<Rightarrow> []) @
     (case hb s of HbTaken n \<Rightarrow> [n] | HbStamped n _ \<Rightarrow> [n] | _ \<Rightarrow> [])"

text \<open>The record that is in the log while its vote is still to be broadcast.\<close>

definition unsent :: "node_state \<Rightarrow> vote_record list" where
  "unsent s = (case lv s of LvLogged r \<Rightarrow> [r] | _ \<Rightarrow> [])"

text \<open>The votes a replica has cast: those broadcast, and the one that is logged and broadcast next.\<close>

definition votes_issued :: "u64 \<Rightarrow> node_state \<Rightarrow> vote list" where
  "votes_issued rid s = broadcast s @ map (vote_of_record rid) (unsent s)"

definition own_vote :: "('sk, 'pk, 'sig) ed25519 \<Rightarrow> 'sk \<Rightarrow> u64 \<Rightarrow> vote \<Rightarrow> bool" where
  "own_vote E k rid v \<longleftrightarrow> (\<exists>txn t n. v = signed_vote E k rid txn t n)"

definition node_inv :: "('sk, 'pk, 'sig) ed25519 \<Rightarrow> 'sk \<Rightarrow> u64 \<Rightarrow> node_state \<Rightarrow> bool" where
  "node_inv E k rid s \<longleftrightarrow>
     distinct (pending s @ map sequence_number (broadcast s)) \<and>
     (\<forall>n \<in> set (pending s @ map sequence_number (broadcast s)). n < nextsn s) \<and>
     (\<forall>v \<in> set (votes_issued rid s). own_vote E k rid v)"

lemma own_vote_signed [simp]: "own_vote E k rid (signed_vote E k rid txn t n)"
  by (auto simp: own_vote_def)

lemmas node_inv_defs = node_inv_def pending_def fetch_add_def unsent_def votes_issued_def

lemma node_inv_issued: "node_inv E k rid s \<Longrightarrow> distinct (map sequence_number (votes_issued rid s))"
  by (auto simp: node_inv_defs vote_of_record_def split: lv_pc.splits)

lemma word_less_Suc: "unat (n :: u64) < 2 ^ 64 - 1 \<Longrightarrow> x < n \<or> x = n \<Longrightarrow> x < n + 1"
  by (auto simp: word_less_nat_alt unat_Suc_word)

text \<open>Taking a number, giving one up, and broadcasting under one keep the invariant.\<close>

lemma node_inv_take:
  assumes "node_inv E k rid s" and "unat (nextsn s) < 2 ^ 64 - 1"
    and "mset (pending s') = mset (nextsn s # pending s)"
    and "nextsn s' = nextsn s + 1" and "broadcast s' = broadcast s" and "unsent s' = unsent s"
  shows "node_inv E k rid s'"
proof -
  have "set (pending s') = insert (nextsn s) (set (pending s))"
    using assms(3) by (metis list.simps(15) mset_eq_setD)
  moreover have "distinct (pending s') = distinct (nextsn s # pending s)"
    by (rule mset_eq_imp_distinct_iff) (fact assms(3))
  ultimately show ?thesis
    using assms by (auto simp: node_inv_def votes_issued_def intro: word_less_Suc)
qed

lemma node_inv_use:
  assumes "node_inv E k rid s" and "mset (pending s) = mset (n # pending s')"
    and "nextsn s' = nextsn s" and "broadcast s' = broadcast s @ vs"
    and "vs = [] \<or> (\<exists>v. vs = [v] \<and> own_vote E k rid v \<and> sequence_number v = n)"
    and "unsent s' = [] \<or> unsent s' = unsent s"
  shows "node_inv E k rid s'"
proof -
  have "set (pending s) = insert n (set (pending s'))"
    using assms(2) by (metis list.simps(15) mset_eq_setD)
  moreover have "distinct (pending s) = distinct (n # pending s')"
    by (rule mset_eq_imp_distinct_iff) (fact assms(2))
  moreover have "\<forall>v\<in>set (votes_issued rid s'). own_vote E k rid v"
    using assms(1,4-6) by (auto simp: node_inv_def votes_issued_def)
  moreover have "distinct (pending s' @ map sequence_number (broadcast s'))"
    using assms(1,4,5) calculation(1,2) unfolding node_inv_def by (elim disjE exE conjE) simp_all
  moreover have "\<forall>m\<in>set (pending s' @ map sequence_number (broadcast s')). m < nextsn s'"
    using assms(1,3-5) calculation(1) unfolding node_inv_def by (elim disjE exE conjE) simp_all
  ultimately show ?thesis by (simp add: node_inv_def)
qed

lemma node_inv_same:
  "node_inv E k rid s \<Longrightarrow> pending s' = pending s \<Longrightarrow> nextsn s' = nextsn s \<Longrightarrow>
     broadcast s' = broadcast s \<Longrightarrow> (\<forall>r\<in>set (unsent s') - set (unsent s). own_vote E k rid (vote_of_record rid r)) \<Longrightarrow>
     node_inv E k rid s'"
  by (auto simp: node_inv_def votes_issued_def)

lemma log_vote_append_frame:
  "log_vote_append E P k txn n t io s = (s1, rec, r) \<Longrightarrow>
     nextsn s1 = nextsn s \<and> lv s1 = lv s \<and> hb s1 = hb s \<and> broadcast s1 = broadcast s \<and> rec = signed_record E k txn t n"
  by (auto simp: log_vote_append_eq split: prod.splits)

lemma log_vote_send_frame [simp]:
  "nextsn (log_vote_send rid rec rx s) = nextsn s" "replica_log (log_vote_send rid rec rx s) = replica_log s"
  "lv (log_vote_send rid rec rx s) = lv s" "hb (log_vote_send rid rec rx s) = hb s"
  "broadcast (log_vote_send rid rec rx s) = broadcast s @ (if rx then [vote_of_record rid rec] else [])"
  by (simp_all add: log_vote_send_eq send_vote_def)

lemma node_step_nextsn: "node_step E P k rid s s' \<Longrightarrow> nextsn s' = nextsn s \<or> nextsn s' = nextsn s + 1"
  by (induction rule: node_step.induct)
    (auto simp: fetch_add_def heartbeat_finish_eq dest: log_vote_append_frame)

lemma node_step_inv:
  assumes "node_step E P k rid s s'" and "node_inv E k rid s" and "unat (nextsn s) < 2 ^ 64 - 1"
  shows "node_inv E k rid s'"
  using assms
proof (induction rule: node_step.induct)
  case (lv_recv s n s1 txn)
  show ?case
    by (rule node_inv_take [OF lv_recv.prems]) (use lv_recv.hyps in \<open>auto simp: node_inv_defs\<close>)
next
  case (lv_append s txn n t io s1 rec r)
  note frame = log_vote_append_frame [OF lv_append.hyps(2)]
  then have own: "own_vote E k rid (vote_of_record rid rec)" by (simp flip: signed_vote_def)
  show ?case
  proof (cases r)
    case Appended
    with lv_append frame own show ?thesis
      by (intro node_inv_same [OF lv_append.prems(1)]) (auto simp: pending_def unsent_def)
  next
    case (AppendErr e)
    with lv_append frame show ?thesis
      by (intro node_inv_use [OF lv_append.prems(1), where n = n and vs = "[]"]) (auto simp: pending_def unsent_def)
  next
    case AppendPanic
    with lv_append frame show ?thesis
      by (intro node_inv_use [OF lv_append.prems(1), where n = n and vs = "[]"]) (auto simp: pending_def unsent_def)
  qed
next
  case (lv_send s rec rx)
  then have "own_vote E k rid (vote_of_record rid rec)" by (simp add: node_inv_def votes_issued_def unsent_def)
  with lv_send show ?case
    by (intro node_inv_use [OF lv_send.prems(1), where n = "sn rec" and vs = "if rx then [vote_of_record rid rec] else []"])
      (auto simp: pending_def unsent_def vote_of_record_def)
next
  case (hb_tick s n s1)
  show ?case
    by (rule node_inv_take [OF hb_tick.prems]) (use hb_tick.hyps in \<open>auto simp: node_inv_defs\<close>)
next
  case (hb_finish s n t rx)
  then show ?case
    by (intro node_inv_use [OF hb_finish.prems(1), where n = n and
          vs = "if rx then [signed_vote E k rid \<lparr>data = HEARTBEAT\<rparr> t n] else []"])
      (auto simp: pending_def unsent_def heartbeat_finish_eq send_vote_def)
next
  case (lv_clock_panic s txn n now)
  then show ?case
    by (intro node_inv_use [OF lv_clock_panic.prems(1), where n = n and vs = "[]"])
      (auto simp: pending_def unsent_def)
next
  case (hb_clock_panic s n now)
  then show ?case
    by (intro node_inv_use [OF hb_clock_panic.prems(1), where n = n and vs = "[]"])
      (auto simp: pending_def unsent_def)
next
  case (lv_clock s txn n now t)
  then show ?case
    by (intro node_inv_same [OF lv_clock.prems(1)]) (simp_all add: pending_def unsent_def)
next
  case (hb_start s now w)
  then show ?case
    by (intro node_inv_same [OF hb_start.prems(1)]) (simp_all add: pending_def unsent_def)
next
  case (hb_start_panic s now)
  then show ?case
    by (intro node_inv_same [OF hb_start_panic.prems(1)]) (simp_all add: pending_def unsent_def)
next
  case (hb_clock s n now t)
  then show ?case
    by (intro node_inv_same [OF hb_clock.prems(1)]) (simp_all add: pending_def unsent_def)
qed

lemma node_run_inv:
  assumes "node_run E P k rid s0 m s" and "node_inv E k rid s0" and "nextsn s0 = 0" and "m < 2 ^ 64"
  shows "unat (nextsn s) \<le> m \<and> node_inv E k rid s"
  using assms
proof (induction rule: node_run.induct)
  case run_start
  then show ?case by simp
next
  case (run_step m s s')
  then have IH: "unat (nextsn s) \<le> m" "node_inv E k rid s" by auto
  have "unat (nextsn s) < 2 ^ 64 - 1" using IH(1) run_step.prems(3) by simp
  with node_step_inv [OF run_step.hyps(2) IH(2)] node_step_nextsn [OF run_step.hyps(2)] IH(1)
  show ?case by (auto simp: unat_Suc_word)
qed

section \<open>Properties\<close>

text \<open>
  C17. Every vote a replica broadcasts carries its own id and its own signature, and no two of
  them carry the same sequence number, however the two services interleave (within the first
  \<open>2^64\<close> steps, before the counter can wrap).
\<close>

theorem replica_votes_distinct_and_signed:
  assumes "init_pod_network_node open_ok meta_ok content = Inr s0"
    and "node_run E P k rid s0 m s" and "m < 2 ^ 64"
  shows "distinct (map sequence_number (broadcast s)) \<and>
    (\<forall>v\<in>set (broadcast s). replica_id v = rid \<and> own_vote E k rid v)"
proof -
  have "nextsn s0 = 0" "node_inv E k rid s0"
    using assms(1) by (auto simp: init_pod_network_node_def node_inv_defs split: sum.splits)
  with node_run_inv [OF assms(2) _ _ assms(3)] have "node_inv E k rid s" by simp
  then have "distinct (map sequence_number (broadcast s))" "\<forall>v\<in>set (broadcast s). own_vote E k rid v"
    by (simp_all add: node_inv_def votes_issued_def)
  then show ?thesis by (auto simp: own_vote_def)
qed

text \<open>
  An execution in which a heartbeat takes number 0, the log service takes number 1, reads the
  clock (round 10), logs and broadcasts, and only then the heartbeat reads the clock (round 11) and
  finishes.
\<close>

definition race_start :: node_state where
  "race_start = \<lparr>nextsn = 0, replica_log = \<lparr>log_file = [], file_size = 0, poisoned = False\<rparr>,
     broadcast = [], lv = LvIdle, hb = HbStart\<rparr>"

definition race_log :: replica_log_appender where
  "race_log = snd (append_entry demo_record_message good_io
     (signed_record demo_ed25519 9 \<lparr>data = [1]\<rparr> 10 1)
     \<lparr>log_file = [], file_size = 0, poisoned = False\<rparr>)"

definition race_end :: node_state where
  "race_end = \<lparr>nextsn = 2, replica_log = race_log,
     broadcast = [signed_vote demo_ed25519 9 3 \<lparr>data = [1]\<rparr> 10 1,
                  signed_vote demo_ed25519 9 3 \<lparr>data = HEARTBEAT\<rparr> 11 0],
     lv = LvIdle, hb = HbTicking\<rparr>"

lemma race_log_appended:
  "append_entry demo_record_message good_io
     (signed_record demo_ed25519 9 \<lparr>data = [1]\<rparr> 10 1)
     \<lparr>log_file = [], file_size = 0, poisoned = False\<rparr> = (Appended, race_log)"
  by (simp add: race_log_def race_start_def append_entry_def demo_record_message_def signed_record_def
      good_io_def demo_ed25519_def checked_add_def)

lemma race_run: "node_run demo_ed25519 demo_record_message 9 3 race_start 8 race_end"
proof -
  let ?step = "node_step demo_ed25519 demo_record_message 9 3"
  let ?t = "\<lparr>data = [1]\<rparr> :: transaction"
  let ?s1 = "race_start\<lparr>hb := HbTicking\<rparr>"
  let ?s2 = "?s1\<lparr>nextsn := 1, hb := HbTaken 0\<rparr>"
  let ?s3 = "?s2\<lparr>nextsn := 2, lv := LvTaken ?t 1\<rparr>"
  let ?s4 = "?s3\<lparr>lv := LvStamped ?t 1 10\<rparr>"
  let ?r = "signed_record demo_ed25519 9 ?t 10 1"
  let ?s4' = "?s4\<lparr>replica_log := race_log, lv := LvLogged ?r\<rparr>"
  let ?s5 = "?s4\<lparr>replica_log := race_log,
     broadcast := [signed_vote demo_ed25519 9 3 ?t 10 1], lv := LvIdle\<rparr>"
  let ?s6 = "?s5\<lparr>hb := HbStamped 0 11\<rparr>"
  have 1: "?step race_start ?s1"
    by (rule node_step.hb_start [where now = "Some 950" and w = 50])
      (simp_all add: race_start_def heartbeat_wait_time_def ROUND_SIZE_MS_def checked_add_def
        checked_mul_def saturating_sub_def Let_def)
  have 2: "?step ?s1 ?s2"
    using node_step.hb_tick [of ?s1 0 "?s1\<lparr>nextsn := 1\<rparr>"] by (simp add: race_start_def fetch_add_def)
  have 3: "?step ?s2 ?s3"
    using node_step.lv_recv [of ?s2 1 "?s2\<lparr>nextsn := 2\<rparr>"] by (simp add: race_start_def fetch_add_def)
  have 4: "?step ?s3 ?s4"
    by (rule node_step.lv_clock [where now = "Some 1050"])
      (simp_all add: get_current_round_def ROUND_SIZE_MS_def)
  have 5: "?step ?s4 ?s4'"
    using node_step.lv_append [of ?s4 ?t 1 10 demo_ed25519 demo_record_message 9 good_io
        "?s4\<lparr>replica_log := race_log\<rparr>" ?r Appended 3]
    by (simp add: log_vote_append_eq race_log_appended race_start_def)
  have send: "?step ?s4' ?s5"
    using node_step.lv_send [of ?s4' ?r demo_ed25519 demo_record_message 9 3 True]
    by (simp add: log_vote_send_eq send_vote_def signed_vote_def race_start_def)
  have 6: "?step ?s5 ?s6"
    by (rule node_step.hb_clock [where now = "Some 1150"])
      (simp_all add: get_current_round_def ROUND_SIZE_MS_def)
  have 7: "?step ?s6 race_end"
    using node_step.hb_finish [of ?s6 0 11 demo_ed25519 demo_record_message 9 3 True]
    by (simp add: heartbeat_finish_eq send_vote_def race_start_def race_end_def)
  note runs = node_run.run_step [OF node_run.run_step [OF node_run.run_step [OF node_run.run_step
    [OF node_run.run_step [OF node_run.run_step [OF node_run.run_step [OF node_run.run_step
      [OF node_run.run_start 1] 2] 3] 4] 5] send] 6] 7]
  show ?thesis using runs by (simp add: numeral_eq_Suc)
qed

text \<open>
  A larger sequence number does not imply a larger or equal timestamp: because the number
  is taken before the clock is read and the two services share the counter, a replica can
  broadcast a transaction vote with number 1 and round 10 and a heartbeat with number 0 and
  round 11.
\<close>

theorem sequence_order_may_contradict_time:
  "\<exists>m s v w. m < 2 ^ 64 \<and>
     init_pod_network_node True True None = Inr race_start \<and>
     node_run demo_ed25519 demo_record_message 9 3 race_start m s \<and>
     v \<in> set (broadcast s) \<and> w \<in> set (broadcast s) \<and>
     sequence_number v < sequence_number w \<and> timestamp w < timestamp v"
proof -
  have "init_pod_network_node True True None = Inr race_start"
    by (simp add: init_pod_network_node_def open_log_def race_start_def Let_def)
  then show ?thesis
    using race_run
    by (intro exI [of _ 8] exI [of _ race_end]
        exI [of _ "signed_vote demo_ed25519 9 3 \<lparr>data = HEARTBEAT\<rparr> 11 0"]
        exI [of _ "signed_vote demo_ed25519 9 3 \<lparr>data = [1]\<rparr> 10 1"])
      (simp add: race_end_def)
qed

theorem replica_votes_distinct_and_signed_witness:
  "distinct (map sequence_number (broadcast race_end)) \<and> own_vote demo_ed25519 9 3 (hd (broadcast race_end))"
proof -
  have "init_pod_network_node True True None = Inr race_start"
    by (simp add: init_pod_network_node_def open_log_def race_start_def Let_def)
  moreover have "hd (broadcast race_end) \<in> set (broadcast race_end)" by (simp add: race_end_def)
  ultimately show ?thesis using replica_votes_distinct_and_signed [OF _ race_run] by simp
qed

text \<open>
  A restarted replica numbers its votes from 0 again while its log still holds the votes of
  the previous run: once both runs have logged a transaction, the log holds two records with
  the same sequence number.
\<close>

theorem restart_reuses_sequence_numbers:
  assumes "is1 \<noteq> []" and "is2 \<noteq> []" and "\<forall>i\<in>set is2. good_input i"
    and "\<forall>r\<in>set (issued E k 0 is1 @ issued E k 0 is2). frame_ok P r"
    and "length (frames P (issued E k 0 is1)) + length (frames P (issued E k 0 is2)) < 2 ^ 64"
    and "init_pod_network_node True True (Some (frames P (issued E k 0 is1))) = Inr s"
  shows "\<exists>s'. start_log_vote_service E P k rid s is2 = (s', None) \<and>
    read_log P (log_file (replica_log s')) = (issued E k 0 is1 @ issued E k 0 is2, None) \<and>
    \<not> distinct (map sn (fst (read_log P (log_file (replica_log s')))))"
proof -
  have s: "nextsn s = 0" "log_file (replica_log s) = frames P (issued E k 0 is1)"
    "file_size (replica_log s) = word_of_nat (length (frames P (issued E k 0 is1)))"
    "\<not> poisoned (replica_log s)"
    using assms(6) by (auto simp: init_pod_network_node_def open_log_def Let_def)
  obtain s' e where run: "start_log_vote_service E P k rid s is2 = (s', e)" by fastforce
  have "unat (file_size (replica_log s)) = length (frames P (issued E k 0 is1))"
    using assms(5) s(3) by (simp add: unat_of_nat)
  moreover have "well_framed P (replica_log s)" using s(2) assms(4) by (auto simp: well_framed_def)
  moreover have "read_log P (log_file (replica_log s)) = (issued E k 0 is1, None)"
    unfolding s(2) using assms(4) by (intro read_log_frames) simp
  ultimately have r: "e = None \<and>
      read_log P (log_file (replica_log s')) = (issued E k 0 is1 @ issued E k 0 is2, None)"
    using log_vote_service_logged(1) [OF assms(3) _ _ s(4) _ run] s(1) assms(4,5) by simp
  moreover have "\<not> distinct (map sn (issued E k 0 is1 @ issued E k 0 is2))"
    using assms(1,2) by (cases is1; cases is2) simp_all
  ultimately show ?thesis using run by simp
qed

end
