(* ===== verification/Agreement.thy ===== *)
theory Agreement
  imports Joining PastPerfect ReplicaNode
begin

text \<open>
  Two clients of the same replicas: what each of them knows of a replica that follows the
  protocol, and how the bounds one of them reports relate to the votes the other one has. That
  signatures cannot be forged is a hypothesis on the votes the clients received: those they
  accept as votes of a replica were cast by it (broadcast, or logged and to be broadcast next).
\<close>

section \<open>Votes of one replica in two clients\<close>

text \<open>The votes come from a replica that was started once and ran for less than \<open>2^64\<close> steps.\<close>

definition sent_by :: "('sk, 'pk, 'sig) ed25519 \<Rightarrow> u64 \<Rightarrow> vote set \<Rightarrow> bool" where
  "sent_by E r V \<longleftrightarrow>
     (\<exists>P k open_ok meta_ok content s0 m st.
        init_pod_network_node open_ok meta_ok content = Inr s0 \<and> node_run E P k r s0 m st \<and>
        m < 2 ^ 64 \<and> V \<subseteq> set (votes_issued r st))"

definition accepted_of :: "('sk, 'pk, 'sig) ed25519 \<Rightarrow> 'pk replica list \<Rightarrow> u64 \<Rightarrow> vote list \<Rightarrow> vote set" where
  "accepted_of E rs r vs = {v \<in> set vs. replica_id v = r \<and> accepts E (replicas (init_client_state rs)) v}"

lemma sent_by_inj:
  assumes "sent_by E r V"
  shows "inj_on sequence_number V"
proof -
  obtain P k open_ok meta_ok content s0 m st where
    st: "init_pod_network_node open_ok meta_ok content = Inr s0" "node_run E P k r s0 m st" "m < 2 ^ 64"
    "V \<subseteq> set (votes_issued r st)" using assms by (auto simp: sent_by_def)
  have "nextsn s0 = 0" "node_inv E k r s0"
    using st(1) by (auto simp: init_pod_network_node_def node_inv_defs split: sum.splits)
  with node_run_inv [OF st(2) _ _ st(3)] have "distinct (map sequence_number (votes_issued r st))"
    using node_inv_issued [of E k r st] by simp
  with st(4) show ?thesis by (auto simp: distinct_map intro: inj_on_subset)
qed

lemma sent_by_subset: "sent_by E r V \<Longrightarrow> U \<subseteq> V \<Longrightarrow> sent_by E r U"
  unfolding sent_by_def by blast

text \<open>Two deliveries of numbered votes from the same source agree on the shorter one.\<close>

lemma numbered_prefix:
  assumes "map (\<lambda>v. unat (sequence_number v)) us = [0..<n]" and "map (\<lambda>v. unat (sequence_number v)) ws = [0..<m]"
    and "n \<le> m" and "set us \<union> set ws \<subseteq> V" and "inj_on sequence_number V"
  shows "us = take n ws"
proof (rule nth_equalityI)
  have len: "length us = n" "length ws = m"
    using arg_cong [OF assms(1), of length] arg_cong [OF assms(2), of length] by simp_all
  then show "length us = length (take n ws)" using assms(3) by simp
  fix i assume i: "i < length us"
  then have "us ! i \<in> V" "ws ! i \<in> V"
    using assms(3,4) len nth_mem [of i us] nth_mem [of i ws] by auto
  moreover have "unat (sequence_number (us ! i)) = i" "unat (sequence_number (ws ! i)) = i"
    using arg_cong [OF assms(1), of "\<lambda>xs. xs ! i"] arg_cong [OF assms(2), of "\<lambda>xs. xs ! i"] i len assms(3)
    by simp_all
  ultimately show "us ! i = take n ws ! i"
    using assms(5) i len by (simp add: inj_on_def word_unat_eq_iff)
qed

section \<open>Algorithm 1 forgets nothing\<close>

definition core_extends :: "u64 \<Rightarrow> pod_core \<Rightarrow> pod_core \<Rightarrow> bool" where
  "core_extends r c c' \<longleftrightarrow>
     (\<forall>txn t. pc_tsps c txn r = Some t \<longrightarrow> pc_tsps c' txn r = Some t) \<and>
     (\<forall>x. pc_mrt c r = Some x \<longrightarrow> (\<exists>y\<ge>x. pc_mrt c' r = Some y))"

lemma on_vote_extends: "core_extends r c (on_vote E reps v c)"
  by (auto simp: core_extends_def on_vote_def Let_def not_less)

lemma fold_extends: "core_extends r c (fold (on_vote E reps) ws c)"
proof (induction ws arbitrary: c)
  case (Cons v ws)
  then show ?case using on_vote_extends [of r c E reps v] unfolding core_extends_def
    by simp (meson order_trans)
qed (simp add: core_extends_def)

lemma core_extends_part:
  "part_of r c1 = part_of r c \<Longrightarrow> part_of r c2 = part_of r c' \<Longrightarrow> core_extends r c c' \<Longrightarrow> core_extends r c1 c2"
  by (auto simp: core_extends_def part_of_def fun_eq_iff)

section \<open>One view extends the other\<close>

lemma client_part:
  assumes "start_pod_data_updater E (init_client_state rs) vs = (s, None)" and "r \<in> rp_id ` set rs"
  obtains us n where "next_sn s r = Some n" "map (\<lambda>v. unat (sequence_number v)) us = [0..<unat n]"
    "set us \<subseteq> accepted_of E rs r vs"
    "part_of r (pod_core_of s) =
       part_of r (fold (on_vote E (replicas (init_client_state rs))) us (pod_core_of (init_client_state rs)))"
proof -
  let ?s0 = "init_client_state rs"
  have run: "service_loop (handle_vote E) ?s0 vs = (s, None)" using assms(1) by (simp add: init_start)
  have fwd: "replicas s = replicas ?s0" "grows (next_sn ?s0) (next_sn s)"
    using updater.loop_fwd [OF init_client_inv [of E rs], of vs] run by (simp_all add: client_fwd_def)
  have "next_sn ?s0 r = Some 0" using assms(2) by (simp add: init_next_sn)
  then obtain n where n: "next_sn s r = Some n" using fwd(2) unfolding grows_def by blast
  obtain ws where ws: "delivery E (set vs) (pod_core_of ?s0) s ws"
    using updater_delivery [OF init_client_inv init_delivery subset_refl run] by auto
  show ?thesis
  proof (rule that [OF n, of "filter (\<lambda>v. replica_id v = r) ws"])
    show "part_of r (pod_core_of s) =
        part_of r (fold (on_vote E (replicas ?s0)) (filter (\<lambda>v. replica_id v = r) ws) (pod_core_of ?s0))"
      using ws fwd(1) fold_part [of r E "replicas ?s0" ws] by (simp add: delivery_def)
  qed (use ws n fwd(1) in \<open>auto simp: delivery_def accepted_of_def\<close>)
qed

lemma views_extend:
  assumes "start_pod_data_updater E (init_client_state rs) vs1 = (s1, None)"
    and "start_pod_data_updater E (init_client_state rs) vs2 = (s2, None)" and "r \<in> rp_id ` set rs"
    and "inj_on sequence_number (accepted_of E rs r (vs1 @ vs2))"
    and "the (next_sn s1 r) \<le> the (next_sn s2 r)"
  shows "core_extends r (pod_core_of s1) (pod_core_of s2)"
proof -
  let ?f = "on_vote E (replicas (init_client_state rs))" and ?c = "pod_core_of (init_client_state rs)"
  obtain us n where us: "next_sn s1 r = Some n" "map (\<lambda>v. unat (sequence_number v)) us = [0..<unat n]"
    "set us \<subseteq> accepted_of E rs r vs1" "part_of r (pod_core_of s1) = part_of r (fold ?f us ?c)"
    by (rule client_part [OF assms(1,3)])
  obtain ws m where ws: "next_sn s2 r = Some m" "map (\<lambda>v. unat (sequence_number v)) ws = [0..<unat m]"
    "set ws \<subseteq> accepted_of E rs r vs2" "part_of r (pod_core_of s2) = part_of r (fold ?f ws ?c)"
    by (rule client_part [OF assms(2,3)])
  have "unat n \<le> unat m" using assms(5) us(1) ws(1) by (simp add: word_le_nat_alt)
  moreover have "set us \<union> set ws \<subseteq> accepted_of E rs r (vs1 @ vs2)" using us(3) ws(3) by (auto simp: accepted_of_def)
  ultimately have "us = take (unat n) ws" by (rule numbered_prefix [OF us(2) ws(2) _ _ assms(4)])
  then have "ws = us @ drop (unat n) ws" by simp
  then have "fold ?f ws ?c = fold ?f (drop (unat n) ws) (fold ?f us ?c)" by (metis fold_append o_apply)
  then have "core_extends r (fold ?f us ?c) (fold ?f ws ?c)" using fold_extends by metis
  with us(4) ws(4) show ?thesis by (rule core_extends_part)
qed

lemma views_agree:
  assumes "start_pod_data_updater E (init_client_state rs) vs1 = (s1, None)"
    and "start_pod_data_updater E (init_client_state rs) vs2 = (s2, None)" and "r \<in> rp_id ` set rs"
    and "sent_by E r (accepted_of E rs r (vs1 @ vs2))"
    and "ts_of s1 txn r = Some t1" and "ts_of s2 txn r = Some t2"
  shows "t1 = t2"
proof -
  note inj = sent_by_inj [OF assms(4)]
  have "accepted_of E rs r (vs2 @ vs1) = accepted_of E rs r (vs1 @ vs2)" by (auto simp: accepted_of_def)
  with inj views_extend [OF assms(1,2,3)] views_extend [OF assms(2,1,3)]
  have "core_extends r (pod_core_of s1) (pod_core_of s2) \<or> core_extends r (pod_core_of s2) (pod_core_of s1)"
    by (metis linear)
  with assms(5,6) show ?thesis unfolding core_extends_def pod_core_of_def by auto
qed

section \<open>The median of another view\<close>

lemma common_votes:
  assumes "finite (dom m1)" and "finite (dom m2)"
  shows "count_le v (votes_of m1) \<le> count_le v (votes_of m2) + card {r \<in> dom m1. m1 r \<noteq> m2 r}"
proof -
  have "{r \<in> dom m1. the (m1 r) \<le> v} \<subseteq> {r \<in> dom m2. the (m2 r) \<le> v} \<union> {r \<in> dom m1. m1 r \<noteq> m2 r}"
    by (auto simp: dom_def)
  then have "card {r \<in> dom m1. the (m1 r) \<le> v} \<le>
      card ({r \<in> dom m2. the (m2 r) \<le> v} \<union> {r \<in> dom m1. m1 r \<noteq> m2 r})"
    using assms by (intro card_mono) auto
  also have "\<dots> \<le> card {r \<in> dom m2. the (m2 r) \<le> v} + card {r \<in> dom m1. m1 r \<noteq> m2 r}" by (rule card_Un_le)
  finally show ?thesis using assms by (simp add: count_votes_of)
qed

lemma card_differences:
  assumes "finite (dom m1)" and "finite (dom m2)"
  shows "card {r \<in> dom m1. m1 r \<noteq> m2 r} + card (dom m2) = card {r \<in> dom m2. m1 r \<noteq> m2 r} + card (dom m1)"
proof -
  let ?C = "{r \<in> dom m1. m1 r = m2 r}"
  have "card (dom m1) = card ?C + card {r \<in> dom m1. m1 r \<noteq> m2 r}"
    using assms(1) by (subst card_Un_disjoint [symmetric]) (auto intro: arg_cong [where f = card])
  moreover have "dom m2 = ?C \<union> {r \<in> dom m2. m1 r \<noteq> m2 r}" by (auto simp: dom_def) metis
  then have "card (dom m2) = card ?C + card {r \<in> dom m2. m1 r \<noteq> m2 r}"
    using assms card_Un_disjoint [of ?C "{r \<in> dom m2. m1 r \<noteq> m2 r}"] by force
  ultimately show ?thesis by simp
qed

lemma median_of_other_view:
  assumes "finite (dom m1)" and "finite (dom m2)" and "0 < \<alpha>" and "\<alpha> \<le> card (dom m1) + \<beta>"
    and "\<alpha> \<le> card (dom m2)" and "card {r \<in> dom m2. m1 r \<noteq> m2 r} \<le> \<beta>"
  shows "lower_bound \<alpha> \<beta> (votes_of m1) \<le> sort (votes_of m2) ! (card (dom m2) div 2)"
    and "sort (votes_of m2) ! (card (dom m2) div 2) \<le> upper_bound \<alpha> \<beta> (votes_of m1)"
proof -
  let ?j = "card (dom m2) div 2"
  have len: "length (votes_of m1) = card (dom m1)" "length (votes_of m2) = card (dom m2)"
    using assms(1,2) by (simp_all add: length_votes_of)
  have j: "?j < length (votes_of m2)" using assms(3,5) len by simp
  have \<alpha>: "\<alpha> \<le> length (votes_of m1) + \<beta>" using assms(4) len by simp
  have half: "\<alpha> div 2 \<le> ?j" using assms(5) by (rule div_le_mono)
  show "lower_bound \<alpha> \<beta> (votes_of m1) \<le> sort (votes_of m2) ! ?j"
  proof (cases "\<alpha> div 2 < \<beta>")
    case False
    have "sort (votes_of m1) ! (\<alpha> div 2 - \<beta>) \<le> sort (votes_of m2) ! ?j"
    proof (rule sort_nth_le [OF _ j])
      have "{r \<in> dom m2. m2 r \<noteq> m1 r} = {r \<in> dom m2. m1 r \<noteq> m2 r}" by auto
      then show "count_le v (votes_of m2) \<le> count_le v (votes_of m1) + (?j - (\<alpha> div 2 - \<beta>))" for v
        using common_votes [OF assms(2,1), of v] assms(6) half False by simp
    qed (use False half assms(3,4) len in linarith)+
    then show ?thesis using False assms(3) by (subst lower_bound_eq [OF \<alpha>]) simp
  next
    case True
    then show ?thesis by (subst lower_bound_eq [OF \<alpha>]) simp
  qed
  let ?i = "length (votes_of m1) + \<beta> - \<alpha> + \<alpha> div 2"
  show "sort (votes_of m2) ! ?j \<le> upper_bound \<alpha> \<beta> (votes_of m1)"
  proof (cases "?i < length (votes_of m1)")
    case True
    have gap: "card {r \<in> dom m1. m1 r \<noteq> m2 r} + ?j \<le> ?i"
      using card_differences [OF assms(1,2)] assms(4-6) len by linarith
    have "sort (votes_of m2) ! ?j \<le> sort (votes_of m1) ! ?i"
      by (rule sort_nth_le [OF j True]) (use common_votes [OF assms(1,2)] gap in \<open>fastforce intro: order_trans\<close>)+
    then show ?thesis using True assms(3) by (subst upper_bound_eq [OF \<alpha>]) simp
  next
    case False
    then show ?thesis using assms(3) by (subst upper_bound_eq [OF \<alpha>]) simp
  qed
qed

lemma read_bounds:
  assumes "hash_order_ok ho s" and "api_inv s" and "read \<alpha> \<beta> ho s = Inr pd" and "rec \<in> set (pd_t pd)"
    and "tr_transaction rec = Some txn" and "tsps s txn = Some m"
  shows "\<alpha> \<le> card (dom m) + \<beta>" "rmin rec = lower_bound \<alpha> \<beta> (votes_of m)" "rmax rec = upper_bound \<alpha> \<beta> (votes_of m)"
proof -
  obtain txn' m' where m': "tsps s txn' = Some m'" "\<alpha> \<le> card (dom m') + \<beta>" "read_tx \<alpha> \<beta> ho s txn' = Some rec"
    using read_records(2) [OF assms(1-4)] by blast
  have "txn' = txn" using read_tx_eq [OF assms(1,2) m'(1), of \<alpha> \<beta>] m'(2,3) assms(5) by auto
  then show "\<alpha> \<le> card (dom m) + \<beta>" "rmin rec = lower_bound \<alpha> \<beta> (votes_of m)" "rmax rec = upper_bound \<alpha> \<beta> (votes_of m)"
    using read_tx_eq [OF assms(1,2) m'(1), of \<alpha> \<beta>] m' assms(6) by auto
qed

lemma median_within:
  assumes "start_pod_data_updater E (init_client_state rs) vs1 = (s1, None)"
    and "start_pod_data_updater E (init_client_state rs) vs2 = (s2, None)"
    and "\<forall>r\<in>H. sent_by E r (accepted_of E rs r (vs1 @ vs2))"
    and "hash_order_ok ho s1" and "read \<alpha> \<beta> ho s1 = Inr pd" and "rec \<in> set (pd_t pd)"
    and "tr_transaction rec = Some txn" and "tsps s1 txn = Some m1" and "tsps s2 txn = Some m2"
    and "0 < \<alpha>" and "\<alpha> \<le> card (dom m2)" and "card (dom m2 - dom m1 \<inter> H) \<le> \<beta>"
  shows "rmin rec \<le> sort (votes_of m2) ! (card (dom m2) div 2) \<and>
    sort (votes_of m2) ! (card (dom m2) div 2) \<le> rmax rec"
proof -
  have inv: "api_inv s1" using reached_inv [OF assms(1)] by simp
  note bounds = read_bounds [OF assms(4) inv assms(5-8)]
  have fin: "finite (dom m1)" "finite (dom m2)"
    using hash_order_votes(1) [OF assms(4) inv assms(8)] assms(10,11) by (auto intro: card_ge_0_finite)
  have conf: "dom m1 \<subseteq> rp_id ` set rs"
    using inv assms(8) later_state(6) [of E rs vs1 s1 "[]" s1 None] assms(1) by (simp add: api_inv_def)
  have "m1 r = m2 r" if "r \<in> dom m2" "r \<in> dom m1" "r \<in> H" for r
    using that(1,2) assms(8,9) views_agree [OF assms(1,2) subsetD [OF conf that(2)] bspec [OF assms(3) that(3)],
        where txn = txn] by (auto simp: ts_of_def)
  then have "{r \<in> dom m2. m1 r \<noteq> m2 r} \<subseteq> dom m2 - dom m1 \<inter> H" by auto
  then have "card {r \<in> dom m2. m1 r \<noteq> m2 r} \<le> \<beta>"
    using card_mono [of "dom m2 - dom m1 \<inter> H"] fin(2) assms(12) by (meson finite_Diff le_trans)
  then show ?thesis
    using median_of_other_view [OF fin assms(10) bounds(1) assms(11)] bounds(2,3) by simp
qed

section \<open>Properties\<close>

text \<open>
  C11. Two clients never disagree about a replica that follows the protocol. Of two clients with
  the same configuration, the one that is further in the replica's sequence of votes has recorded
  everything the other one has: every transaction with the same timestamp, and a most recent
  timestamp that is at least as large.
\<close>

theorem views_of_honest_replica_are_ordered:
  assumes "start_pod_data_updater E (init_client_state rs) vs1 = (s1, None)"
    and "start_pod_data_updater E (init_client_state rs) vs2 = (s2, None)" and "r \<in> rp_id ` set rs"
    and "sent_by E r (accepted_of E rs r (vs1 @ vs2))"
    and "the (next_sn s1 r) \<le> the (next_sn s2 r)"
  shows "(\<forall>txn t. ts_of s1 txn r = Some t \<longrightarrow> ts_of s2 txn r = Some t) \<and>
    the (mrt s1 r) \<le> the (mrt s2 r)"
proof -
  have "core_extends r (pod_core_of s1) (pod_core_of s2)"
    by (rule views_extend [OF assms(1-3) sent_by_inj [OF assms(4)] assms(5)])
  moreover have "r \<in> dom (mrt s1)"
    using assms(3) later_state(6) [of E rs vs1 s1 "[]" s1 None] assms(1) by simp
  ultimately show ?thesis by (force simp: core_extends_def pod_core_of_def)
qed

text \<open>Replicas that cast one vote, and a client that has their votes in another order.\<close>

lemma one_vote_sent:
  assumes "get_current_round now = Some t"
  shows "sent_by demo_ed25519 r {first_vote k r d t}"
proof -
  let ?t = "\<lparr>data = [d]\<rparr> :: transaction" and ?step = "node_step demo_ed25519 demo_record_message k r"
  obtain l where l: "append_entry demo_record_message good_io (signed_record demo_ed25519 k ?t t 0)
      (replica_log race_start) = (Appended, l)"
    by (simp add: race_start_def append_entry_def demo_record_message_def signed_record_def
        good_io_def demo_ed25519_def checked_add_def)
  let ?s1 = "race_start\<lparr>nextsn := 1, lv := LvTaken ?t 0\<rparr>"
  let ?s2 = "?s1\<lparr>lv := LvStamped ?t 0 t\<rparr>"
  let ?r = "signed_record demo_ed25519 k ?t t 0"
  let ?s3 = "?s2\<lparr>replica_log := l, lv := LvLogged ?r\<rparr>"
  have 1: "?step race_start ?s1"
    using node_step.lv_recv [of race_start 0 "race_start\<lparr>nextsn := 1\<rparr>"] by (simp add: race_start_def fetch_add_def)
  have 2: "?step ?s1 ?s2" by (rule node_step.lv_clock [OF _ assms]) simp
  have 3: "?step ?s2 ?s3"
    using node_step.lv_append [of ?s2 ?t 0 t demo_ed25519 demo_record_message k good_io
        "?s2\<lparr>replica_log := l\<rparr>" ?r Appended r] l
    by (simp add: log_vote_append_eq race_start_def)
  have "node_run demo_ed25519 demo_record_message k r race_start (Suc (Suc (Suc 0))) ?s3"
    by (rule node_run.run_step [OF node_run.run_step [OF node_run.run_step [OF node_run.run_start 1] 2] 3])
  moreover have "init_pod_network_node True True None = Inr race_start"
    by (simp add: init_pod_network_node_def open_log_def race_start_def Let_def)
  moreover have "Suc (Suc (Suc 0)) < 2 ^ 64" "{first_vote k r d t} \<subseteq> set (votes_issued r ?s3)"
    by (simp_all add: votes_issued_def unsent_def first_vote_def signed_vote_def)
  ultimately show ?thesis unfolding sent_by_def by blast
qed

lemma abc_sent:
  assumes "set vs \<subseteq> set abc_votes" and "r \<in> {1, 2, 3}"
  shows "sent_by demo_ed25519 r (accepted_of demo_ed25519 three_replicas r vs)"
proof -
  have now: "get_current_round (Some 1000) = Some 10" "get_current_round (Some 500) = Some 5"
    "get_current_round (Some 600) = Some 6"
    by (simp_all add: get_current_round_def ROUND_SIZE_MS_def)
  have sub: "accepted_of demo_ed25519 three_replicas r vs \<subseteq> {v \<in> set abc_votes. replica_id v = r}"
    using assms(1) by (auto simp: accepted_of_def)
  consider "r = 1" | "r = 2" | "r = 3" using assms(2) by auto
  then show ?thesis
  proof cases
    case 1
    with sub have "accepted_of demo_ed25519 three_replicas r vs \<subseteq> {first_vote 1 r 7 10}"
      by (auto simp: abc_votes_def a_votes_def)
    then show ?thesis by (rule sent_by_subset [OF one_vote_sent [OF now(1)]])
  next
    case 2
    with sub have "accepted_of demo_ed25519 three_replicas r vs \<subseteq> {first_vote 2 r 7 5}"
      by (auto simp: abc_votes_def a_votes_def)
    then show ?thesis by (rule sent_by_subset [OF one_vote_sent [OF now(2)]])
  next
    case 3
    with sub have "accepted_of demo_ed25519 three_replicas r vs \<subseteq> {first_vote 3 r 7 6}"
      by (auto simp: abc_votes_def a_votes_def)
    then show ?thesis by (rule sent_by_subset [OF one_vote_sent [OF now(3)]])
  qed
qed

theorem views_of_honest_replica_are_ordered_witness:
  "ts_of (three_run abc_votes) \<lparr>data = [7]\<rparr> 1 = Some 10"
proof -
  have "next_sn (three_run a_votes) 1 = Some 1" "next_sn (three_run abc_votes) 1 = Some 1"
    by (simp_all add: three_run_def start_pod_data_updater_def three_init a_votes_def abc_votes_def three_step)
  moreover have "1 \<in> rp_id ` set three_replicas" by (simp add: three_replicas_def)
  moreover have "set (a_votes @ abc_votes) \<subseteq> set abc_votes" by (auto simp: abc_votes_def)
  ultimately show ?thesis
    using views_of_honest_replica_are_ordered [OF a_run(1) abc_run(1) _ abc_sent, of 1] a_run(2)
    by (simp add: ts_of_def)
qed

end
