(* ===== verification/Config.thy ===== *)
theory Config
  imports UpdaterTheorems
begin

text \<open>
  Configuration: generating it (\<open>common/src/bin/generate_replica_config.rs\<close>), the key format in
  it (\<open>hex_serde\<close> of \<open>client/src/lib.rs\<close>), and what the two programs do with it before they start
  (\<open>client/src/bin/client.rs\<close>, \<open>pod/src/bin/replica.rs\<close>). The hex codec, the byte formats of
  keys, the URL parser and the JSON reader and writer are third-party code: parameters.
\<close>

section \<open>Parameters\<close>

record hex_codec =
  hex_encode :: "bytes \<Rightarrow> string"
  hex_decode :: "string \<Rightarrow> bytes option"

record ('sk, 'pk) key_bytes =
  sk_to_bytes :: "'sk \<Rightarrow> bytes"
  sk_from_bytes :: "bytes \<Rightarrow> 'sk"
  pk_as_bytes :: "'pk \<Rightarrow> bytes"
  pk_from_bytes :: "bytes \<Rightarrow> 'pk option"

definition hex_ok :: "hex_codec \<Rightarrow> bool" where
  "hex_ok H \<longleftrightarrow> (\<forall>bs. hex_decode H (hex_encode H bs) = Some bs)"

definition key_bytes_ok :: "('sk, 'pk) key_bytes \<Rightarrow> bool" where
  "key_bytes_ok K \<longleftrightarrow>
     (\<forall>k. length (sk_to_bytes K k) = 32 \<and> sk_from_bytes K (sk_to_bytes K k) = k) \<and>
     (\<forall>p. length (pk_as_bytes K p) = 32 \<and> pk_from_bytes K (pk_as_bytes K p) = Some p)"

text \<open>The port a WebSocket connection to the URL goes to.\<close>

definition ws_port :: "url \<Rightarrow> u16 option" where
  "ws_port u = (case url_port u of
     Some p \<Rightarrow> Some p
   | None \<Rightarrow> if url_scheme u = ''ws'' then Some 80 else if url_scheme u = ''wss'' then Some 443 else None)"

text \<open>Decimal digits, as \<open>format!\<close> writes an unsigned number.\<close>

fun nat_to_string :: "nat \<Rightarrow> string" where
  "nat_to_string n =
     (if n < 10 then [char_of (48 + n)] else nat_to_string (n div 10) @ [char_of (48 + n mod 10)])"

declare nat_to_string.simps [simp del]

text \<open>
  What the URL standard says of WebSocket URLs: they have a host, and \<open>scheme://host:port\<close> with
  the host of a parsed one is again a URL, with these parts. Nothing is said of other schemes.
\<close>

definition url_parser_ok :: "(string \<Rightarrow> url option) \<Rightarrow> bool" where
  "url_parser_ok parse \<longleftrightarrow>
     (\<forall>str u. parse str = Some u \<longrightarrow> url_scheme u \<in> {''ws'', ''wss''} \<longrightarrow>
        (\<exists>h. url_host u = Some h \<and>
           (\<forall>p. \<exists>u'. parse (url_scheme u @ ''://'' @ h @ '':'' @ nat_to_string (unat p)) = Some u' \<and>
              url_scheme u' = url_scheme u \<and> url_host u' = Some h \<and> ws_port u' = Some p)))"

section \<open>Keys in configuration files\<close>

datatype key_error = BadHex | BadLength | BadKey

definition serialize_key :: "hex_codec \<Rightarrow> ('sk, 'pk) key_bytes \<Rightarrow> 'pk \<Rightarrow> string" where
  "serialize_key H K key = hex_encode H (pk_as_bytes K key)"

definition deserialize_key :: "hex_codec \<Rightarrow> ('sk, 'pk) key_bytes \<Rightarrow> string \<Rightarrow> key_error + 'pk" where
  "deserialize_key H K hex_string =
     (case hex_decode H hex_string of
        None \<Rightarrow> Inl BadHex
      | Some bs \<Rightarrow>
          if length bs \<noteq> 32 then Inl BadLength
          else (case pk_from_bytes K bs of None \<Rightarrow> Inl BadKey | Some pk \<Rightarrow> Inr pk))"

text \<open>\<open>main\<close> of the replica up to its signing key.\<close>

definition parse_private_key :: "hex_codec \<Rightarrow> ('sk, 'pk) key_bytes \<Rightarrow> string \<Rightarrow> key_error + 'sk" where
  "parse_private_key H K private_key =
     (case hex_decode H private_key of
        None \<Rightarrow> Inl BadHex
      | Some private_key_bytes \<Rightarrow>
          if length private_key_bytes \<noteq> 32 then Inl BadLength
          else Inr (sk_from_bytes K private_key_bytes))"

section \<open>Generating a configuration\<close>

record replica_config =
  rc_id :: u64
  rc_url :: string
  rc_pk :: string

record private_key_config =
  pc_id :: u64
  pc_port :: u16
  pc_privk :: string

text \<open>
  Iteration \<open>i\<close> of the loop, for the key the random generator gives it. The sum of ports is the
  overflow-checked one of \<open>u16\<close>; \<open>i as u16\<close> truncates.
\<close>

definition replica_entry ::
  "('sk, 'pk, 'sig) ed25519 \<Rightarrow> hex_codec \<Rightarrow> ('sk, 'pk) key_bytes \<Rightarrow> url \<Rightarrow> nat \<Rightarrow> 'sk \<Rightarrow>
     (replica_config \<times> private_key_config) option" where
  "replica_entry E H K base_url i signing_key =
     (let host = (case url_host base_url of None \<Rightarrow> ''localhost'' | Some h \<Rightarrow> h);
          base_port = (case url_port base_url of None \<Rightarrow> 80 | Some p \<Rightarrow> p);
          offset = (word_of_nat i :: u16)
      in if unat base_port + unat offset \<ge> 2 ^ 16 then None
         else
           let port = base_port + offset;
               url = url_scheme base_url @ ''://'' @ host @ '':'' @ nat_to_string (unat port)
           in Some (\<lparr>rc_id = word_of_nat i, rc_url = url,
                     rc_pk = hex_encode H (pk_as_bytes K (verifying_key E signing_key))\<rparr>,
                    \<lparr>pc_id = word_of_nat i, pc_port = port, pc_privk = hex_encode H (sk_to_bytes K signing_key)\<rparr>))"

definition generate_replica_config ::
  "('sk, 'pk, 'sig) ed25519 \<Rightarrow> hex_codec \<Rightarrow> ('sk, 'pk) key_bytes \<Rightarrow> url \<Rightarrow> nat \<Rightarrow> (nat \<Rightarrow> 'sk) \<Rightarrow>
     (replica_config list \<times> private_key_config list) option" where
  "generate_replica_config E H K base_url cnt keys =
     (case those (map (\<lambda>i. replica_entry E H K base_url i (keys i)) [0..<cnt]) of
        None \<Rightarrow> None
      | Some entries \<Rightarrow> Some (map fst entries, map snd entries))"

section \<open>Starting the client\<close>

datatype startup_error = AlphaTooLow | OpenError | ParseError | InsufficientReplicas | StartupPanic

text \<open>
  The derived reader of \<open>Replica\<close>: a \<open>url\<close> that does not parse or a \<open>pk\<close> that is no key is an error.
\<close>

definition deserialize_replica ::
  "hex_codec \<Rightarrow> ('sk, 'pk) key_bytes \<Rightarrow> (string \<Rightarrow> url option) \<Rightarrow> replica_config \<Rightarrow> 'pk replica option" where
  "deserialize_replica H K parse rc =
     (case parse (rc_url rc) of
        None \<Rightarrow> None
      | Some u \<Rightarrow>
          (case deserialize_key H K (rc_pk rc) of
             Inl _ \<Rightarrow> None
           | Inr pk \<Rightarrow> Some \<lparr>rp_id = rc_id rc, rp_url = u, rp_pk = pk\<rparr>))"

definition process_replica_config_file ::
  "hex_codec \<Rightarrow> ('sk, 'pk) key_bytes \<Rightarrow> (string \<Rightarrow> url option) \<Rightarrow> (string \<Rightarrow> replica_config list option) \<Rightarrow>
     string option \<Rightarrow> startup_error + 'pk replica list" where
  "process_replica_config_file H K parse from_str contents =
     (case contents of
        None \<Rightarrow> Inl OpenError
      | Some c \<Rightarrow>
          (case from_str c of
             None \<Rightarrow> Inl ParseError
           | Some cs \<Rightarrow>
               (case those (map (deserialize_replica H K parse) cs) of
                  None \<Rightarrow> Inl ParseError
                | Some rs \<Rightarrow> Inr rs)))"

text \<open>
  \<open>main\<close> of the client up to \<open>init_pod_network_client\<close>; \<open>usize\<close> has 64 bits and its
  arithmetic is overflow-checked.
\<close>

definition client_main ::
  "u64 \<Rightarrow> u64 \<Rightarrow> (startup_error + 'pk replica list) \<Rightarrow> startup_error + 'pk client_state" where
  "client_main alpha beta config =
     (case checked_mul 4 beta of
        None \<Rightarrow> Inl StartupPanic
      | Some b4 \<Rightarrow>
          (case checked_add b4 1 of
             None \<Rightarrow> Inl StartupPanic
           | Some least \<Rightarrow>
               if alpha < least then Inl AlphaTooLow
               else
                 (case config of
                    Inl e \<Rightarrow> Inl e
                  | Inr replicas_list \<Rightarrow>
                      (case checked_add alpha beta of
                         None \<Rightarrow> Inl StartupPanic
                       | Some needed \<Rightarrow>
                           if length replicas_list < unat needed then Inl InsufficientReplicas
                           else Inr (init_client_state replicas_list)))))"

section \<open>Facts\<close>

definition digit_value :: "string \<Rightarrow> nat" where
  "digit_value s = fold (\<lambda>c n. 10 * n + (of_char c - 48)) s 0"

lemma digit_value_to_string: "digit_value (nat_to_string n) = n"
proof (induction n rule: nat_to_string.induct)
  case (1 n)
  show ?case
  proof (cases "n < 10")
    case True
    then show ?thesis by (subst nat_to_string.simps) (simp add: digit_value_def)
  next
    case False
    then have "n mod 10 < 10" by simp
    with 1 False show ?thesis by (subst nat_to_string.simps) (simp add: digit_value_def)
  qed
qed

lemma nat_to_string_inject [simp]: "nat_to_string m = nat_to_string n \<longleftrightarrow> m = n"
  by (metis digit_value_to_string)

lemma those_map_Some:
  assumes "those (map f xs) = Some ys"
  shows "length ys = length xs \<and> (\<forall>i<length xs. f (xs ! i) = Some (ys ! i))"
proof -
  have eq: "map f xs = map Some ys" using assms by (simp add: those_eq_Some)
  then have "length ys = length xs" by (metis length_map)
  moreover have "f (xs ! i) = Some (ys ! i)" if "i < length xs" for i
    using arg_cong [OF eq, of "\<lambda>l. l ! i"] that calculation by simp
  ultimately show ?thesis by blast
qed

section \<open>Properties\<close>

text \<open>
  Keys survive the configuration files: a public key reads back from its serialised form,
  and no string that is not the hex form of 32 bytes is taken for a key, public or private.
\<close>

theorem key_round_trip:
  assumes "hex_ok H" and "key_bytes_ok K"
  shows "deserialize_key H K (serialize_key H K pk) = Inr pk \<and>
    parse_private_key H K (hex_encode H (sk_to_bytes K k)) = Inr k \<and>
    (\<forall>str bs. hex_decode H str = Some bs \<longrightarrow> length bs \<noteq> 32 \<longrightarrow>
       deserialize_key H K str = Inl BadLength \<and> parse_private_key H K str = Inl BadLength)"
  using assms by (simp add: deserialize_key_def serialize_key_def parse_private_key_def hex_ok_def key_bytes_ok_def)

text \<open>A character per byte in place of hex digits, and keys of one repeated byte.\<close>

definition demo_hex :: hex_codec where
  "demo_hex = \<lparr>hex_encode = map (\<lambda>b. char_of (unat b)), hex_decode = (\<lambda>s. Some (map (\<lambda>c. word_of_nat (of_char c)) s))\<rparr>"

definition demo_keys :: "(u8, u8) key_bytes" where
  "demo_keys = \<lparr>sk_to_bytes = replicate 32, sk_from_bytes = hd, pk_as_bytes = replicate 32,
     pk_from_bytes = (\<lambda>bs. if bs = replicate 32 (hd bs) then Some (hd bs) else None)\<rparr>"

lemma demo_hex_ok: "hex_ok demo_hex"
proof -
  have "map ((\<lambda>c. word_of_nat (of_char c)) \<circ> (\<lambda>b. char_of (unat b))) bs = bs" for bs :: bytes
  proof (rule map_idI)
    fix b :: u8
    have "unat b < 2 ^ LENGTH(8)" by (rule unsigned_less)
    then show "((\<lambda>c. word_of_nat (of_char c)) \<circ> (\<lambda>b. char_of (unat b))) b = b" by simp
  qed
  then show ?thesis by (simp add: hex_ok_def demo_hex_def)
qed

lemma demo_keys_ok: "key_bytes_ok demo_keys"
  by (simp add: key_bytes_ok_def demo_keys_def)

lemma replica_entry_Some:
  assumes "replica_entry E H K u i k = Some (rc, pc)"
  shows "rc_id rc = word_of_nat i \<and> pc_id pc = word_of_nat i \<and>
    rc_pk rc = serialize_key H K (verifying_key E k) \<and> pc_privk pc = hex_encode H (sk_to_bytes K k) \<and>
    rc_url rc = url_scheme u @ ''://'' @ (case url_host u of None \<Rightarrow> ''localhost'' | Some h \<Rightarrow> h) @ '':'' @
      nat_to_string (unat (pc_port pc)) \<and>
    pc_port pc = (case url_port u of None \<Rightarrow> 80 | Some p \<Rightarrow> p) + word_of_nat i"
  using assms by (auto simp: replica_entry_def Let_def serialize_key_def split: if_splits)

lemma unat_small [simp]: "i < 2 ^ 16 \<Longrightarrow> unat (word_of_nat i :: u16) = i" "i < 2 ^ 16 \<Longrightarrow> unat (word_of_nat i :: u64) = i"
  by (simp_all add: unat_of_nat)

lemma word_of_nat_inject:
  assumes "i < 2 ^ 16" and "j < 2 ^ 16"
  shows "(word_of_nat i :: u16) = word_of_nat j \<longleftrightarrow> i = j" "(word_of_nat i :: u64) = word_of_nat j \<longleftrightarrow> i = j"
  using unat_small [OF assms(1)] unat_small [OF assms(2)] by metis+

lemma generated_entries:
  assumes "generate_replica_config E H K u n keys = Some (rcs, pcs)"
  shows "length rcs = n \<and> length pcs = n \<and> (\<forall>i<n. replica_entry E H K u i (keys i) = Some (rcs ! i, pcs ! i))"
proof -
  obtain es where es: "those (map (\<lambda>i. replica_entry E H K u i (keys i)) [0..<n]) = Some es" "rcs = map fst es" "pcs = map snd es"
    using assms by (auto simp: generate_replica_config_def split: option.splits)
  then show ?thesis using those_map_Some [OF es(1)] by auto
qed

text \<open>
  A configuration generated from a WebSocket URL fits together: the client reads all of it; ids,
  endpoints and ports of the replicas are distinct; and the private key handed to replica \<open>i\<close> is
  accepted by the replica program and belongs to the public key the client has for it.
\<close>

lemma generated_configuration:
  assumes "hex_ok H" and "key_bytes_ok K" and "ed25519_ok E" and "cnt \<le> 2 ^ 16"
    and "url_parser_ok parse" and "parse str = Some u" and "url_scheme u \<in> {''ws'', ''wss''}"
    and "generate_replica_config E H K u cnt keys = Some (rcs, pcs)" and "from_str c = Some rcs"
  shows "\<exists>rs. process_replica_config_file H K parse from_str (Some c) = Inr rs \<and> length rs = cnt \<and>
    distinct (map rp_id rs) \<and> distinct (map rp_url rs) \<and> distinct (map pc_port pcs) \<and>
    length pcs = cnt \<and>
    (\<forall>i<cnt. pc_id (pcs ! i) = rp_id (rs ! i) \<and>
       url_scheme (rp_url (rs ! i)) = url_scheme u \<and> url_host (rp_url (rs ! i)) = url_host u \<and>
       ws_port (rp_url (rs ! i)) = Some (pc_port (pcs ! i)) \<and>
       parse_private_key H K (pc_privk (pcs ! i)) = Inr (keys i) \<and>
       (\<forall>txn t n. verify_vote_signature E (rp_pk (rs ! i)) (data txn) t n
          (signature (signed_vote E (keys i) (rp_id (rs ! i)) txn t n))))"
proof -
  note es = generated_entries [OF assms(8)]
  obtain h where h: "url_host u = Some h"
    and reparse: "\<exists>u'. parse (url_scheme u @ ''://'' @ h @ '':'' @ nat_to_string (unat p)) = Some u' \<and>
      url_scheme u' = url_scheme u \<and> url_host u' = Some h \<and> ws_port u' = Some p" for p
    using assms(5-7) unfolding url_parser_ok_def by blast
  have e: "rc_id (rcs ! i) = word_of_nat i" "pc_id (pcs ! i) = word_of_nat i"
    "rc_pk (rcs ! i) = serialize_key H K (verifying_key E (keys i))"
    "pc_privk (pcs ! i) = hex_encode H (sk_to_bytes K (keys i))"
    "rc_url (rcs ! i) = url_scheme u @ ''://'' @ h @ '':'' @ nat_to_string (unat (pc_port (pcs ! i)))"
    "pc_port (pcs ! i) = (case url_port u of None \<Rightarrow> 80 | Some p \<Rightarrow> p) + word_of_nat i" if "i < cnt" for i
    using replica_entry_Some [of E H K u i "keys i"] es that h by fastforce+
  from reparse obtain U where U: "parse (url_scheme u @ ''://'' @ h @ '':'' @ nat_to_string (unat p)) = Some (U p)"
    "url_scheme (U p) = url_scheme u" "url_host (U p) = Some h" "ws_port (U p) = Some p" for p by metis
  define rs where "rs = map (\<lambda>i. \<lparr>rp_id = rc_id (rcs ! i), rp_url = U (pc_port (pcs ! i)),
     rp_pk = verifying_key E (keys i)\<rparr>) [0..<cnt]"
  have "deserialize_key H K (serialize_key H K pk) = Inr pk" "parse_private_key H K (hex_encode H (sk_to_bytes K k)) = Inr k"
    for pk k using assms(1,2)
    by (simp_all add: deserialize_key_def serialize_key_def parse_private_key_def hex_ok_def key_bytes_ok_def)
  note keys = this
  have "parse (rc_url (rcs ! i)) = Some (U (pc_port (pcs ! i)))" if "i < cnt" for i
    unfolding e(5) [OF that] by (rule U(1))
  then have "map (deserialize_replica H K parse) rcs = map Some rs"
    using es by (intro nth_equalityI) (simp_all add: rs_def e(3) keys deserialize_replica_def)
  then have "process_replica_config_file H K parse from_str (Some c) = Inr rs"
    using assms(9) by (simp add: process_replica_config_file_def those_eq_Some)
  moreover have ports: "distinct (map pc_port pcs)" "distinct (map rp_id rs)"
    using es assms(4) by (auto simp: distinct_conv_nth rs_def e word_of_nat_inject)
  moreover have "distinct (map rp_url rs)"
    using ports(1) es U(4) unfolding distinct_conv_nth rs_def by (simp, metis option.inject)
  ultimately show ?thesis
    using es signed_vote_verifies [OF assms(3)] by (intro exI [of _ rs]) (auto simp: rs_def e(1,2,4) U keys h)
qed

definition local_url :: url where
  "local_url = \<lparr>url_str = ''ws://localhost:12345/'', url_scheme = ''ws'', url_host = Some ''localhost'',
     url_port = Some 12345\<rparr>"

text \<open>A parser that knows the URLs \<open>ws://localhost:<port>\<close> and no others.\<close>

definition demo_parse :: "string \<Rightarrow> url option" where
  "demo_parse str =
     (if take 15 str \<noteq> ''ws://localhost:'' then None
      else
        let p = word_of_nat (digit_value (drop 15 str)) in
        Some \<lparr>url_str = str @ ''/'', url_scheme = ''ws'', url_host = Some ''localhost'',
              url_port = (if p = 80 then None else Some p)\<rparr>)"

lemma demo_parse_ok: "url_parser_ok demo_parse"
proof -
  have "\<exists>u'. demo_parse (''ws://localhost:'' @ nat_to_string (unat p)) = Some u' \<and>
      url_scheme u' = ''ws'' \<and> url_host u' = Some ''localhost'' \<and> ws_port u' = Some p" for p
    by (simp add: demo_parse_def ws_port_def digit_value_to_string)
  then show ?thesis by (auto simp: url_parser_ok_def demo_parse_def Let_def split: if_splits)
qed

lemma demo_parse_local: "demo_parse ''ws://localhost:12345'' = Some local_url"
  by (simp add: demo_parse_def local_url_def digit_value_def)

lemma least_alpha:
  "(case checked_mul 4 beta of None \<Rightarrow> None | Some b4 \<Rightarrow> checked_add b4 1) =
     (if 4 * unat beta + 1 < 2 ^ 64 then Some (4 * beta + 1) else None)"
  "4 * unat beta + 1 < 2 ^ 64 \<Longrightarrow> unat (4 * beta + 1) = 4 * unat beta + 1"
proof -
  have four: "unat (4 * beta) = 4 * unat beta" if "4 * unat beta < 2 ^ 64"
    using that unat_word_ariths(2) [of 4 beta] by simp
  then show "(case checked_mul 4 beta of None \<Rightarrow> None | Some b4 \<Rightarrow> checked_add b4 1) =
     (if 4 * unat beta + 1 < 2 ^ 64 then Some (4 * beta + 1) else None)"
    by (auto simp: checked_mul_def checked_add_def)
  show "unat (4 * beta + 1) = 4 * unat beta + 1" if "4 * unat beta + 1 < 2 ^ 64"
    using that four by (subst unat_Suc_word) simp_all
qed

lemma client_main_eq:
  "client_main alpha beta config =
     (if 4 * unat beta + 1 \<ge> 2 ^ 64 then Inl StartupPanic
      else if unat alpha < 4 * unat beta + 1 then Inl AlphaTooLow
      else (case config of
              Inl e \<Rightarrow> Inl e
            | Inr rs \<Rightarrow>
                if unat alpha + unat beta \<ge> 2 ^ 64 then Inl StartupPanic
                else if length rs < unat alpha + unat beta then Inl InsufficientReplicas
                else Inr (init_client_state rs)))"
proof -
  have needed: "checked_add alpha beta = (if unat alpha + unat beta < 2 ^ 64 then Some (alpha + beta) else None)"
    "unat alpha + unat beta < 2 ^ 64 \<Longrightarrow> unat (alpha + beta) = unat alpha + unat beta"
  proof -
    show "checked_add alpha beta = (if unat alpha + unat beta < 2 ^ 64 then Some (alpha + beta) else None)"
      by (rule checked_add_def)
    then show "unat alpha + unat beta < 2 ^ 64 \<Longrightarrow> unat (alpha + beta) = unat alpha + unat beta"
      by (intro checked_add_unat) simp
  qed
  have "client_main alpha beta config =
     (case (case checked_mul 4 beta of None \<Rightarrow> None | Some b4 \<Rightarrow> checked_add b4 1) of
        None \<Rightarrow> Inl StartupPanic
      | Some least \<Rightarrow>
          if alpha < least then Inl AlphaTooLow
          else (case config of Inl e \<Rightarrow> Inl e
            | Inr rs \<Rightarrow> (case checked_add alpha beta of None \<Rightarrow> Inl StartupPanic
              | Some needed \<Rightarrow> if length rs < unat needed then Inl InsufficientReplicas
                  else Inr (init_client_state rs))))"
    by (simp add: client_main_def split: option.splits)
  then show ?thesis
    using least_alpha(2) [of beta] needed unfolding least_alpha(1)
    by (simp add: word_less_nat_alt split: sum.splits)
qed

text \<open>
  When the client starts: exactly when \<open>alpha \<ge> 4 beta + 1\<close>, the configuration can be read
  and lists at least \<open>alpha + beta\<close> replicas (and these sums fit a machine word); it then starts
  with empty records, expecting vote 0 of each listed replica.
\<close>

theorem client_starts_iff:
  "(client_main alpha beta config = Inr s \<longleftrightarrow>
     (\<exists>rs. config = Inr rs \<and> s = init_client_state rs \<and> 4 * unat beta + 1 < 2 ^ 64 \<and>
        4 * unat beta + 1 \<le> unat alpha \<and> unat alpha + unat beta < 2 ^ 64 \<and> unat alpha + unat beta \<le> length rs)) \<and>
   next_sn (init_client_state rs) r = (if r \<in> rp_id ` set rs then Some 0 else None)"
  unfolding client_main_eq by (auto simp: init_next_sn not_less split: sum.splits)

definition twin_replicas :: "u8 replica list" where
  "twin_replicas = demo_replicas @ demo_replicas"

text \<open>
  The replica count of the start-up check is the length of the list, not the number of ids: a
  configuration that lists one id twice passes for \<open>alpha\<close> 2 and \<open>beta\<close> 0, though the client then
  knows one replica only.
\<close>

theorem duplicate_ids_pass_startup:
  "client_main 2 0 (Inr twin_replicas) = Inr (init_client_state twin_replicas) \<and>
   card (dom (replicas (init_client_state twin_replicas))) = 1"
  by (simp add: client_main_eq twin_replicas_def demo_replicas_def init_client_state_def)

end
