(* ===== verification/ReplicaServer.thy ===== *)
theory ReplicaServer
  imports ReplicaNode ClientComms Config
begin

text \<open>
  A whole replica (\<open>pod/src/bin/replica.rs\<close>, \<open>init_pod_network_node\<close>,
  \<open>start_client_comms_service\<close>): the log and vote service and the heartbeat service of
  \<^verbatim>\<open>ReplicaNode\<close>, the loop that accepts connections, and the four tasks of each connection of
  \<^verbatim>\<open>ClientComms\<close>, around the channel of transactions, the broadcast channel of votes and one
  channel of votes per connection. A step is one iteration of one task; the tasks are spawned, so
  their steps interleave in any order, and a task that waits for room in a channel is one whose
  step is not enabled. In particular a connection can read a record from the log before its vote
  is broadcast. (A read in the middle of an append is left out: by \<open>reader_during_append\<close> of
  \<^verbatim>\<open>ReplicaLog\<close> it yields what a read before the append does.) The tasks of a connection go on when its handler has returned, as dropping
  their handles does not stop them. The replica ends with the first of its three services.
\<close>

section \<open>State\<close>

definition NODE_CHANNEL_SIZE :: nat where
  "NODE_CHANNEL_SIZE = 100"

datatype catch_up_pc = CuStart | CuSending "vote list" | CuDone

text \<open>\<open>held\<close>: the vote the funnel has taken from the broadcast channel and waits to pass on.\<close>

record server_conn =
  funnel_next :: nat
  held :: "vote option"
  funnel_on :: bool
  write_on :: bool
  sender_on :: bool
  catch_up_at :: catch_up_pc
  vote_rx :: "vote list"
  wire :: "bytes list"

text \<open>\<open>accepted\<close> is the history of the channel of transactions.\<close>

record replica_server =
  node :: node_state
  write_rx :: "transaction list"
  accepted :: "transaction list"
  sconns :: "server_conn list"
  accepting :: bool

definition new_server_conn :: "nat \<Rightarrow> server_conn" where
  "new_server_conn pos = \<lparr>funnel_next = pos, held = None, funnel_on = True, write_on = True, sender_on = True,
     catch_up_at = CuStart, vote_rx = [], wire = []\<rparr>"

datatype replica_error = KeyProblem key_error | LogProblem log_error

text \<open>\<open>main\<close> up to the running services; \<open>bind_ok\<close>: the port could be bound.\<close>

definition start_replica ::
  "hex_codec \<Rightarrow> ('sk, 'pk) key_bytes \<Rightarrow> string \<Rightarrow> bool \<Rightarrow> bool \<Rightarrow> bytes option \<Rightarrow> bool \<Rightarrow>
     replica_error + ('sk \<times> replica_server)" where
  "start_replica H K private_key open_ok meta_ok content bind_ok =
     (case parse_private_key H K private_key of
        Inl e \<Rightarrow> Inl (KeyProblem e)
      | Inr signing_key \<Rightarrow>
          (case init_pod_network_node open_ok meta_ok content of
             Inl e \<Rightarrow> Inl (LogProblem e)
           | Inr n \<Rightarrow> Inr (signing_key, \<lparr>node = n, write_rx = [], accepted = [], sconns = [], accepting = bind_ok\<rparr>)))"

definition running :: "replica_server \<Rightarrow> bool" where
  "running st \<longleftrightarrow> accepting st \<and> lv (node st) \<noteq> LvStopped \<and> hb (node st) \<noteq> HbStopped"

text \<open>The votes in the log as the catch-up task reads them.\<close>

definition logged_votes :: "vote_record prost_message \<Rightarrow> u64 \<Rightarrow> bool \<Rightarrow> bool \<Rightarrow> bytes \<Rightarrow> vote list" where
  "logged_votes P rid meta_ok map_ok f =
     catch_up P rid (\<lambda>_. Some f) meta_ok (\<lambda>_. Some f) map_ok [] (replicate (length f) True)"

section \<open>Steps\<close>

inductive server_step ::
  "('sk, 'pk, 'sig) ed25519 \<Rightarrow> vote_record prost_message \<Rightarrow> vote prost_message \<Rightarrow> 'sk \<Rightarrow> u64 \<Rightarrow> nat \<Rightarrow>
     append_io set \<Rightarrow> replica_server \<Rightarrow> replica_server \<Rightarrow> bool"
  for E P PV k rid cap ios where
  accept: "running st \<Longrightarrow>
     server_step E P PV k rid cap ios st
       (st\<lparr>sconns := sconns st @ [new_server_conn (length (broadcast (node st)))]\<rparr>)"
| accept_error: "running st \<Longrightarrow> server_step E P PV k rid cap ios st (st\<lparr>accepting := False\<rparr>)"
| client_message: "running st \<Longrightarrow> i < length (sconns st) \<Longrightarrow> write_on (sconns st ! i) \<Longrightarrow>
     write_task [(item, True)] = (txs, fin) \<Longrightarrow> length (write_rx st @ txs) \<le> NODE_CHANNEL_SIZE \<Longrightarrow>
     server_step E P PV k rid cap ios st
       (st\<lparr>sconns := (sconns st)[i := (sconns st ! i)\<lparr>write_on := \<not> fin\<rparr>],
          write_rx := write_rx st @ txs, accepted := accepted st @ txs\<rparr>)"
| log_recv: "running st \<Longrightarrow> lv (node st) = LvIdle \<Longrightarrow> write_rx st = txn # txs \<Longrightarrow>
     fetch_add (node st) = (n, s1) \<Longrightarrow>
     server_step E P PV k rid cap ios st (st\<lparr>node := s1\<lparr>lv := LvTaken txn n\<rparr>, write_rx := txs\<rparr>)"
| log_clock: "running st \<Longrightarrow> lv (node st) = LvTaken txn n \<Longrightarrow>
     server_step E P PV k rid cap ios st
       (st\<lparr>node := (node st)\<lparr>lv := (case get_current_round now of None \<Rightarrow> LvStopped | Some t \<Rightarrow> LvStamped txn n t)\<rparr>\<rparr>)"
| log_append: "running st \<Longrightarrow> lv (node st) = LvStamped txn n t \<Longrightarrow> io \<in> ios \<Longrightarrow>
     log_vote_append E P k txn n t io (node st) = (s1, rec, r) \<Longrightarrow>
     server_step E P PV k rid cap ios st (st\<lparr>node := s1\<lparr>lv := after_append rec r\<rparr>\<rparr>)"
| log_send: "running st \<Longrightarrow> lv (node st) = LvLogged rec \<Longrightarrow>
     server_step E P PV k rid cap ios st (st\<lparr>node := (log_vote_send rid rec True (node st))\<lparr>lv := LvIdle\<rparr>\<rparr>)"
| heartbeat: "running st \<Longrightarrow> node_step E P k rid (node st) n' \<Longrightarrow> hb n' \<noteq> hb (node st) \<Longrightarrow>
     (\<nexists>n t. hb (node st) = HbStamped n t) \<Longrightarrow>
     server_step E P PV k rid cap ios st (st\<lparr>node := n'\<rparr>)"
| heartbeat_vote: "running st \<Longrightarrow> hb (node st) = HbStamped n t \<Longrightarrow>
     server_step E P PV k rid cap ios st
       (st\<lparr>node := (heartbeat_finish E k rid n t True (node st))\<lparr>hb := HbTicking\<rparr>\<rparr>)"
| funnel_lag: "running st \<Longrightarrow> i < length (sconns st) \<Longrightarrow> c = sconns st ! i \<Longrightarrow> funnel_on c \<Longrightarrow> held c = None \<Longrightarrow>
     funnel_next c + cap < length (broadcast (node st)) \<Longrightarrow> vote_funnel [(RecvError, sender_on c)] = (vs, fin) \<Longrightarrow>
     server_step E P PV k rid cap ios st
       (st\<lparr>sconns := (sconns st)[i := c\<lparr>funnel_on := \<not> fin, vote_rx := vote_rx c @ vs\<rparr>]\<rparr>)"
| funnel_recv: "running st \<Longrightarrow> i < length (sconns st) \<Longrightarrow> c = sconns st ! i \<Longrightarrow> funnel_on c \<Longrightarrow> held c = None \<Longrightarrow>
     funnel_next c < length (broadcast (node st)) \<Longrightarrow> length (broadcast (node st)) \<le> funnel_next c + cap \<Longrightarrow>
     server_step E P PV k rid cap ios st
       (st\<lparr>sconns := (sconns st)[i := c\<lparr>funnel_next := Suc (funnel_next c), held := Some (broadcast (node st) ! funnel_next c)\<rparr>]\<rparr>)"
| funnel_send: "running st \<Longrightarrow> i < length (sconns st) \<Longrightarrow> c = sconns st ! i \<Longrightarrow> funnel_on c \<Longrightarrow> held c = Some v \<Longrightarrow>
     vote_funnel [(Received v, sender_on c)] = (vs, fin) \<Longrightarrow> length (vote_rx c @ vs) \<le> NODE_CHANNEL_SIZE \<Longrightarrow>
     server_step E P PV k rid cap ios st
       (st\<lparr>sconns := (sconns st)[i := c\<lparr>held := None, funnel_on := \<not> fin, vote_rx := vote_rx c @ vs\<rparr>]\<rparr>)"
| catch_up_start: "running st \<Longrightarrow> i < length (sconns st) \<Longrightarrow> c = sconns st ! i \<Longrightarrow> catch_up_at c = CuStart \<Longrightarrow>
     server_step E P PV k rid cap ios st
       (st\<lparr>sconns := (sconns st)[i := c\<lparr>catch_up_at :=
          CuSending (logged_votes P rid meta_ok map_ok (log_file (replica_log (node st))))\<rparr>]\<rparr>)"
| catch_up_send: "running st \<Longrightarrow> i < length (sconns st) \<Longrightarrow> c = sconns st ! i \<Longrightarrow> catch_up_at c = CuSending (v # vs) \<Longrightarrow>
     sender_on c \<Longrightarrow> length (vote_rx c) < NODE_CHANNEL_SIZE \<Longrightarrow>
     server_step E P PV k rid cap ios st
       (st\<lparr>sconns := (sconns st)[i := c\<lparr>catch_up_at := CuSending vs, vote_rx := vote_rx c @ [v]\<rparr>]\<rparr>)"
| catch_up_end: "running st \<Longrightarrow> i < length (sconns st) \<Longrightarrow> c = sconns st ! i \<Longrightarrow> catch_up_at c = CuSending vs \<Longrightarrow>
     vs = [] \<or> \<not> sender_on c \<Longrightarrow>
     server_step E P PV k rid cap ios st (st\<lparr>sconns := (sconns st)[i := c\<lparr>catch_up_at := CuDone\<rparr>]\<rparr>)"
| send_vote_message: "running st \<Longrightarrow> i < length (sconns st) \<Longrightarrow> c = sconns st ! i \<Longrightarrow> sender_on c \<Longrightarrow>
     vote_rx c = v # vs \<Longrightarrow> vote_sender PV rid [(v, ok)] = (msgs, fin) \<Longrightarrow>
     server_step E P PV k rid cap ios st
       (st\<lparr>sconns := (sconns st)[i := c\<lparr>sender_on := \<not> fin, vote_rx := vs, wire := wire c @ msgs\<rparr>]\<rparr>)"
| sender_end: "running st \<Longrightarrow> i < length (sconns st) \<Longrightarrow> c = sconns st ! i \<Longrightarrow> sender_on c \<Longrightarrow>
     vote_rx c = [] \<Longrightarrow> \<not> funnel_on c \<Longrightarrow> catch_up_at c = CuDone \<Longrightarrow>
     server_step E P PV k rid cap ios st (st\<lparr>sconns := (sconns st)[i := c\<lparr>sender_on := False\<rparr>]\<rparr>)"

inductive server_run ::
  "('sk, 'pk, 'sig) ed25519 \<Rightarrow> vote_record prost_message \<Rightarrow> vote prost_message \<Rightarrow> 'sk \<Rightarrow> u64 \<Rightarrow> nat \<Rightarrow>
     append_io set \<Rightarrow> replica_server \<Rightarrow> nat \<Rightarrow> replica_server \<Rightarrow> bool"
  for E P PV k rid cap ios st0 where
  server_start: "server_run E P PV k rid cap ios st0 0 st0"
| server_more: "server_run E P PV k rid cap ios st0 m st \<Longrightarrow> server_step E P PV k rid cap ios st st' \<Longrightarrow>
     server_run E P PV k rid cap ios st0 (Suc m) st'"

section \<open>The two services run as before\<close>

lemma server_step_node:
  assumes "server_step E P PV k rid cap ios st st'"
  shows "node st' = node st \<or> node_step E P k rid (node st) (node st')"
  using assms
proof (induction rule: server_step.induct)
  case (log_recv st txn txs n s1)
  then show ?case using node_step.lv_recv [of "node st" n s1 E P k rid txn] by simp
next
  case (log_clock st txn n now)
  then show ?case
    using node_step.lv_clock [of "node st" txn n now, where E = E and P = P and k = k and rid = rid]
      node_step.lv_clock_panic [of "node st" txn n now, where E = E and P = P and k = k and rid = rid]
    by (cases "get_current_round now") auto
next
  case (log_append st txn n t io s1 rec r)
  then show ?case using node_step.lv_append [of "node st" txn n t E P k io s1 rec r rid] by simp
next
  case (log_send st rec)
  then show ?case using node_step.lv_send [of "node st" rec E P k rid True] by simp
next
  case (heartbeat_vote st n t)
  then show ?case using node_step.hb_finish [of "node st" n t E P k rid True] by simp
qed simp_all

lemma server_run_node:
  assumes "server_run E P PV k rid cap ios st0 m st"
  shows "\<exists>m'\<le>m. node_run E P k rid (node st0) m' (node st)"
  using assms
proof induction
  case server_start
  show ?case by (intro exI [of _ 0]) (simp add: node_run.run_start)
next
  case (server_more m st st')
  then obtain m' where m': "m' \<le> m" "node_run E P k rid (node st0) m' (node st)" by blast
  from server_step_node [OF server_more.hyps(2)] show ?case
  proof
    assume "node st' = node st"
    with m' show ?thesis by (intro exI [of _ m']) simp
  next
    assume "node_step E P k rid (node st) (node st')"
    from node_run.run_step [OF m'(2) this] m'(1) show ?thesis by (intro exI [of _ "Suc m'"]) simp
  qed
qed

section \<open>Facts\<close>

lemma shuffles_snoc:
  "zs \<in> shuffles xs ys \<Longrightarrow> zs @ [z] \<in> shuffles (xs @ [z]) ys"
  "zs \<in> shuffles xs ys \<Longrightarrow> zs @ [z] \<in> shuffles xs (ys @ [z])"
proof -
  have left: "zs @ [z] \<in> shuffles (xs @ [z]) ys" if "zs \<in> shuffles xs ys" for zs xs ys
    using that
  proof (induction zs arbitrary: xs ys)
    case (Cons a zs)
    from Cons.prems consider "xs \<noteq> []" "hd xs = a" "zs \<in> shuffles (tl xs) ys"
      | "ys \<noteq> []" "hd ys = a" "zs \<in> shuffles xs (tl ys)"
      by (auto simp: Cons_in_shuffles_iff)
    then show ?case
    proof cases
      case 1
      with Cons.IH [of "tl xs" ys] show ?thesis by (simp add: Cons_in_shuffles_iff)
    next
      case 2
      from Cons.IH [OF 2(3)] 2(1,2) have "a # (zs @ [z]) \<in> shuffles (xs @ [z]) ys"
        unfolding Cons_in_shuffles_iff by blast
      then show ?thesis by simp
    qed
  qed simp
  then show "zs \<in> shuffles xs ys \<Longrightarrow> zs @ [z] \<in> shuffles (xs @ [z]) ys" .
  show "zs \<in> shuffles xs ys \<Longrightarrow> zs @ [z] \<in> shuffles xs (ys @ [z])"
    using left [of zs ys xs] shuffles_commutes by metis
qed

lemma frames_longer:
  assumes "\<forall>r\<in>set rs. frame_ok P r"
  shows "length rs \<le> length (frames P rs)"
  using assms
proof (induction rs)
  case (Cons r rs)
  moreover from Cons.prems have "frame_ok P r" by simp
  then have "4 \<le> length (frame P r)" by (rule frame_okE) simp
  ultimately show ?case by simp
qed simp

lemma logged_votes_frames:
  assumes "\<forall>r\<in>set rs. frame_ok P r"
  shows "set (logged_votes P rid meta_ok map_ok (frames P rs)) \<subseteq> vote_of_record rid ` set rs"
    and "logged_votes P rid True True (frames P rs) = map (vote_of_record rid) rs"
proof -
  have c: "fst (collect_entries P \<lparr>mmap = frames P rs, position = 0, it_file_size = n, path = p\<rparr>) = rs" for n p
    by (subst collect_frames_end [OF assms, where pre = "[]"]) simp_all
  have all: "send_while (replicate (length (frames P rs)) True) (map (vote_of_record rid) rs) = map (vote_of_record rid) rs"
    using frames_longer [OF assms] by (intro send_while_all) auto
  show "set (logged_votes P rid meta_ok map_ok (frames P rs)) \<subseteq> vote_of_record rid ` set rs"
    "logged_votes P rid True True (frames P rs) = map (vote_of_record rid) rs"
    using c all by (auto simp: logged_votes_def catch_up_def get_replica_log_iterator_def)
qed

section \<open>The invariant\<close>

definition taken :: "node_state \<Rightarrow> transaction list" where
  "taken n = (case lv n of LvTaken txn _ \<Rightarrow> [txn] | LvStamped txn _ _ \<Rightarrow> [txn] | _ \<Rightarrow> [])"

definition log_is :: "vote_record prost_message \<Rightarrow> node_state \<Rightarrow> vote_record list \<Rightarrow> bool" where
  "log_is P n rs \<longleftrightarrow> (\<forall>r\<in>set rs. frame_ok P r) \<and> \<not> poisoned (replica_log n) \<and>
     log_file (replica_log n) = frames P rs \<and> file_size (replica_log n) = word_of_nat (length (frames P rs))"

definition votes_are :: "u64 \<Rightarrow> node_state \<Rightarrow> vote_record list \<Rightarrow> bool" where
  "votes_are rid n rs \<longleftrightarrow> (\<forall>v\<in>set (broadcast n). replica_id v = rid) \<and>
     (\<exists>ss hbs. rs = ss @ unsent n \<and> broadcast n \<in> shuffles (map (vote_of_record rid) ss) hbs \<and>
       (\<forall>v\<in>set hbs. transaction v = Some \<lparr>data = HEARTBEAT\<rparr>))"

definition conn_inv :: "vote prost_message \<Rightarrow> vote set \<Rightarrow> server_conn \<Rightarrow> bool" where
  "conn_inv PV B c \<longleftrightarrow> set (vote_rx c) \<subseteq> B \<and> set_option (held c) \<subseteq> B \<and> length (vote_rx c) \<le> NODE_CHANNEL_SIZE \<and>
     (\<forall>vs. catch_up_at c = CuSending vs \<longrightarrow> set vs \<subseteq> B) \<and>
     (\<forall>b\<in>set (wire c). \<exists>v\<in>B. encode PV v = Some b)"

definition server_inv ::
  "vote_record prost_message \<Rightarrow> vote prost_message \<Rightarrow> u64 \<Rightarrow> replica_server \<Rightarrow> vote_record list \<Rightarrow> bool" where
  "server_inv P PV rid st rs \<longleftrightarrow> log_is P (node st) rs \<and> votes_are rid (node st) rs \<and>
     (lv (node st) \<noteq> LvStopped \<longrightarrow> accepted st = map (\<lambda>r. the (tx r)) rs @ taken (node st) @ write_rx st) \<and>
     (\<forall>r\<in>set rs. tx r \<in> Some ` set (accepted st)) \<and> length (write_rx st) \<le> NODE_CHANNEL_SIZE \<and>
     (\<forall>c\<in>set (sconns st). conn_inv PV (set (votes_issued rid (node st))) c)"

lemma conn_inv_more: "conn_inv PV B c \<Longrightarrow> B \<subseteq> B' \<Longrightarrow> conn_inv PV B' c"
  unfolding conn_inv_def by blast

lemma conn_inv_upd:
  assumes "server_inv P PV rid st rs" and "i < length (sconns st)" and "conn_inv PV (set (votes_issued rid (node st))) c"
  shows "server_inv P PV rid (st\<lparr>sconns := (sconns st)[i := c]\<rparr>) rs"
  using assms by (auto simp: server_inv_def dest!: subsetD [OF set_update_subset_insert])

lemma server_inv_conn:
  "server_inv P PV rid st rs \<Longrightarrow> i < length (sconns st) \<Longrightarrow> conn_inv PV (set (votes_issued rid (node st))) (sconns st ! i)"
  by (simp add: server_inv_def)

lemma server_inv_node:
  assumes "server_inv P PV rid st rs" and "replica_log n' = replica_log (node st)" and "broadcast n' = broadcast (node st)"
    and "lv n' = LvStopped \<or> (taken n' = taken (node st) \<and> lv (node st) \<noteq> LvStopped)" and "unsent n' = unsent (node st)"
  shows "server_inv P PV rid (st\<lparr>node := n'\<rparr>) rs"
  using assms by (auto simp: server_inv_def log_is_def votes_are_def votes_issued_def)

lemma log_good:
  assumes "log_is P n rs" and "frame_ok P r" and "length (frames P (rs @ [r])) < 2 ^ 64"
  shows "\<exists>l. append_entry P good_io r (replica_log n) = (Appended, l) \<and> log_is P (n\<lparr>replica_log := l\<rparr>) (rs @ [r])"
proof -
  have "unat (file_size (replica_log n)) + length (frame P r) < 2 ^ 64"
    using assms(1,3) by (simp add: log_is_def unat_of_nat)
  from append_entry_success [OF assms(2) _ _ _ _ this, of good_io] assms(1,2) show ?thesis
    by (auto simp: log_is_def good_io_def)
qed

lemma heartbeat_quiet:
  assumes "node_step E P k rid n n'" and "hb n' \<noteq> hb n" and "\<nexists>m t. hb n = HbStamped m t"
  shows "replica_log n' = replica_log n \<and> broadcast n' = broadcast n \<and> lv n' = lv n"
  using assms(1)
proof cases
  case (lv_append txn m t io s1 rec r)
  then show ?thesis using log_vote_append_frame [OF lv_append(3)] assms(2) by simp
qed (use assms(2,3) in \<open>auto simp: fetch_add_def\<close>)

text \<open>Logging a record, broadcasting its vote and broadcasting a heartbeat.\<close>

lemma votes_are_logged:
  assumes "votes_are rid n rs" and "unsent n = []" and "broadcast n' = broadcast n" and "unsent n' = [r]"
  shows "votes_are rid n' (rs @ [r])"
  using assms by (simp add: votes_are_def)

lemma votes_are_sent:
  assumes "votes_are rid n rs" and "unsent n = [r]" and "broadcast n' = broadcast n @ [vote_of_record rid r]" and "unsent n' = []"
  shows "votes_are rid n' rs"
proof -
  obtain ss hbs where hbs: "rs = ss @ [r]" "broadcast n \<in> shuffles (map (vote_of_record rid) ss) hbs"
    "\<forall>v\<in>set hbs. transaction v = Some \<lparr>data = HEARTBEAT\<rparr>" using assms(1,2) by (auto simp: votes_are_def)
  from shuffles_snoc(1) [OF hbs(2)] hbs(1) assms(3) have "broadcast n' \<in> shuffles (map (vote_of_record rid) rs) hbs" by simp
  moreover have "\<forall>v\<in>set (broadcast n'). replica_id v = rid" using assms(1,3) by (auto simp: votes_are_def)
  ultimately show ?thesis using hbs(3) assms(4) unfolding votes_are_def by auto
qed

lemma votes_are_heartbeat:
  assumes "votes_are rid n rs" and "broadcast n' = broadcast n @ [signed_vote E k rid \<lparr>data = HEARTBEAT\<rparr> t m]"
    and "unsent n' = unsent n"
  shows "votes_are rid n' rs"
proof -
  obtain ss hbs where hbs: "rs = ss @ unsent n" "broadcast n \<in> shuffles (map (vote_of_record rid) ss) hbs"
    "\<forall>v\<in>set hbs. transaction v = Some \<lparr>data = HEARTBEAT\<rparr>" using assms(1) by (auto simp: votes_are_def)
  from shuffles_snoc(2) [OF hbs(2)] assms(2)
  have "broadcast n' \<in> shuffles (map (vote_of_record rid) ss) (hbs @ [signed_vote E k rid \<lparr>data = HEARTBEAT\<rparr> t m])" by simp
  moreover have "\<forall>v\<in>set (hbs @ [signed_vote E k rid \<lparr>data = HEARTBEAT\<rparr> t m]). transaction v = Some \<lparr>data = HEARTBEAT\<rparr>"
    using hbs(3) by simp
  moreover have "\<forall>v\<in>set (broadcast n'). replica_id v = rid" using assms by (auto simp: votes_are_def)
  ultimately show ?thesis using hbs(1) assms(3) unfolding votes_are_def by metis
qed

lemma server_inv_ids: "server_inv P PV rid st rs \<Longrightarrow> v \<in> set (votes_issued rid (node st)) \<Longrightarrow> replica_id v = rid"
  by (auto simp: server_inv_def votes_are_def votes_issued_def)

lemma server_inv_logged:
  assumes "server_inv P PV rid st rs"
  shows "vote_of_record rid ` set rs \<subseteq> set (votes_issued rid (node st))"
proof -
  obtain ss hbs where "rs = ss @ unsent (node st)" "broadcast (node st) \<in> shuffles (map (vote_of_record rid) ss) hbs"
    using assms by (auto simp: server_inv_def votes_are_def)
  from this(1) set_shuffles [OF this(2)] show ?thesis by (auto simp: votes_issued_def)
qed

lemma server_inv_append:
  assumes "server_inv P PV rid st rs" and "lv (node st) = LvStamped txn n t"
    and "log_vote_append E P k txn n t good_io (node st) = (s1, rec, r)"
    and "frame_ok P (signed_record E k txn t n)"
    and "length (frames P (rs @ [signed_record E k txn t n])) < 2 ^ 64"
  shows "server_inv P PV rid (st\<lparr>node := s1\<lparr>lv := after_append rec r\<rparr>\<rparr>) (rs @ [signed_record E k txn t n])"
proof -
  let ?r = "signed_record E k txn t n"
  have "log_is P (node st) rs" using assms(1) by (simp add: server_inv_def)
  from log_good [OF this assms(4,5)] obtain l where
    l: "append_entry P good_io ?r (replica_log (node st)) = (Appended, l)" "log_is P (node st\<lparr>replica_log := l\<rparr>) (rs @ [?r])"
    by blast
  let ?n = "node st\<lparr>replica_log := l, lv := LvLogged ?r\<rparr>"
  have n: "s1\<lparr>lv := after_append rec r\<rparr> = ?n" using assms(3) l(1) by (auto simp: log_vote_append_eq)
  have "votes_are rid ?n (rs @ [?r])"
    by (rule votes_are_logged [of rid "node st"]) (use assms(1,2) in \<open>simp_all add: server_inv_def unsent_def\<close>)
  moreover have "accepted st = map (\<lambda>r. the (tx r)) rs @ txn # write_rx st"
    using assms(1,2) by (simp add: server_inv_def taken_def)
  moreover have "set (votes_issued rid (node st)) \<subseteq> set (votes_issued rid ?n)"
    using assms(2) by (auto simp: votes_issued_def unsent_def)
  then have "\<forall>c\<in>set (sconns st). conn_inv PV (set (votes_issued rid ?n)) c"
    using assms(1) conn_inv_more unfolding server_inv_def by blast
  ultimately show ?thesis
    using assms(1) l(2) unfolding n by (simp add: server_inv_def log_is_def taken_def)
qed

lemma server_inv_send:
  assumes "server_inv P PV rid st rs" and "lv (node st) = LvLogged rec"
  shows "server_inv P PV rid (st\<lparr>node := (log_vote_send rid rec True (node st))\<lparr>lv := LvIdle\<rparr>\<rparr>) rs"
proof -
  let ?n = "(log_vote_send rid rec True (node st))\<lparr>lv := LvIdle\<rparr>"
  have "votes_are rid ?n rs"
    by (rule votes_are_sent [of rid "node st" rs rec]) (use assms in \<open>simp_all add: server_inv_def unsent_def\<close>)
  moreover have "votes_issued rid ?n = votes_issued rid (node st)"
    using assms(2) by (simp add: votes_issued_def unsent_def)
  moreover have "log_is P ?n rs" "taken ?n = taken (node st)"
    using assms by (simp_all add: server_inv_def log_is_def taken_def)
  ultimately show ?thesis
    using assms unfolding server_inv_def by auto
qed

lemma server_inv_heartbeat:
  assumes "server_inv P PV rid st rs"
  shows "server_inv P PV rid (st\<lparr>node := (heartbeat_finish E k rid n t True (node st))\<lparr>hb := HbTicking\<rparr>\<rparr>) rs"
proof -
  let ?v = "signed_vote E k rid \<lparr>data = HEARTBEAT\<rparr> t n"
  let ?n = "node st\<lparr>broadcast := broadcast (node st) @ [?v], hb := HbTicking\<rparr>"
  have n': "(heartbeat_finish E k rid n t True (node st))\<lparr>hb := HbTicking\<rparr> = ?n"
    by (simp add: heartbeat_finish_eq send_vote_def)
  have "votes_are rid ?n rs"
    by (rule votes_are_heartbeat [of rid "node st" rs _ E k t n]) (use assms in \<open>simp_all add: server_inv_def unsent_def\<close>)
  moreover have "set (votes_issued rid (node st)) \<subseteq> set (votes_issued rid ?n)" by (auto simp: votes_issued_def unsent_def)
  then have "\<forall>c\<in>set (sconns st). conn_inv PV (set (votes_issued rid ?n)) c"
    using assms conn_inv_more unfolding server_inv_def by blast
  ultimately show ?thesis
    using assms unfolding n' by (simp add: server_inv_def log_is_def taken_def)
qed

lemma logged_frames:
  assumes "log_vote_append E P k txn n t good_io s = (s1, rec, r)" and "frame_ok P (signed_record E k txn t n)"
    and "\<not> poisoned (replica_log s)"
  shows "log_file (replica_log s1) = log_file (replica_log s) @ frame P (signed_record E k txn t n)"
proof -
  have "append_entry P good_io (signed_record E k txn t n) (replica_log s) = (r, replica_log s1)"
    using assms(1) by (auto simp: log_vote_append_eq split: prod.splits)
  moreover have "frame_written P good_io (signed_record E k txn t n) (replica_log s)"
    using assms(3) by (simp add: frame_written_def good_io_def)
  ultimately show ?thesis using append_entry_written(1) [OF assms(2)] by blast
qed

lemma sent_message:
  assumes "vote_sender PV rid [(v, ok)] = (msgs, fin)" and "replica_id v = rid"
  shows "set msgs \<subseteq> {b. encode PV v = Some b}"
proof -
  have "v\<lparr>replica_id := rid\<rparr> = v" using assms(2) by auto
  with assms(1) show ?thesis by (auto split: option.splits if_splits)
qed

lemma server_step_inv:
  assumes "server_step E P PV k rid cap {good_io} st st'" and "server_inv P PV rid st rs"
    and "\<forall>txn\<in>set (accepted st). \<forall>t n. frame_ok P (signed_record E k txn t n)"
    and "length (log_file (replica_log (node st'))) < 2 ^ 64"
  shows "\<exists>rs'. server_inv P PV rid st' rs'"
  using assms(1)
proof cases
  case accept
  then show ?thesis using assms(2)
    by (intro exI [of _ rs]) (auto simp: server_inv_def conn_inv_def new_server_conn_def)
next
  case accept_error
  then show ?thesis using assms(2) by (intro exI [of _ rs]) (auto simp: server_inv_def)
next
  case (client_message i item txs fin)
  let ?c = "(sconns st ! i)\<lparr>write_on := \<not> fin\<rparr>"
  have "conn_inv PV (set (votes_issued rid (node st))) ?c"
    using server_inv_conn [OF assms(2) client_message(3)] by (simp add: conn_inv_def)
  from conn_inv_upd [OF assms(2) client_message(3) this] client_message(1,6) show ?thesis
    by (intro exI [of _ rs]) (auto simp: server_inv_def)
next
  case (log_recv txn txs n s1)
  then show ?thesis using assms(2)
    by (intro exI [of _ rs])
      (auto simp: server_inv_def log_is_def votes_are_def taken_def fetch_add_def votes_issued_def unsent_def)
next
  case (log_clock txn n now)
  then show ?thesis using assms(2) unfolding log_clock(1)
    by (intro exI [of _ rs] server_inv_node) (auto simp: taken_def unsent_def split: option.split)
next
  case (log_append txn n t io s1 rec r)
  let ?r = "signed_record E k txn t n"
  have io: "io = good_io" using log_append(4) by simp
  have "txn \<in> set (accepted st)" using assms(2) log_append(3) by (simp add: server_inv_def taken_def)
  with assms(3) have ok: "frame_ok P ?r" by blast
  have "length (frames P (rs @ [?r])) < 2 ^ 64"
    using assms(2,4) log_append(1) logged_frames [OF log_append(5) [unfolded io] ok]
    by (simp add: server_inv_def log_is_def)
  from server_inv_append [OF assms(2) log_append(3) log_append(5) [unfolded io] ok this] log_append(1)
  show ?thesis by blast
next
  case (log_send rec)
  then show ?thesis using server_inv_send [OF assms(2) log_send(3)] by (intro exI [of _ rs]) simp
next
  case (heartbeat n')
  then show ?thesis using assms(2) heartbeat_quiet [OF heartbeat(3-5)] unfolding heartbeat(1)
    by (intro exI [of _ rs] server_inv_node) (auto simp: taken_def unsent_def running_def)
next
  case (heartbeat_vote n t)
  then show ?thesis using server_inv_heartbeat [OF assms(2), of E k n t] by (intro exI [of _ rs]) simp
next
  case (funnel_lag i c vs fin)
  have "conn_inv PV (set (votes_issued rid (node st))) (c\<lparr>funnel_on := \<not> fin, vote_rx := vote_rx c @ vs\<rparr>)"
    using server_inv_conn [OF assms(2) funnel_lag(3)] funnel_lag(4,8) by (auto simp: conn_inv_def)
  from conn_inv_upd [OF assms(2) funnel_lag(3) this] funnel_lag(1) show ?thesis by blast
next
  case (funnel_recv i c)
  have "broadcast (node st) ! funnel_next c \<in> set (votes_issued rid (node st))"
    using funnel_recv(7) by (simp add: votes_issued_def)
  then have "conn_inv PV (set (votes_issued rid (node st)))
      (c\<lparr>funnel_next := Suc (funnel_next c), held := Some (broadcast (node st) ! funnel_next c)\<rparr>)"
    using server_inv_conn [OF assms(2) funnel_recv(3)] funnel_recv(4) by (simp add: conn_inv_def)
  from conn_inv_upd [OF assms(2) funnel_recv(3) this] funnel_recv(1) show ?thesis by blast
next
  case (funnel_send i c v vs fin)
  have "set vs \<subseteq> {v}" using funnel_send(7) by (auto split: if_splits)
  then have "conn_inv PV (set (votes_issued rid (node st))) (c\<lparr>held := None, funnel_on := \<not> fin, vote_rx := vote_rx c @ vs\<rparr>)"
    using server_inv_conn [OF assms(2) funnel_send(3)] funnel_send(4,6,8) by (auto simp: conn_inv_def)
  from conn_inv_upd [OF assms(2) funnel_send(3) this] funnel_send(1) show ?thesis by blast
next
  case (catch_up_start i c meta_ok map_ok)
  have log: "\<forall>r\<in>set rs. frame_ok P r" "log_file (replica_log (node st)) = frames P rs"
    "vote_of_record rid ` set rs \<subseteq> set (votes_issued rid (node st))"
    using assms(2) server_inv_logged [OF assms(2)] by (simp_all add: server_inv_def log_is_def)
  have "conn_inv PV (set (votes_issued rid (node st))) (c\<lparr>catch_up_at :=
      CuSending (logged_votes P rid meta_ok map_ok (log_file (replica_log (node st))))\<rparr>)"
    using server_inv_conn [OF assms(2) catch_up_start(3)] catch_up_start(4)
      order_trans [OF logged_votes_frames(1) [OF log(1)] log(3)] log(2) by (simp add: conn_inv_def)
  from conn_inv_upd [OF assms(2) catch_up_start(3) this] catch_up_start(1) show ?thesis by blast
next
  case (catch_up_send i c v vs)
  have "conn_inv PV (set (votes_issued rid (node st))) (c\<lparr>catch_up_at := CuSending vs, vote_rx := vote_rx c @ [v]\<rparr>)"
    using server_inv_conn [OF assms(2) catch_up_send(3)] catch_up_send(4-7) by (simp add: conn_inv_def)
  from conn_inv_upd [OF assms(2) catch_up_send(3) this] catch_up_send(1) show ?thesis by blast
next
  case (catch_up_end i c vs)
  have "conn_inv PV (set (votes_issued rid (node st))) (c\<lparr>catch_up_at := CuDone\<rparr>)"
    using server_inv_conn [OF assms(2) catch_up_end(3)] catch_up_end(4) by (simp add: conn_inv_def)
  from conn_inv_upd [OF assms(2) catch_up_end(3) this] catch_up_end(1) show ?thesis by blast
next
  case (send_vote_message i c v vs ok msgs fin)
  have c: "conn_inv PV (set (votes_issued rid (node st))) c" using server_inv_conn [OF assms(2) send_vote_message(3)] send_vote_message(4) by simp
  then have v: "v \<in> set (votes_issued rid (node st))" using send_vote_message(6) by (simp add: conn_inv_def)
  then have "replica_id v = rid" by (rule server_inv_ids [OF assms(2)])
  from sent_message [OF send_vote_message(7) this] v
  have "conn_inv PV (set (votes_issued rid (node st))) (c\<lparr>sender_on := \<not> fin, vote_rx := vs, wire := wire c @ msgs\<rparr>)"
    using c send_vote_message(6) unfolding conn_inv_def by auto
  from conn_inv_upd [OF assms(2) send_vote_message(3) this] send_vote_message(1) show ?thesis by blast
next
  case (sender_end i c)
  have "conn_inv PV (set (votes_issued rid (node st))) (c\<lparr>sender_on := False\<rparr>)"
    using server_inv_conn [OF assms(2) sender_end(3)] sender_end(4) by (simp add: conn_inv_def)
  from conn_inv_upd [OF assms(2) sender_end(3) this] sender_end(1) show ?thesis by blast
qed

lemma server_step_grows:
  assumes "server_step E P PV k rid cap ios st st'"
  shows "set (accepted st) \<subseteq> set (accepted st') \<and>
    length (log_file (replica_log (node st))) \<le> length (log_file (replica_log (node st')))"
  using assms
proof cases
  case (log_recv txn txs n s1)
  then show ?thesis by (auto simp: fetch_add_def)
next
  case (log_append txn n t io s1 rec r)
  obtain res l where a: "append_entry P io (signed_record E k txn t n) (replica_log (node st)) = (res, l)" by fastforce
  have "length (log_file (replica_log (node st))) \<le> length (log_file l)" using append_entry_file [OF a] by auto
  moreover have "replica_log s1 = l" using log_append(5) a by (auto simp: log_vote_append_eq)
  ultimately show ?thesis using log_append(1) by simp
next
  case (heartbeat n')
  then show ?thesis using heartbeat_quiet [OF heartbeat(3-5)] by simp
qed (auto simp: heartbeat_finish_eq)

lemma server_run_inv:
  assumes "server_run E P PV k rid cap {good_io} st0 m st" and "server_inv P PV rid st0 []"
    and "\<forall>txn\<in>set (accepted st). \<forall>t n. frame_ok P (signed_record E k txn t n)"
    and "length (log_file (replica_log (node st))) < 2 ^ 64"
  shows "\<exists>rs. server_inv P PV rid st rs"
  using assms
proof induction
  case (server_more m st st')
  note grows = server_step_grows [OF server_more.hyps(2)]
  from server_more grows obtain rs where rs: "server_inv P PV rid st rs" by fastforce
  show ?case
    by (rule server_step_inv [OF server_more.hyps(2) rs]) (use server_more.prems(2,3) grows in auto)
qed blast

lemma start_replica_inv:
  assumes "start_replica H K private_key open_ok meta_ok None bind_ok = Inr (k, st0)"
  shows "server_inv P PV rid st0 []" "node_inv E k' rid (node st0)" "nextsn (node st0) = 0"
  using assms
  by (auto simp: start_replica_def init_pod_network_node_def open_log_def server_inv_def log_is_def votes_are_def
      taken_def node_inv_defs split: sum.splits if_splits)

section \<open>A run of a replica\<close>

definition server_vote_message :: "vote prost_message" where
  "server_vote_message = \<lparr>encode = (\<lambda>v. Some [word_of_nat (unat (sequence_number v))]),
     merge = (\<lambda>m _. Some m), default_msg = default_vote, decode = (\<lambda>_. None)\<rparr>"

abbreviation demo_private_key :: string where
  "demo_private_key \<equiv> hex_encode demo_hex (sk_to_bytes demo_keys 9)"

definition server_start_state :: replica_server where
  "server_start_state = \<lparr>node = race_start, write_rx = [], accepted = [], sconns = [], accepting = True\<rparr>"

definition served_vote :: vote where
  "served_vote = signed_vote demo_ed25519 9 3 \<lparr>data = [1]\<rparr> 10 0"

definition served_log :: replica_log_appender where
  "served_log = snd (append_entry demo_record_message good_io (signed_record demo_ed25519 9 \<lparr>data = [1]\<rparr> 10 0)
     (replica_log race_start))"

definition server_end_state :: replica_server where
  "server_end_state = server_start_state\<lparr>
     node := race_start\<lparr>nextsn := 1, replica_log := served_log, broadcast := [served_vote]\<rparr>,
     accepted := [\<lparr>data = [1]\<rparr>],
     sconns := [(new_server_conn 0)\<lparr>funnel_next := 1, wire := [[0]]\<rparr>]\<rparr>"

lemma demo_server_start: "start_replica demo_hex demo_keys demo_private_key True True None True = Inr (9, server_start_state)"
  using demo_hex_ok demo_keys_ok
  by (simp add: start_replica_def parse_private_key_def hex_ok_def key_bytes_ok_def init_pod_network_node_def
      open_log_def race_start_def server_start_state_def Let_def)

lemma served_log_facts:
  "append_entry demo_record_message good_io (signed_record demo_ed25519 9 \<lparr>data = [1]\<rparr> 10 0) (replica_log race_start) =
     (Appended, served_log)"
  "length (log_file served_log) = 85"
  by (simp_all add: served_log_def race_start_def append_entry_def demo_record_message_def signed_record_def
      good_io_def demo_ed25519_def checked_add_def)

lemma demo_server_run:
  "server_run demo_ed25519 demo_record_message server_vote_message 9 3 128 {good_io} server_start_state 9 server_end_state"
proof -
  let ?step = "server_step demo_ed25519 demo_record_message server_vote_message 9 3 128 {good_io}"
  let ?t = "\<lparr>data = [1]\<rparr> :: transaction"
  let ?s1 = "server_start_state\<lparr>sconns := [new_server_conn 0]\<rparr>"
  let ?s2 = "?s1\<lparr>write_rx := [?t], accepted := [?t]\<rparr>"
  let ?s3 = "?s2\<lparr>node := race_start\<lparr>nextsn := 1, lv := LvTaken ?t 0\<rparr>, write_rx := []\<rparr>"
  let ?s4 = "?s3\<lparr>node := race_start\<lparr>nextsn := 1, lv := LvStamped ?t 0 10\<rparr>\<rparr>"
  let ?n = "race_start\<lparr>nextsn := 1, replica_log := served_log, broadcast := [served_vote]\<rparr>"
  let ?r = "signed_record demo_ed25519 9 ?t 10 0"
  let ?logged = "?s4\<lparr>node := race_start\<lparr>nextsn := 1, replica_log := served_log, lv := LvLogged ?r\<rparr>\<rparr>"
  let ?s5 = "?s4\<lparr>node := ?n\<rparr>"
  let ?held = "?s5\<lparr>sconns := [(new_server_conn 0)\<lparr>funnel_next := 1, held := Some served_vote\<rparr>]\<rparr>"
  let ?s6 = "?s5\<lparr>sconns := [(new_server_conn 0)\<lparr>funnel_next := 1, vote_rx := [served_vote]\<rparr>]\<rparr>"
  note defs = server_start_state_def race_start_def running_def new_server_conn_def NODE_CHANNEL_SIZE_def
  have 1: "?step server_start_state ?s1" using accept [of server_start_state] by (simp add: defs)
  have 2: "?step ?s1 ?s2"
    using client_message [of ?s1 0 "WsMessage (Binary [1])" "[?t]" False] by (simp add: defs)
  have 3: "?step ?s2 ?s3"
    using log_recv [of ?s2 ?t "[]" 0 "race_start\<lparr>nextsn := 1\<rparr>"] by (simp add: defs fetch_add_def)
  have 4: "?step ?s3 ?s4"
    using log_clock [of ?s3 ?t 0 demo_ed25519 demo_record_message server_vote_message 9 3 128 "{good_io}" "Some 1050"]
    by (simp add: defs get_current_round_def ROUND_SIZE_MS_def)
  have "log_vote_append demo_ed25519 demo_record_message 9 ?t 0 10 good_io (node ?s4) =
      ((node ?s4)\<lparr>replica_log := served_log\<rparr>, ?r, Appended)"
    using served_log_facts(1) by (simp add: log_vote_append_eq race_start_def)
  from log_append [OF _ _ _ this, of "{good_io}" server_vote_message 3 128]
  have 5: "?step ?s4 ?logged" by (simp add: defs)
  have send: "?step ?logged ?s5"
    using log_send [of ?logged ?r] by (simp add: defs log_vote_send_eq send_vote_def served_vote_def signed_vote_def)
  have 6: "?step ?s5 ?held"
    using funnel_recv [of ?s5 0 "new_server_conn 0" 128] by (simp add: defs)
  have put: "?step ?held ?s6"
    using funnel_send [of ?held 0 "(new_server_conn 0)\<lparr>funnel_next := 1, held := Some served_vote\<rparr>" served_vote "[served_vote]" False]
    by (simp add: defs)
  have 7: "?step ?s6 server_end_state"
    using send_vote_message [of ?s6 0 "(new_server_conn 0)\<lparr>funnel_next := 1, vote_rx := [served_vote]\<rparr>" served_vote "[]"
        server_vote_message 3 True "[[0]]" False]
    by (simp add: defs server_end_state_def server_vote_message_def served_vote_def)
  note runs = server_more [OF server_more [OF server_more [OF server_more [OF server_more [OF server_more
    [OF server_more [OF server_more [OF server_more [OF server_start 1] 2] 3] 4] 5] send] 6] put] 7]
  show ?thesis using runs by (simp add: numeral_eq_Suc)
qed

lemma demo_frames: "\<forall>txn\<in>set [\<lparr>data = [1]\<rparr>]. \<forall>t n. frame_ok demo_record_message (signed_record demo_ed25519 9 txn t n)"
  by (auto intro!: demo_record_frame_ok simp: signed_record_def demo_ed25519_def)

section \<open>Properties\<close>

text \<open>
  C7. A replica that starts with an empty log, and whose disk does not fail, logs every
  transaction it accepted from any client exactly once and in the order in which it accepted them,
  except the one its log service is working on and at most a hundred that wait; and what it
  broadcasts is exactly the votes for the logged transactions, in the order of the log, with
  heartbeats in between; only the vote for a transaction it has just logged is still to come.
\<close>

theorem replica_logs_and_votes_in_order:
  assumes "start_replica H K private_key open_ok meta_ok None bind_ok = Inr (k, st0)"
    and "server_run E P PV k rid cap {good_io} st0 m st" and "lv (node st) \<noteq> LvStopped"
    and "\<forall>txn\<in>set (accepted st). \<forall>t n. frame_ok P (signed_record E k txn t n)"
    and "length (log_file (replica_log (node st))) < 2 ^ 64"
  shows "\<exists>rs ss hbs. read_log P (log_file (replica_log (node st))) = (rs, None) \<and>
    accepted st = map (\<lambda>r. the (tx r)) rs @ taken (node st) @ write_rx st \<and> length (write_rx st) \<le> 100 \<and>
    rs = ss @ unsent (node st) \<and> broadcast (node st) \<in> shuffles (map (vote_of_record rid) ss) hbs \<and>
    (\<forall>v\<in>set hbs. transaction v = Some \<lparr>data = HEARTBEAT\<rparr>)"
proof -
  obtain rs where rs: "server_inv P PV rid st rs"
    using server_run_inv [OF assms(2) start_replica_inv(1) [OF assms(1)] assms(4,5)] by blast
  then have "read_log P (log_file (replica_log (node st))) = (rs, None)"
    by (simp add: server_inv_def log_is_def read_log_frames)
  with rs assms(3) show ?thesis unfolding server_inv_def votes_are_def NODE_CHANNEL_SIZE_def by blast
qed

theorem replica_logs_and_votes_in_order_witness:
  "\<exists>rs. read_log demo_record_message (log_file served_log) = (rs, None) \<and> map (\<lambda>r. the (tx r)) rs = [\<lparr>data = [1]\<rparr>]"
proof -
  have "\<exists>rs ss hbs. read_log demo_record_message (log_file (replica_log (node server_end_state))) = (rs, None) \<and>
    accepted server_end_state = map (\<lambda>r. the (tx r)) rs @ taken (node server_end_state) @ write_rx server_end_state \<and>
    length (write_rx server_end_state) \<le> 100 \<and>
    rs = ss @ unsent (node server_end_state) \<and> broadcast (node server_end_state) \<in> shuffles (map (vote_of_record 3) ss) hbs \<and>
    (\<forall>v\<in>set hbs. transaction v = Some \<lparr>data = HEARTBEAT\<rparr>)"
    by (rule replica_logs_and_votes_in_order [OF demo_server_start demo_server_run])
      (use demo_frames served_log_facts(2) in \<open>simp_all add: server_end_state_def race_start_def\<close>)
  then show ?thesis by (auto simp: server_end_state_def server_start_state_def race_start_def taken_def)
qed

text \<open>
  C18. Let a replica start with an empty log, and let its disk not fail. Whatever a connection then
  sends to its client, live or from the log, is the encoding of a vote that this replica cast under
  its own id and signature: one it has broadcast or, since the log may be read first, one it has
  logged and broadcasts next. No two votes of the replica carry the same number (within the first
  \<open>2^64\<close> steps), and no more than a hundred votes wait in a connection.
\<close>

theorem connections_relay_own_votes:
  assumes "start_replica H K private_key open_ok meta_ok None bind_ok = Inr (k, st0)"
    and "server_run E P PV k rid cap {good_io} st0 m st" and "m < 2 ^ 64"
    and "\<forall>txn\<in>set (accepted st). \<forall>t n. frame_ok P (signed_record E k txn t n)"
    and "length (log_file (replica_log (node st))) < 2 ^ 64" and "c \<in> set (sconns st)"
  shows "(\<forall>b\<in>set (wire c). \<exists>v\<in>set (broadcast (node st) @ map (vote_of_record rid) (unsent (node st))).
      encode PV v = Some b \<and> own_vote E k rid v) \<and>
    distinct (map sequence_number (broadcast (node st) @ map (vote_of_record rid) (unsent (node st)))) \<and>
    length (vote_rx c) \<le> 100"
proof -
  obtain rs where "server_inv P PV rid st rs"
    using server_run_inv [OF assms(2) start_replica_inv(1) [OF assms(1)] assms(4,5)] by blast
  then have c: "conn_inv PV (set (votes_issued rid (node st))) c" using assms(6) by (simp add: server_inv_def)
  obtain m' where m': "m' \<le> m" "node_run E P k rid (node st0) m' (node st)" using server_run_node [OF assms(2)] by blast
  then have inv: "node_inv E k rid (node st)"
    using node_run_inv [OF m'(2) start_replica_inv(2,3) [OF assms(1)]] assms(3) by simp
  then have "\<forall>v\<in>set (votes_issued rid (node st)). own_vote E k rid v" by (simp add: node_inv_def)
  with c node_inv_issued [OF inv] show ?thesis
    unfolding conn_inv_def NODE_CHANNEL_SIZE_def votes_issued_def by blast
qed

theorem connections_relay_own_votes_witness:
  "\<exists>v\<in>set (broadcast (node server_end_state)). encode server_vote_message v = Some [0] \<and> own_vote demo_ed25519 9 3 v"
proof -
  have "hd (sconns server_end_state) \<in> set (sconns server_end_state)" "[0] \<in> set (wire (hd (sconns server_end_state)))"
    by (simp_all add: server_end_state_def)
  moreover have "length (log_file (replica_log (node server_end_state))) < 2 ^ 64"
    "\<forall>txn\<in>set (accepted server_end_state). \<forall>t n. frame_ok demo_record_message (signed_record demo_ed25519 9 txn t n)"
    using demo_frames served_log_facts(2) by (simp_all add: server_end_state_def)
  ultimately show ?thesis
    using connections_relay_own_votes [OF demo_server_start demo_server_run, of "hd (sconns server_end_state)"]
    by (simp add: server_end_state_def race_start_def unsent_def)
qed

end
