(* ===== verification/ClientNode.thy ===== *)
theory ClientNode
  imports ReplicaComms ApiTheorems
begin

text \<open>
  A whole client (\<open>client/src/pod_network_client.rs\<close>): the API, the vote handler and one
  connection task per configured replica, around a broadcast channel of write requests and a
  bounded channel of votes. Reads change nothing and are left out here. A step is one API call,
  one iteration of a connection's loop or one vote handled; the tasks run concurrently, so the
  steps interleave in any order. A connection that waits for room in the vote channel is one
  whose step is not enabled. The client ends with the first of the three services that ends.
\<close>

section \<open>State\<close>

definition CHANNEL_SIZE :: nat where
  "CHANNEL_SIZE = 100"

datatype conn_phase = Connecting | Open | Ended task_result

text \<open>
  One connection task: where it is, the position in the sequence of write requests where it
  subscribed and the one it reads next, whether \<open>recv()\<close> has failed in this iteration of its loop,
  so that \<open>select!\<close> polls only the WebSocket, and what it passed on in both directions. \<open>arrived\<close> is
  the history of its WebSocket: the binary messages that came out of it, whatever became of them.
\<close>

record conn =
  phase :: conn_phase
  joined :: nat
  next_write :: nat
  write_branch_off :: bool
  comms :: comms_state
  arrived :: "bytes list"

datatype client_end = ApiEnded bool | UpdaterEnded updater_error | CommsEnded bool

text \<open>\<open>handled\<close> is the history of the vote channel: the votes taken from it so far.\<close>

record 'pk client_node =
  view :: "'pk client_state"
  writes :: "transaction list"
  queue :: "vote list"
  handled :: "vote list"
  conns :: "conn list"
  ended :: "client_end option"

definition new_conn :: conn where
  "new_conn = \<lparr>phase = Connecting, joined = 0, next_write = 0, write_branch_off = False,
     comms = \<lparr>to_replica = [], to_updater = []\<rparr>, arrived = []\<rparr>"

definition init_pod_network_client :: "'pk replica list \<Rightarrow> 'pk client_node" where
  "init_pod_network_client rs = \<lparr>view = init_client_state rs, writes = [], queue = [], handled = [],
     conns = map (\<lambda>_. new_conn) rs, ended = None\<rparr>"

section \<open>Operations\<close>

text \<open>
  The receivers of the broadcast channel: the one \<open>start_replica_comms_service\<close> was given and keeps,
  the copy of each task, and the one a task takes when it is connected.
\<close>

definition receiver_count :: "'pk client_node \<Rightarrow> nat" where
  "receiver_count st =
     1 + sum_list (map (\<lambda>c. case phase c of Connecting \<Rightarrow> 1 | Open \<Rightarrow> 2 | Ended _ \<Rightarrow> 0) (conns st))"

text \<open>
  \<open>recv()\<close> on the broadcast channel, which keeps the last \<open>cap\<close> values: nothing yet, an error for a
  receiver that is too far behind, which then goes on with the oldest value kept, or a value.
\<close>

definition recv_write :: "nat \<Rightarrow> transaction list \<Rightarrow> conn \<Rightarrow> (transaction option \<times> conn) option" where
  "recv_write cap ws c =
     (if length ws \<le> next_write c then None
      else if next_write c + cap < length ws
           then Some (None, c\<lparr>next_write := length ws - cap, write_branch_off := True\<rparr>)
      else Some (Some (ws ! next_write c), c\<lparr>next_write := Suc (next_write c)\<rparr>))"

text \<open>A connection attempt that succeeds subscribes to what is written from now on.\<close>

definition connected :: "transaction list \<Rightarrow> connect_result \<Rightarrow> conn \<Rightarrow> conn" where
  "connected ws r c =
     (case r of
        Stream \<Rightarrow> c\<lparr>phase := Open, joined := length ws, next_write := length ws\<rparr>
      | _ \<Rightarrow> c\<lparr>phase := Ended TaskErr\<rparr>)"

definition conn_event :: "vote prost_message \<Rightarrow> comms_event \<Rightarrow> conn \<Rightarrow> conn" where
  "conn_event P ev c =
     (let (s, e) = comms_body P (comms c) ev in
      c\<lparr>comms := s, write_branch_off := False,
        phase := (case e of None \<Rightarrow> Open | Some CommsClosed \<Rightarrow> Ended TaskOk | Some _ \<Rightarrow> Ended TaskErr)\<rparr>)"

text \<open>An item of the WebSocket in the history of the connection.\<close>

definition arrives :: "ws_item \<Rightarrow> conn \<Rightarrow> conn" where
  "arrives item c = c\<lparr>arrived := arrived c @ (case item of WsMessage (Binary b) \<Rightarrow> [b] | _ \<Rightarrow> [])\<rparr>"

text \<open>The votes an iteration put into the channel.\<close>

definition forwarded :: "conn \<Rightarrow> conn \<Rightarrow> vote list" where
  "forwarded c c' = drop (length (to_updater (comms c))) (to_updater (comms c'))"

inductive client_step ::
  "('sk, 'pk, 'sig) ed25519 \<Rightarrow> vote prost_message \<Rightarrow> nat \<Rightarrow> 'pk client_node \<Rightarrow> 'pk client_node \<Rightarrow> bool"
  for E P cap where
  api_write: "ended st = None \<Longrightarrow>
     write_tx request \<lparr>receivers = receiver_count st, sent = writes st\<rparr> = (ch, reply) \<Longrightarrow>
     client_step E P cap st (st\<lparr>writes := sent ch\<rparr>)"
| conn_start: "ended st = None \<Longrightarrow> i < length (conns st) \<Longrightarrow> phase (conns st ! i) = Connecting \<Longrightarrow>
     connect_to_replica outcome = (r, attempts) \<Longrightarrow>
     client_step E P cap st (st\<lparr>conns := (conns st)[i := connected (writes st) r (conns st ! i)]\<rparr>)"
| conn_write: "ended st = None \<Longrightarrow> i < length (conns st) \<Longrightarrow> phase (conns st ! i) = Open \<Longrightarrow>
     \<not> write_branch_off (conns st ! i) \<Longrightarrow> recv_write cap (writes st) (conns st ! i) = Some (Some txn, c) \<Longrightarrow>
     client_step E P cap st (st\<lparr>conns := (conns st)[i := conn_event P (WriteRequest txn sent_ok) c]\<rparr>)"
| conn_lagged: "ended st = None \<Longrightarrow> i < length (conns st) \<Longrightarrow> phase (conns st ! i) = Open \<Longrightarrow>
     \<not> write_branch_off (conns st ! i) \<Longrightarrow> recv_write cap (writes st) (conns st ! i) = Some (None, c) \<Longrightarrow>
     client_step E P cap st (st\<lparr>conns := (conns st)[i := c]\<rparr>)"
| conn_incoming: "ended st = None \<Longrightarrow> i < length (conns st) \<Longrightarrow> phase (conns st ! i) = Open \<Longrightarrow>
     c = conn_event P (Incoming item True) (arrives item (conns st ! i)) \<Longrightarrow>
     length (queue st @ forwarded (conns st ! i) c) \<le> CHANNEL_SIZE \<Longrightarrow>
     client_step E P cap st
       (st\<lparr>conns := (conns st)[i := c], queue := queue st @ forwarded (conns st ! i) c\<rparr>)"
| updater: "ended st = None \<Longrightarrow> queue st = v # vs \<Longrightarrow> handle_vote E (view st) v = (s', e) \<Longrightarrow>
     client_step E P cap st
       (st\<lparr>view := s', queue := vs, handled := handled st @ [v], ended := map_option UpdaterEnded e\<rparr>)"
| comms_end: "ended st = None \<Longrightarrow> map phase (conns st) = map Ended results \<Longrightarrow>
     client_step E P cap st (st\<lparr>ended := Some (CommsEnded (process_connection_results results))\<rparr>)"
| api_end: "ended st = None \<Longrightarrow> client_step E P cap st (st\<lparr>ended := Some (ApiEnded ok)\<rparr>)"

abbreviation client_run ::
  "('sk, 'pk, 'sig) ed25519 \<Rightarrow> vote prost_message \<Rightarrow> nat \<Rightarrow> 'pk client_node \<Rightarrow> 'pk client_node \<Rightarrow> bool" where
  "client_run E P cap \<equiv> (client_step E P cap)\<^sup>*\<^sup>*"

section \<open>One iteration of a connection\<close>

lemma arrives_frame [simp]:
  "phase (arrives item c) = phase c" "joined (arrives item c) = joined c" "next_write (arrives item c) = next_write c"
  "write_branch_off (arrives item c) = write_branch_off c" "comms (arrives item c) = comms c"
  "forwarded (arrives item c) c' = forwarded c c'"
  by (simp_all add: arrives_def forwarded_def)

lemma conn_event_write [simp]:
  "comms (conn_event P (WriteRequest txn ok) c) =
     (comms c)\<lparr>to_replica := to_replica (comms c) @ (if ok then [data txn] else [])\<rparr>"
  "phase (conn_event P (WriteRequest txn ok) c) = (if ok then Open else Ended TaskErr)"
  by (simp_all add: conn_event_def comms_body_def)

lemma conn_event_incoming:
  "\<exists>vs. comms (conn_event P (Incoming item ok) c) = (comms c)\<lparr>to_updater := to_updater (comms c) @ vs\<rparr> \<and> length vs \<le> 1"
  by (auto simp: conn_event_def comms_body_def Let_def
      split: ws_item.splits ws_message.splits option.splits intro: exI [of _ "[]"])

lemma conn_event_frame [simp]:
  "joined (conn_event P ev c) = joined c" "next_write (conn_event P ev c) = next_write c"
  "phase (conn_event P ev c) \<noteq> Connecting" "\<not> write_branch_off (conn_event P ev c)"
  by (auto simp: conn_event_def Let_def split: prod.splits option.splits comms_exit.splits)

lemma conn_event_votes:
  "to_updater (comms (conn_event P (Incoming item ok) c)) =
     to_updater (comms c) @ forwarded c (conn_event P (Incoming item ok) c)"
  "length (forwarded c (conn_event P (Incoming item ok) c)) \<le> 1"
  "to_replica (comms (conn_event P (Incoming item ok) c)) = to_replica (comms c)"
  using conn_event_incoming [of P item ok c] by (auto simp: forwarded_def)

lemma write_accepted:
  "write_tx request \<lparr>receivers = receiver_count st, sent = ws\<rparr> =
     (case request of None \<Rightarrow> (\<lparr>receivers = receiver_count st, sent = ws\<rparr>, Inl NoTransactionData)
      | Some txn \<Rightarrow> (\<lparr>receivers = receiver_count st, sent = ws @ [txn]\<rparr>, Inr True))"
  by (simp add: write_tx_def receiver_count_def split: option.split)

lemma api_write_step: "ended st = None \<Longrightarrow> client_step E P cap st (st\<lparr>writes := writes st @ [txn]\<rparr>)"
  using api_write [of st "Some txn" "\<lparr>receivers = receiver_count st, sent = writes st @ [txn]\<rparr>" "Inr True" E P cap]
  by (simp add: write_accepted)

section \<open>Interleavings\<close>

text \<open>A channel that several senders feed: each of them sees its own values in its own order.\<close>

inductive interleaves :: "'a list list \<Rightarrow> 'a list \<Rightarrow> bool" where
  none: "\<forall>xs\<in>set xss. xs = [] \<Longrightarrow> interleaves xss []"
| send: "interleaves xss zs \<Longrightarrow> i < length xss \<Longrightarrow> interleaves (xss[i := xss ! i @ [z]]) (zs @ [z])"

lemma interleaves_sends:
  "interleaves xss zs \<Longrightarrow> i < length xss \<Longrightarrow> interleaves (xss[i := xss ! i @ ys]) (zs @ ys)"
proof (induction ys rule: rev_induct)
  case (snoc y ys)
  then show ?case using interleaves.send [OF snoc.IH [OF snoc.prems], of i y] by simp
qed simp

lemma sum_mset_update:
  "i < length xss \<Longrightarrow> sum_list (map mset (xss[i := xss ! i @ ys])) = sum_list (map mset xss) + mset ys"
  by (induction xss arbitrary: i) (auto split: nat.split)

lemma interleaves_mset: "interleaves xss zs \<Longrightarrow> mset zs = sum_list (map mset xss)"
proof (induction rule: interleaves.induct)
  case (none xss)
  then show ?case by (induction xss) simp_all
next
  case (send xss zs i z)
  then show ?case by (simp add: sum_mset_update)
qed

section \<open>The invariant\<close>

text \<open>
  What a connection sent: requests written since it subscribed and up to the one it reads next, in
  order, all of them while no more than \<open>cap\<close> have been written since.
\<close>

definition conn_ok :: "nat \<Rightarrow> transaction list \<Rightarrow> conn \<Rightarrow> bool" where
  "conn_ok cap ws c \<longleftrightarrow> joined c \<le> next_write c \<and> next_write c \<le> length ws \<and>
     (phase c = Connecting \<longrightarrow> comms c = \<lparr>to_replica = [], to_updater = []\<rparr> \<and> \<not> write_branch_off c) \<and>
     subseq (to_replica (comms c)) (map data (drop (joined c) (take (next_write c) ws))) \<and>
     (phase c = Open \<longrightarrow> length ws \<le> joined c + cap \<longrightarrow> \<not> write_branch_off c \<and>
        to_replica (comms c) = map data (drop (joined c) (take (next_write c) ws)))"

definition client_node_inv ::
  "('sk, 'pk, 'sig) ed25519 \<Rightarrow> nat \<Rightarrow> 'pk replica list \<Rightarrow> 'pk client_node \<Rightarrow> bool" where
  "client_node_inv E cap rs st \<longleftrightarrow>
     start_pod_data_updater E (init_client_state rs) (handled st) =
       (view st, case ended st of Some (UpdaterEnded e) \<Rightarrow> Some e | _ \<Rightarrow> None) \<and>
     length (queue st) \<le> CHANNEL_SIZE \<and> length (conns st) = length rs \<and>
     interleaves (map (\<lambda>c. to_updater (comms c)) (conns st)) (handled st @ queue st) \<and>
     (\<forall>c\<in>set (conns st). conn_ok cap (writes st) c)"

lemma conn_ok_arrives [simp]: "conn_ok cap ws (arrives item c) = conn_ok cap ws c"
  by (simp add: conn_ok_def)

lemma conn_ok_more:
  assumes "conn_ok cap ws c"
  shows "conn_ok cap (ws @ ws') c"
  using assms by (auto simp: conn_ok_def)

lemma conn_ok_connected:
  assumes "conn_ok cap ws c" and "phase c = Connecting"
  shows "conn_ok cap ws (connected ws r c)"
  using assms by (auto simp: conn_ok_def connected_def split: connect_result.split)

lemma drop_take_Suc:
  "j \<le> n \<Longrightarrow> n < length ws \<Longrightarrow> drop j (take (Suc n) ws) = drop j (take n ws) @ [ws ! n]"
  by (simp add: take_Suc_conv_app_nth)

lemma conn_ok_write:
  assumes "conn_ok cap ws c" and "phase c = Open" and "recv_write cap ws c = Some (Some txn, c')"
  shows "conn_ok cap ws (conn_event P (WriteRequest txn ok) c')"
proof -
  have c': "next_write c < length ws" "txn = ws ! next_write c" "c' = c\<lparr>next_write := Suc (next_write c)\<rparr>"
    using assms(3) by (auto simp: recv_write_def split: if_splits)
  have "subseq (to_replica (comms c)) (map data (drop (joined c) (take (next_write c) ws)) @ [data txn])"
    using assms(1) by (auto simp: conn_ok_def intro: subseq_order.trans [OF _ prefix_imp_subseq])
  with assms(1,2) c' show ?thesis
    using drop_take_Suc [of "joined c" "next_write c" ws] by (auto simp: conn_ok_def intro: list_emb_append_mono)
qed

lemma subseq_drop_take:
  "j \<le> m \<Longrightarrow> m \<le> n \<Longrightarrow> subseq (drop j (take m ws)) (drop j (take n ws))"
  by (metis append_take_drop_id drop_append prefix_imp_subseq prefixI take_take min.absorb1 drop_take le_add_diff_inverse take_add)

lemma conn_ok_lagged:
  assumes "conn_ok cap ws c" and "phase c = Open" and "recv_write cap ws c = Some (None, c')"
  shows "conn_ok cap ws c'"
proof -
  have c': "next_write c + cap < length ws" "c' = c\<lparr>next_write := length ws - cap, write_branch_off := True\<rparr>"
    using assms(3) by (auto simp: recv_write_def split: if_splits)
  have "subseq (map data (drop (joined c) (take (next_write c) ws))) (map data (drop (joined c) (take (length ws - cap) ws)))"
    using assms(1) c'(1) by (intro subseq_map subseq_drop_take) (auto simp: conn_ok_def)
  with assms(1,2) c' show ?thesis by (auto simp: conn_ok_def intro: subseq_order.trans)
qed

lemma conn_ok_incoming:
  assumes "conn_ok cap ws c" and "phase c = Open"
  shows "conn_ok cap ws (conn_event P (Incoming item ok) c)"
  using assms by (simp add: conn_ok_def conn_event_votes)

lemma map_update_same: "i < length xs \<Longrightarrow> f x = f (xs ! i) \<Longrightarrow> map f (xs[i := x]) = map f xs"
  by (metis map_update list_update_id nth_map)

lemma init_node_inv: "client_node_inv E cap rs (init_pod_network_client rs)"
  by (auto simp: client_node_inv_def init_pod_network_client_def init_start conn_ok_def new_conn_def CHANNEL_SIZE_def
      intro!: interleaves.none)

lemma client_step_inv:
  assumes "client_step E P cap st st'" and "client_node_inv E cap rs st"
  shows "client_node_inv E cap rs st'"
  using assms
proof (induction rule: client_step.induct)
  case (api_write st request ch reply)
  then show ?case
    by (auto simp: client_node_inv_def write_accepted conn_ok_more split: option.splits)
next
  case (conn_start st i outcome r attempts)
  have "to_updater (comms (connected (writes st) r (conns st ! i))) = to_updater (comms (conns st ! i))"
    by (simp add: connected_def split: connect_result.split)
  with conn_start show ?case
    by (auto simp: client_node_inv_def map_update_same dest!: subsetD [OF set_update_subset_insert]
        intro: conn_ok_connected)
next
  case (conn_write st i txn c sent_ok)
  then have "comms c = comms (conns st ! i)" by (auto simp: recv_write_def split: if_splits)
  with conn_write show ?case
    by (auto simp: client_node_inv_def map_update_same dest!: subsetD [OF set_update_subset_insert]
        intro: conn_ok_write)
next
  case (conn_lagged st i c)
  then have "comms c = comms (conns st ! i)" by (auto simp: recv_write_def split: if_splits)
  with conn_lagged show ?case
    by (auto simp: client_node_inv_def map_update_same dest!: subsetD [OF set_update_subset_insert]
        intro: conn_ok_lagged)
next
  case (conn_incoming st i c item)
  have "interleaves (map (\<lambda>c. to_updater (comms c)) ((conns st)[i := c])) (handled st @ queue st @ forwarded (conns st ! i) c)"
    using interleaves_sends [of "map (\<lambda>c. to_updater (comms c)) (conns st)" "handled st @ queue st" i
        "forwarded (conns st ! i) c"] conn_incoming
    by (simp add: client_node_inv_def map_update conn_event_votes(1) [where c = "arrives item (conns st ! i)"])
  with conn_incoming show ?case
    by (auto simp: client_node_inv_def dest!: subsetD [OF set_update_subset_insert] intro: conn_ok_incoming)
next
  case (updater st v vs s' e)
  then show ?case
    by (auto simp: client_node_inv_def init_start service_loop_append split: option.splits)
qed (simp_all add: client_node_inv_def)

lemma client_run_inv:
  "client_run E P cap (init_pod_network_client rs) st \<Longrightarrow> client_node_inv E cap rs st"
  by (induction rule: rtranclp_induct) (auto intro: init_node_inv client_step_inv)

section \<open>What comes out of the WebSockets\<close>

text \<open>
  The votes a connection received: its messages, up to the first one that does not decode, which
  ends the connection.
\<close>

definition votes_in :: "vote prost_message \<Rightarrow> conn \<Rightarrow> vote list" where
  "votes_in P c = map (\<lambda>b. the (decode P b)) (takeWhile (\<lambda>b. decode P b \<noteq> None) (arrived c))"

definition passed_on :: "vote prost_message \<Rightarrow> conn \<Rightarrow> bool" where
  "passed_on P c \<longleftrightarrow> to_updater (comms c) = votes_in P c \<and>
     ((\<forall>r. phase c \<noteq> Ended r) \<longrightarrow> (\<forall>b\<in>set (arrived c). decode P b \<noteq> None))"

lemma conn_event_arrived [simp]: "arrived (conn_event P ev c) = arrived c"
  by (simp add: conn_event_def split: prod.split)

lemma passed_on_cong:
  "passed_on P c \<Longrightarrow> arrived c' = arrived c \<Longrightarrow> to_updater (comms c') = to_updater (comms c) \<Longrightarrow>
     (\<forall>r. phase c \<noteq> Ended r) \<Longrightarrow> passed_on P c'"
  by (simp add: passed_on_def votes_in_def)

lemma votes_in_all:
  assumes "\<forall>b\<in>set (arrived c). decode P b \<noteq> None"
  shows "votes_in P c = map (\<lambda>b. the (decode P b)) (arrived c)"
    and "arrived c' = arrived c @ [b] \<Longrightarrow> votes_in P c' = votes_in P c @ (case decode P b of None \<Rightarrow> [] | Some v \<Rightarrow> [v])"
proof -
  have all: "takeWhile (\<lambda>b. decode P b \<noteq> None) (arrived c) = arrived c"
    using assms by (simp add: takeWhile_eq_all_conv del: not_None_eq)
  show "votes_in P c = map (\<lambda>b. the (decode P b)) (arrived c)" by (simp only: votes_in_def all)
  have "takeWhile (\<lambda>b. decode P b \<noteq> None) (arrived c @ [b]) = arrived c @ (if decode P b = None then [] else [b])"
    using assms by (subst takeWhile_append2) (simp_all del: not_None_eq)
  then show "votes_in P c' = votes_in P c @ (case decode P b of None \<Rightarrow> [] | Some v \<Rightarrow> [v])" if "arrived c' = arrived c @ [b]"
    unfolding votes_in_def that all by (simp split: option.split)
qed

lemma passed_on_incoming:
  assumes "passed_on P c" and "phase c = Open"
  shows "passed_on P (conn_event P (Incoming item True) (arrives item c))"
proof (cases "\<exists>b. item = WsMessage (Binary b)")
  case True
  then obtain b where b: "item = WsMessage (Binary b)" by blast
  let ?c = "conn_event P (Incoming item True) (arrives item c)"
  have all: "\<forall>b\<in>set (arrived c). decode P b \<noteq> None" using assms by (simp add: passed_on_def)
  have arr: "arrived ?c = arrived c @ [b]" by (simp add: b arrives_def)
  note votes = votes_in_all(2) [OF all arr]
  show ?thesis
  proof (cases "decode P b")
    case None
    then have "to_updater (comms ?c) = to_updater (comms c)" "phase ?c = Ended TaskErr"
      by (simp_all add: b conn_event_def comms_body_def)
    with None votes assms(1) show ?thesis by (simp add: passed_on_def)
  next
    case (Some v)
    then have "to_updater (comms ?c) = to_updater (comms c) @ [v]"
      by (simp add: b conn_event_def comms_body_def)
    with Some votes assms(1) all arr show ?thesis by (simp add: passed_on_def)
  qed
next
  case False
  then have "comms (conn_event P (Incoming item True) (arrives item c)) = comms c" "arrives item c = c"
    by (auto simp: conn_event_def comms_body_def arrives_def split: ws_item.split ws_message.split)
  with assms show ?thesis by (intro passed_on_cong [OF assms(1)]) auto
qed

lemma client_step_passed_on:
  assumes "client_step E P cap st st'" and "\<forall>c\<in>set (conns st). passed_on P c"
  shows "\<forall>c\<in>set (conns st'). passed_on P c"
proof -
  have upd: "\<forall>c\<in>set ((conns st)[i := c]). passed_on P c" if "passed_on P c" for i c
    using that assms(2) by (auto dest!: subsetD [OF set_update_subset_insert])
  from assms(1) show ?thesis
  proof cases
    case (conn_start i outcome r attempts)
    have "passed_on P (connected (writes st) r (conns st ! i))"
      by (rule passed_on_cong [of P "conns st ! i"])
        (use conn_start assms(2) in \<open>simp_all add: connected_def split: connect_result.split\<close>)
    from upd [OF this, of i] show ?thesis by (simp add: conn_start(1))
  next
    case (conn_write i txn c sent_ok)
    then have "arrived c = arrived (conns st ! i)" "comms c = comms (conns st ! i)"
      by (auto simp: recv_write_def split: if_splits)
    note same = this
    have "passed_on P (conn_event P (WriteRequest txn sent_ok) c)"
      by (rule passed_on_cong [of P "conns st ! i"]) (use conn_write(3,4) assms(2) same in simp_all)
    from upd [OF this, of i] show ?thesis by (simp add: conn_write(1))
  next
    case (conn_lagged i c)
    then have "arrived c = arrived (conns st ! i)" "comms c = comms (conns st ! i)"
      by (auto simp: recv_write_def split: if_splits)
    note same = this
    have "passed_on P c"
      by (rule passed_on_cong [of P "conns st ! i"]) (use conn_lagged(3,4) assms(2) same in simp_all)
    from upd [OF this, of i] show ?thesis by (simp add: conn_lagged(1))
  next
    case (conn_incoming i c item)
    then have "passed_on P c" using assms(2) passed_on_incoming [of P "conns st ! i" item] by simp
    from upd [OF this, of i] show ?thesis by (simp add: conn_incoming(1))
  qed (use assms(2) in simp_all)
qed

lemma client_run_passed_on:
  assumes "client_run E P cap (init_pod_network_client rs) st"
  shows "\<forall>c\<in>set (conns st). passed_on P c"
  using assms
proof (induction rule: rtranclp_induct)
  case base
  show ?case by (simp add: init_pod_network_client_def new_conn_def passed_on_def votes_in_def)
qed (rule client_step_passed_on)

section \<open>What can still reach a replica\<close>

definition first_deliverable :: "nat \<Rightarrow> transaction list \<Rightarrow> conn \<Rightarrow> nat" where
  "first_deliverable cap ws c =
     (if phase c = Connecting then length ws else max (next_write c) (length ws - cap))"

definition delivers_from :: "nat \<Rightarrow> nat \<Rightarrow> bytes list \<Rightarrow> transaction list \<Rightarrow> conn \<Rightarrow> bool" where
  "delivers_from cap lo base ws c \<longleftrightarrow>
     (\<exists>rest. to_replica (comms c) = base @ rest \<and> subseq rest (map data (drop lo (take (next_write c) ws)))) \<and>
     lo \<le> length ws \<and> next_write c \<le> length ws \<and> (phase c = Open \<longrightarrow> lo \<le> next_write c \<or> lo + cap \<le> length ws)"

lemma delivers_arrives [simp]: "delivers_from cap lo base ws (arrives item c) = delivers_from cap lo base ws c"
  by (simp add: delivers_from_def)

lemma delivers_start:
  "conn_ok cap ws c \<Longrightarrow> delivers_from cap (first_deliverable cap ws c) (to_replica (comms c)) ws c"
  by (auto simp: delivers_from_def first_deliverable_def conn_ok_def)

lemma delivers_more: "delivers_from cap lo base ws c \<Longrightarrow> delivers_from cap lo base (ws @ ws') c"
  by (auto simp: delivers_from_def)

lemma delivers_read:
  assumes "subseq rest (map data (drop lo (take n ws)))" and "n \<le> m"
  shows "subseq rest (map data (drop lo (take m ws)))"
proof -
  have "take m ws = take n ws @ drop n (take m ws)" using assms(2) by (metis append_take_drop_id min.absorb1 take_take)
  then have "prefix (drop lo (take n ws)) (drop lo (take m ws))" by (metis drop_append prefixI)
  then show ?thesis using assms(1) by (meson map_mono_prefix prefix_imp_subseq subseq_order.trans)
qed

lemma delivers_connected:
  assumes "delivers_from cap lo base ws c" and "phase c = Connecting"
  shows "delivers_from cap lo base ws (connected ws r c)"
  using assms delivers_read [of _ lo "next_write c" ws "length ws"]
  by (auto simp: delivers_from_def connected_def split: connect_result.split)

lemma delivers_write:
  assumes "delivers_from cap lo base ws c" and "phase c = Open" and "recv_write cap ws c = Some (Some txn, c')"
  shows "delivers_from cap lo base ws (conn_event P (WriteRequest txn ok) c')"
proof -
  have c': "next_write c < length ws" "\<not> next_write c + cap < length ws" "txn = ws ! next_write c"
    "c' = c\<lparr>next_write := Suc (next_write c)\<rparr>"
    using assms(3) by (auto simp: recv_write_def split: if_splits)
  with assms(1,2) have lo: "lo \<le> next_write c" by (auto simp: delivers_from_def)
  obtain rest where rest: "to_replica (comms c) = base @ rest"
    "subseq rest (map data (drop lo (take (next_write c) ws)))" using assms(1) by (auto simp: delivers_from_def)
  have "subseq (rest @ (if ok then [data txn] else [])) (map data (drop lo (take (Suc (next_write c)) ws)))"
    unfolding drop_take_Suc [OF lo c'(1)] c'(3) using list_emb_append_mono [OF rest(2), of _ "[data (ws ! next_write c)]"]
    by simp
  with assms(1,2) rest(1) c' lo show ?thesis by (auto simp: delivers_from_def)
qed

lemma delivers_lagged:
  assumes "delivers_from cap lo base ws c" and "phase c = Open" and "recv_write cap ws c = Some (None, c')"
  shows "delivers_from cap lo base ws c'"
proof -
  have c': "next_write c + cap < length ws" "c' = c\<lparr>next_write := length ws - cap, write_branch_off := True\<rparr>"
    using assms(3) by (auto simp: recv_write_def split: if_splits)
  with assms(1,2) delivers_read [of _ lo "next_write c" ws "length ws - cap"] show ?thesis
    by (auto simp: delivers_from_def)
qed

lemma delivers_incoming:
  "delivers_from cap lo base ws c \<Longrightarrow> phase c = Open \<Longrightarrow> delivers_from cap lo base ws (conn_event P (Incoming item ok) c)"
  by (auto simp: delivers_from_def conn_event_votes)

lemma delivers_step:
  assumes "client_step E P cap st st'" and "i < length (conns st)"
    and "delivers_from cap lo base (writes st) (conns st ! i)"
  shows "i < length (conns st') \<and> delivers_from cap lo base (writes st') (conns st' ! i)"
  using assms
proof (induction rule: client_step.induct)
  case (api_write st request ch reply)
  then show ?case by (auto simp: write_accepted delivers_more split: option.splits)
next
  case (conn_start st j outcome r attempts)
  then show ?case by (cases "j = i") (auto intro: delivers_connected)
next
  case (conn_write st j txn c sent_ok)
  then show ?case by (cases "j = i") (auto intro: delivers_write)
next
  case (conn_lagged st j c)
  then show ?case by (cases "j = i") (auto intro: delivers_lagged)
next
  case (conn_incoming st j c item)
  then show ?case by (cases "j = i") (auto intro: delivers_incoming)
qed simp_all

lemma delivers_run:
  assumes "client_run E P cap st st'" and "i < length (conns st)"
    and "delivers_from cap lo base (writes st) (conns st ! i)"
  shows "i < length (conns st') \<and> delivers_from cap lo base (writes st') (conns st' ! i)"
  using assms by (induction rule: rtranclp_induct) (auto dest: delivers_step)

section \<open>Sending what is pending\<close>

text \<open>Steps that neither open or end a connection nor take a vote from one.\<close>

definition calm_step ::
  "('sk, 'pk, 'sig) ed25519 \<Rightarrow> vote prost_message \<Rightarrow> nat \<Rightarrow> 'pk client_node \<Rightarrow> 'pk client_node \<Rightarrow> bool" where
  "calm_step E P cap st st' \<longleftrightarrow> client_step E P cap st st' \<and> map phase (conns st') = map phase (conns st) \<and>
     map (\<lambda>x. to_updater (comms x)) (conns st') = map (\<lambda>x. to_updater (comms x)) (conns st)"

lemma calm_run: "(calm_step E P cap)\<^sup>*\<^sup>* st st' \<Longrightarrow> client_run E P cap st st'"
  by (erule rtranclp_mono [THEN predicate2D, rotated]) (auto simp: calm_step_def)

lemma pending_sent:
  assumes "ended st = None" and "i < length (conns st)" and "phase (conns st ! i) = Open"
    and "\<not> write_branch_off (conns st ! i)" and "length (writes st) \<le> next_write (conns st ! i) + cap"
  shows "\<exists>c. (calm_step E P cap)\<^sup>*\<^sup>* st (st\<lparr>conns := (conns st)[i := c]\<rparr>) \<and> phase c = Open \<and>
    to_replica (comms c) = to_replica (comms (conns st ! i)) @ map data (drop (next_write (conns st ! i)) (writes st)) \<and>
    to_updater (comms c) = to_updater (comms (conns st ! i))"
  using assms
proof (induction "length (writes st) - next_write (conns st ! i)" arbitrary: st)
  case 0
  then show ?case by (intro exI [of _ "conns st ! i"]) simp
next
  case (Suc n)
  let ?c = "conns st ! i"
  let ?c' = "conn_event P (WriteRequest (writes st ! next_write ?c) True) (?c\<lparr>next_write := Suc (next_write ?c)\<rparr>)"
  let ?st = "st\<lparr>conns := (conns st)[i := ?c']\<rparr>"
  have less: "next_write ?c < length (writes st)" using Suc.hyps(2) by linarith
  have recv: "recv_write cap (writes st) ?c = Some (Some (writes st ! next_write ?c), ?c\<lparr>next_write := Suc (next_write ?c)\<rparr>)"
    using less Suc.prems(5) by (simp add: recv_write_def)
  have "client_step E P cap st ?st" by (rule conn_write [OF Suc.prems(1-4) recv])
  then have step: "calm_step E P cap st ?st"
    using Suc.prems(2,3) by (simp add: calm_step_def map_update_same)
  have n: "n = length (writes st) - Suc (next_write ?c)" using Suc.hyps(2) by linarith
  with Suc.hyps(1) [of ?st] Suc.prems obtain c where
    c: "(calm_step E P cap)\<^sup>*\<^sup>* ?st (st\<lparr>conns := (conns st)[i := c]\<rparr>)" "phase c = Open" "to_updater (comms c) = to_updater (comms ?c)"
    "to_replica (comms c) = to_replica (comms ?c) @ data (writes st ! next_write ?c) #
       map data (drop (Suc (next_write ?c)) (writes st))" by auto
  with step show ?case
    by (intro exI [of _ c]) (auto intro: converse_rtranclp_into_rtranclp simp: Cons_nth_drop_Suc [OF less, symmetric])
qed

section \<open>A run of a client\<close>

text \<open>
  A client of three replicas connects to the first, is asked to write one transaction, sends it,
  and receives a vote.
\<close>

definition node_message :: "vote prost_message" where
  "node_message = \<lparr>encode = (\<lambda>_. None), merge = (\<lambda>m _. Some m), default_msg = default_vote,
     decode = (\<lambda>_. Some (first_vote 1 1 7 10))\<rparr>"

definition demo_conn :: conn where
  "demo_conn = \<lparr>phase = Open, joined = 0, next_write = 1, write_branch_off = False,
     comms = \<lparr>to_replica = [[5]], to_updater = a_votes\<rparr>, arrived = [[]]\<rparr>"

definition demo_client :: "u8 client_node" where
  "demo_client = \<lparr>view = three_run a_votes, writes = [\<lparr>data = [5]\<rparr>], queue = [], handled = a_votes,
     conns = [demo_conn, new_conn, new_conn], ended = None\<rparr>"

lemma demo_client_run:
  "client_run demo_ed25519 node_message 128 (init_pod_network_client three_replicas) demo_client"
proof -
  let ?step = "client_step demo_ed25519 node_message 128"
  let ?s0 = "init_pod_network_client three_replicas"
  let ?c1 = "new_conn\<lparr>phase := Open\<rparr>"
  let ?s1 = "?s0\<lparr>conns := [?c1, new_conn, new_conn]\<rparr>"
  let ?s2 = "?s1\<lparr>writes := [\<lparr>data = [5]\<rparr>]\<rparr>"
  let ?c3 = "?c1\<lparr>next_write := 1, comms := \<lparr>to_replica = [[5]], to_updater = []\<rparr>\<rparr>"
  let ?s3 = "?s2\<lparr>conns := [?c3, new_conn, new_conn]\<rparr>"
  let ?s4 = "?s3\<lparr>conns := [demo_conn, new_conn, new_conn], queue := a_votes\<rparr>"
  have s0: "?s0 = \<lparr>view = init_client_state three_replicas, writes = [], queue = [], handled = [],
     conns = [new_conn, new_conn, new_conn], ended = None\<rparr>"
    by (simp add: init_pod_network_client_def three_replicas_def)
  have 1: "?step ?s0 ?s1"
    using conn_start [of ?s0 0 "\<lambda>_. Connected" Stream 1]
    by (simp add: s0 new_conn_def connected_def connect_to_replica_def connect_loop.simps)
  have 2: "?step ?s1 ?s2"
    using api_write_step [of ?s1 demo_ed25519 node_message 128 "\<lparr>data = [5]\<rparr>"] by (simp add: s0)
  have 3: "?step ?s2 ?s3"
    using conn_write [of ?s2 0 128 "\<lparr>data = [5]\<rparr>" "?c1\<lparr>next_write := 1\<rparr>" demo_ed25519 node_message True]
    by (simp add: s0 new_conn_def recv_write_def conn_event_def comms_body_def)
  have "conn_event node_message (Incoming (WsMessage (Binary [])) True) (arrives (WsMessage (Binary [])) ?c3) = demo_conn"
    by (simp add: arrives_def new_conn_def conn_event_def comms_body_def node_message_def demo_conn_def a_votes_def)
  moreover have "forwarded ?c3 demo_conn = a_votes" by (simp add: forwarded_def demo_conn_def)
  ultimately have 4: "?step ?s3 ?s4"
    using conn_incoming [of ?s3 0 demo_conn node_message "WsMessage (Binary [])" demo_ed25519 128]
    by (simp add: s0 new_conn_def a_votes_def CHANNEL_SIZE_def)
  have "handle_vote demo_ed25519 (init_client_state three_replicas) (first_vote 1 1 7 10) = (three_run a_votes, None)"
    using a_run(1) by (simp add: init_start a_votes_def split: prod.splits option.splits)
  then have 5: "?step ?s4 demo_client"
    using updater [of ?s4 "first_vote 1 1 7 10" "[]" demo_ed25519 "three_run a_votes" None node_message 128]
    by (simp add: s0 a_votes_def demo_client_def)
  show ?thesis
    using 1 2 3 4 5 by (meson converse_rtranclp_into_rtranclp rtranclp.rtrancl_refl)
qed

section \<open>Properties\<close>

text \<open>
  C8. Whatever the tasks of a client do, its maps are those of the vote handler run alone on the
  votes it has taken, in the order in which they left the channel; these and the votes that still
  wait are an interleaving of the votes that came out of the WebSockets of its connections (up to a
  message that does not decode, which ends its connection), nothing lost, added or reordered
  within a connection; and never more than a hundred votes wait.
\<close>

theorem client_view_follows_connections:
  assumes "client_run E P cap (init_pod_network_client rs) st"
  shows "fst (start_pod_data_updater E (init_client_state rs) (handled st)) = view st \<and>
    interleaves (map (votes_in P) (conns st)) (handled st @ queue st) \<and>
    mset (handled st @ queue st) = sum_list (map (\<lambda>c. mset (votes_in P c)) (conns st)) \<and>
    (\<forall>c\<in>set (conns st). phase c = Open \<longrightarrow> votes_in P c = map (\<lambda>b. the (decode P b)) (arrived c)) \<and>
    (ended st = None \<longrightarrow> snd (start_pod_data_updater E (init_client_state rs) (handled st)) = None) \<and>
    length (queue st) \<le> 100"
proof -
  have inv: "client_node_inv E cap rs st" by (rule client_run_inv [OF assms])
  have passed: "\<forall>c\<in>set (conns st). passed_on P c" by (rule client_run_passed_on [OF assms])
  then have "map (\<lambda>c. to_updater (comms c)) (conns st) = map (votes_in P) (conns st)" by (simp add: passed_on_def)
  with inv have mix: "interleaves (map (votes_in P) (conns st)) (handled st @ queue st)" by (simp add: client_node_inv_def)
  have "votes_in P c = map (\<lambda>b. the (decode P b)) (arrived c)" if "c \<in> set (conns st)" "phase c = Open" for c
    using passed that by (intro votes_in_all(1)) (auto simp: passed_on_def)
  with interleaves_mset [OF mix] mix inv show ?thesis by (auto simp: client_node_inv_def CHANNEL_SIZE_def o_def)
qed

theorem client_view_follows_connections_witness:
  "fst (start_pod_data_updater demo_ed25519 (init_client_state three_replicas) a_votes) = view demo_client \<and>
   interleaves [a_votes, [], []] a_votes"
  using client_view_follows_connections [OF demo_client_run]
  by (simp add: demo_client_def demo_conn_def new_conn_def votes_in_def node_message_def a_votes_def)

text \<open>
  C22. What a connection sends to its replica is a subsequence of the transactions written since
  it was opened, in the order of the writes; and it is exactly those it has read, none skipped, as
  long as no more were written since than the channel holds.
\<close>

theorem writes_reach_replica_in_order:
  assumes "client_run E P cap (init_pod_network_client rs) st" and "i < length rs" and "c = conns st ! i"
  shows "subseq (to_replica (comms c)) (map data (drop (joined c) (take (next_write c) (writes st)))) \<and>
    (phase c = Open \<longrightarrow> length (writes st) \<le> joined c + cap \<longrightarrow>
       to_replica (comms c) = map data (drop (joined c) (take (next_write c) (writes st))))"
  using client_run_inv [OF assms(1)] assms(2,3) nth_mem [of i "conns st"]
  by (auto simp: client_node_inv_def conn_ok_def)

theorem writes_reach_replica_in_order_witness:
  "subseq (to_replica (comms (conns demo_client ! 0))) [[5]] \<and> to_replica (comms (conns demo_client ! 0)) = [[5]]"
  using writes_reach_replica_in_order [OF demo_client_run, of 0]
  by (simp add: demo_client_def demo_conn_def three_replicas_def)

text \<open>
  C40. Writes can be lost although the API reports success, which it does for every transaction.
  Of what was written before a connection is open, nothing ever reaches its replica; and of what
  an open connection has not read yet, only the part the channel still holds.
\<close>

theorem acknowledged_writes_may_be_lost:
  assumes "client_run E P cap (init_pod_network_client rs) st" and "i < length rs"
    and "client_run E P cap st st'"
  shows "\<exists>rest. to_replica (comms (conns st' ! i)) = to_replica (comms (conns st ! i)) @ rest \<and>
    subseq rest (map data (drop (first_deliverable cap (writes st) (conns st ! i)) (writes st'))) \<and>
    (\<exists>ch. write_tx (Some txn) \<lparr>receivers = receiver_count st, sent = writes st\<rparr> = (ch, Inr True))"
proof -
  have inv: "i < length (conns st)" "conn_ok cap (writes st) (conns st ! i)"
    using client_run_inv [OF assms(1)] assms(2) by (auto simp: client_node_inv_def)
  obtain rest where "to_replica (comms (conns st' ! i)) = to_replica (comms (conns st ! i)) @ rest"
    "subseq rest (map data (drop (first_deliverable cap (writes st) (conns st ! i)) (take (next_write (conns st' ! i)) (writes st'))))"
    "next_write (conns st' ! i) \<le> length (writes st')"
    using delivers_run [OF assms(3) inv(1) delivers_start [OF inv(2)]] by (auto simp: delivers_from_def)
  moreover from this have "subseq rest (map data (drop (first_deliverable cap (writes st) (conns st ! i)) (writes st')))"
    using delivers_read [of rest _ "next_write (conns st' ! i)" "writes st'" "length (writes st')"] by simp
  ultimately show ?thesis by (simp add: write_accepted)
qed

theorem acknowledged_writes_may_be_lost_witness:
  "\<exists>st'. client_run demo_ed25519 node_message 128 demo_client st' \<and> phase (conns st' ! 1) = Open \<and>
     writes st' = [\<lparr>data = [5]\<rparr>] \<and> subseq (to_replica (comms (conns st' ! 1))) (map data (drop 1 (writes st')))"
proof -
  let ?st = "demo_client\<lparr>conns := [demo_conn, new_conn\<lparr>phase := Open, joined := 1, next_write := 1\<rparr>, new_conn]\<rparr>"
  have "client_step demo_ed25519 node_message 128 demo_client ?st"
    using conn_start [of demo_client 1 "\<lambda>_. Connected" Stream 1]
    by (simp add: demo_client_def new_conn_def connected_def connect_to_replica_def connect_loop.simps)
  then have run: "client_run demo_ed25519 node_message 128 demo_client ?st" by (rule r_into_rtranclp)
  from acknowledged_writes_may_be_lost [OF demo_client_run _ run, of 1]
  have "subseq (to_replica (comms (conns ?st ! 1))) (map data (drop 1 (writes ?st)))"
    by (auto simp: first_deliverable_def demo_client_def new_conn_def three_replicas_def)
  with run show ?thesis by (intro exI [of _ ?st]) (simp add: demo_client_def)
qed

text \<open>
  C24. The state of a running client is well formed: there is one task per configured replica; the
  maps of most recent timestamps and of sequence numbers have exactly the configured replicas as
  keys; a transaction on record is no heartbeat and has a vote, votes of configured replicas only;
  and for each recorded timestamp there is a vote message that carries it.
\<close>

theorem client_state_well_formed:
  assumes "client_run E P cap (init_pod_network_client rs) st"
  shows "length (conns st) = length rs \<and> dom (replicas (view st)) = rp_id ` set rs \<and>
    dom (mrt (view st)) = rp_id ` set rs \<and> dom (next_sn (view st)) = rp_id ` set rs \<and>
    (\<forall>txn m. tsps (view st) txn = Some m \<longrightarrow> dom m \<noteq> {} \<and> dom m \<subseteq> rp_id ` set rs \<and> \<not> is_heartbeat txn \<and>
       (\<forall>r t. m r = Some t \<longrightarrow> (\<exists>v. ts_vote_msg (view st) t = Some v \<and> timestamp v = t)))"
proof -
  obtain e where run: "start_pod_data_updater E (init_client_state rs) (handled st) = (view st, e)"
    and len: "length (conns st) = length rs"
    using client_run_inv [OF assms] by (simp add: client_node_inv_def)
  have inv: "client_inv E (view st)" "api_inv (view st)" using reached_inv [OF run] by simp_all
  have "replicas (view st) = replicas (init_client_state rs)"
    using updater.loop_fwd [OF init_client_inv [of E rs], of "handled st"] run by (simp add: init_start client_fwd_def)
  then have reps: "dom (replicas (view st)) = rp_id ` set rs"
    using init_client_dom [of "\<lambda>r. r" rs Map.empty] by (simp add: init_client_state_def)
  have ids: "dom (mrt (view st)) = rp_id ` set rs" "dom (next_sn (view st)) = rp_id ` set rs"
    using inv(1) reps by (simp_all add: client_inv_at_def)
  have "dom m \<noteq> {} \<and> dom m \<subseteq> rp_id ` set rs \<and> \<not> is_heartbeat txn \<and>
      (\<forall>r t. m r = Some t \<longrightarrow> (\<exists>v. ts_vote_msg (view st) t = Some v \<and> timestamp v = t))"
    if m: "tsps (view st) txn = Some m" for txn m
  proof -
    have "dom m \<noteq> {}" "dom m \<subseteq> rp_id ` set rs" "\<not> is_heartbeat txn"
      "\<forall>r t. m r = Some t \<longrightarrow> t \<in> dom (ts_vote_msg (view st))"
      "\<forall>t v. ts_vote_msg (view st) t = Some v \<longrightarrow> timestamp v = t"
      using inv(2) m reps by (simp_all add: api_inv_def)
    then show ?thesis by blast
  qed
  with len reps ids show ?thesis by blast
qed

theorem client_state_well_formed_witness:
  "dom (next_sn (view demo_client)) = {1, 2, 3}"
  using client_state_well_formed [OF demo_client_run] by (auto simp: three_replicas_def)

end
