(* ===== verification/PodSystem.thy ===== *)
theory PodSystem
  imports Agreement ReplicaServer ClientNode
begin

text \<open>
  Replicas and clients together: any number of the clients of \<^verbatim>\<open>ClientNode\<close> and the replicas of
  \<^verbatim>\<open>ReplicaServer\<close>, one per entry of the clients' configuration, joined by their connections. A
  connection carries messages in order in both directions and may break at any time. The steps
  of the parts interleave in any order. Some of the replicas may be faulty: over their
  connections a client may receive anything that can be made without the keys of the others.
\<close>

section \<open>State and steps\<close>

text \<open>
  A connection of a client: the connection of the replica it ends at, and how many messages have
  arrived there and here.
\<close>

record link =
  far_end :: nat
  up :: nat
  down :: nat

record 'pk pod_system =
  clients :: "'pk client_node list"
  servers :: "replica_server list"
  links :: "nat \<Rightarrow> nat \<rightharpoonup> link"

text \<open>
  What all parts have in common: codecs, keys, configuration and the capacity of channels; and
  which replicas are faulty, by their positions in the configuration.
\<close>

record ('sk, 'pk, 'sig) pod_setup =
  su_E :: "('sk, 'pk, 'sig) ed25519"
  su_P :: "vote_record prost_message"
  su_PV :: "vote prost_message"
  su_rs :: "'pk replica list"
  su_keys :: "'sk list"
  su_cap :: nat
  su_faulty :: "nat set"

definition init_system :: "('sk, 'pk, 'sig) pod_setup \<Rightarrow> replica_server list \<Rightarrow> nat \<Rightarrow> 'pk pod_system" where
  "init_system C srvs n = \<lparr>clients = replicate n (init_pod_network_client (su_rs C)), servers = srvs, links = (\<lambda>_ _. None)\<rparr>"

abbreviation sys_client_step ::
  "('sk, 'pk, 'sig) pod_setup \<Rightarrow> 'pk client_node \<Rightarrow> 'pk client_node \<Rightarrow> bool" where
  "sys_client_step C \<equiv> client_step (su_E C) (su_PV C) (su_cap C)"

abbreviation sys_server_step ::
  "('sk, 'pk, 'sig) pod_setup \<Rightarrow> nat \<Rightarrow> replica_server \<Rightarrow> replica_server \<Rightarrow> bool" where
  "sys_server_step C i \<equiv>
     server_step (su_E C) (su_P C) (su_PV C) (su_keys C ! i) (rp_id (su_rs C ! i)) (su_cap C) {good_io}"

text \<open>
  The votes a replica has cast: those it has broadcast, and the one it has logged and broadcasts
  next, which those who read its log can have already.
\<close>

abbreviation cast_by :: "('sk, 'pk, 'sig) pod_setup \<Rightarrow> replica_server list \<Rightarrow> nat \<Rightarrow> vote set" where
  "cast_by C srvs j \<equiv> set (votes_issued (rp_id (su_rs C ! j)) (node (srvs ! j)))"

text \<open>
  What a faulty replica can send. Signatures cannot be forged: a vote that clients accept as one
  of a replica that is not faulty was cast by it. A faulty replica can repeat such votes.
\<close>

definition unforged :: "('sk, 'pk, 'sig) pod_setup \<Rightarrow> replica_server list \<Rightarrow> vote \<Rightarrow> bool" where
  "unforged C srvs v \<longleftrightarrow>
     (\<forall>j<length (su_rs C). j \<notin> su_faulty C \<longrightarrow> replica_id v = rp_id (su_rs C ! j) \<longrightarrow>
        accepts (su_E C) (replicas (init_client_state (su_rs C))) v \<longrightarrow> v \<in> cast_by C srvs j)"

text \<open>
  A step of a client or of a replica alone; a new connection; a message that arrives, in either
  direction; and a step of a client over its connection to a faulty replica, which may open the
  connection, send any message and end it at will.
\<close>

inductive system_step :: "('sk, 'pk, 'sig) pod_setup \<Rightarrow> 'pk pod_system \<Rightarrow> 'pk pod_system \<Rightarrow> bool" for C where
  at_client: "c < length (clients st) \<Longrightarrow> sys_client_step C (clients st ! c) cl \<Longrightarrow>
     map (\<lambda>x. to_updater (comms x)) (conns cl) = map (\<lambda>x. to_updater (comms x)) (conns (clients st ! c)) \<Longrightarrow>
     (\<forall>i<length (conns cl). phase (conns cl ! i) = Open \<longrightarrow> phase (conns (clients st ! c) ! i) = Open) \<Longrightarrow>
     system_step C st (st\<lparr>clients := (clients st)[c := cl]\<rparr>)"
| at_server: "i < length (servers st) \<Longrightarrow> sys_server_step C i (servers st ! i) s \<Longrightarrow>
     accepted s = accepted (servers st ! i) \<Longrightarrow>
     system_step C st (st\<lparr>servers := (servers st)[i := s]\<rparr>)"
| connect: "c < length (clients st) \<Longrightarrow> i < length (servers st) \<Longrightarrow> i < length (conns (clients st ! c)) \<Longrightarrow>
     phase (conns (clients st ! c) ! i) = Connecting \<Longrightarrow>
     cl = (clients st ! c)\<lparr>conns := (conns (clients st ! c))[i :=
            connected (writes (clients st ! c)) Stream (conns (clients st ! c) ! i)]\<rparr> \<Longrightarrow>
     sys_client_step C (clients st ! c) cl \<Longrightarrow>
     s = (servers st ! i)\<lparr>sconns := sconns (servers st ! i) @ [new_server_conn (length (broadcast (node (servers st ! i))))]\<rparr> \<Longrightarrow>
     sys_server_step C i (servers st ! i) s \<Longrightarrow>
     system_step C st (st\<lparr>clients := (clients st)[c := cl], servers := (servers st)[i := s],
       links := (links st)(c := (links st c)(i \<mapsto> \<lparr>far_end = length (sconns (servers st ! i)), up = 0, down = 0\<rparr>))\<rparr>)"
| message_up: "c < length (clients st) \<Longrightarrow> i < length (servers st) \<Longrightarrow> i < length (conns (clients st ! c)) \<Longrightarrow>
     links st c i = Some l \<Longrightarrow> far_end l < length (sconns (servers st ! i)) \<Longrightarrow>
     write_on (sconns (servers st ! i) ! far_end l) \<Longrightarrow> up l < length (to_replica (comms (conns (clients st ! c) ! i))) \<Longrightarrow>
     txn = \<lparr>data = to_replica (comms (conns (clients st ! c) ! i)) ! up l\<rparr> \<Longrightarrow>
     s = (servers st ! i)\<lparr>write_rx := write_rx (servers st ! i) @ [txn], accepted := accepted (servers st ! i) @ [txn]\<rparr> \<Longrightarrow>
     sys_server_step C i (servers st ! i) s \<Longrightarrow>
     system_step C st (st\<lparr>servers := (servers st)[i := s],
       links := (links st)(c := (links st c)(i \<mapsto> l\<lparr>up := Suc (up l)\<rparr>))\<rparr>)"
| message_down: "c < length (clients st) \<Longrightarrow> i < length (servers st) \<Longrightarrow> i < length (conns (clients st ! c)) \<Longrightarrow>
     links st c i = Some l \<Longrightarrow> far_end l < length (sconns (servers st ! i)) \<Longrightarrow>
     down l < length (wire (sconns (servers st ! i) ! far_end l)) \<Longrightarrow>
     x = conn_event (su_PV C) (Incoming (WsMessage (Binary (wire (sconns (servers st ! i) ! far_end l) ! down l))) True)
           (arrives (WsMessage (Binary (wire (sconns (servers st ! i) ! far_end l) ! down l))) (conns (clients st ! c) ! i)) \<Longrightarrow>
     cl = (clients st ! c)\<lparr>conns := (conns (clients st ! c))[i := x],
            queue := queue (clients st ! c) @ forwarded (conns (clients st ! c) ! i) x\<rparr> \<Longrightarrow>
     sys_client_step C (clients st ! c) cl \<Longrightarrow>
     system_step C st (st\<lparr>clients := (clients st)[c := cl],
       links := (links st)(c := (links st c)(i \<mapsto> l\<lparr>down := Suc (down l)\<rparr>))\<rparr>)"
| faulty: "c < length (clients st) \<Longrightarrow> i \<in> su_faulty C \<Longrightarrow> i < length (conns (clients st ! c)) \<Longrightarrow>
     sys_client_step C (clients st ! c) cl \<Longrightarrow> length (conns cl) = length (conns (clients st ! c)) \<Longrightarrow>
     (\<forall>j<length (conns cl). j \<noteq> i \<longrightarrow> conns cl ! j = conns (clients st ! c) ! j) \<Longrightarrow>
     (\<forall>v\<in>set (to_updater (comms (conns cl ! i))) - set (to_updater (comms (conns (clients st ! c) ! i))).
        unforged C (servers st) v) \<Longrightarrow>
     system_step C st (st\<lparr>clients := (clients st)[c := cl]\<rparr>)"

inductive system_run :: "('sk, 'pk, 'sig) pod_setup \<Rightarrow> 'pk pod_system \<Rightarrow> nat \<Rightarrow> 'pk pod_system \<Rightarrow> bool" for C st0 where
  system_start: "system_run C st0 0 st0"
| system_more: "system_run C st0 m st \<Longrightarrow> system_step C st st' \<Longrightarrow> system_run C st0 (Suc m) st'"

section \<open>The parts run as before\<close>

lemma system_step_parts:
  assumes "system_step C st st'"
  shows "length (clients st') = length (clients st) \<and> length (servers st') = length (servers st) \<and>
    (\<forall>c<length (clients st). clients st' ! c = clients st ! c \<or> sys_client_step C (clients st ! c) (clients st' ! c)) \<and>
    (\<forall>i<length (servers st). servers st' ! i = servers st ! i \<or> sys_server_step C i (servers st ! i) (servers st' ! i))"
  using assms by cases (auto simp: nth_list_update)

lemma system_run_parts:
  assumes "system_run C (init_system C srvs n) m st"
  shows "length (clients st) = n \<and> length (servers st) = length srvs \<and>
    (\<forall>c<n. client_run (su_E C) (su_PV C) (su_cap C) (init_pod_network_client (su_rs C)) (clients st ! c)) \<and>
    (\<forall>i<length srvs. \<exists>m'\<le>m. server_run (su_E C) (su_P C) (su_PV C) (su_keys C ! i) (rp_id (su_rs C ! i)) (su_cap C) {good_io}
       (srvs ! i) m' (servers st ! i))"
  using assms
proof induction
  case system_start
  then show ?case by (auto simp: init_system_def intro: server_start)
next
  case (system_more m st st')
  note parts = system_step_parts [OF system_more.hyps(2)]
  have "client_run (su_E C) (su_PV C) (su_cap C) (init_pod_network_client (su_rs C)) (clients st' ! c)" if "c < n" for c
    using parts system_more.IH that by (metis rtranclp.rtrancl_into_rtrancl)
  moreover have "\<exists>m'\<le>Suc m. server_run (su_E C) (su_P C) (su_PV C) (su_keys C ! i) (rp_id (su_rs C ! i)) (su_cap C) {good_io}
      (srvs ! i) m' (servers st' ! i)" if i: "i < length srvs" for i
  proof -
    obtain m' where m': "m' \<le> m" "server_run (su_E C) (su_P C) (su_PV C) (su_keys C ! i) (rp_id (su_rs C ! i)) (su_cap C) {good_io}
      (srvs ! i) m' (servers st ! i)" using system_more.IH i by blast
    from parts i system_more.IH consider "servers st' ! i = servers st ! i"
      | "sys_server_step C i (servers st ! i) (servers st' ! i)" by auto
    then show ?thesis
    proof cases
      case 1
      with m' show ?thesis by (intro exI [of _ m']) simp
    next
      case 2
      from server_more [OF m'(2) this] m'(1) show ?thesis by (intro exI [of _ "Suc m'"]) simp
    qed
  qed
  ultimately show ?case using parts system_more.IH by simp
qed

section \<open>What travels\<close>

definition sent_on :: "replica_server \<Rightarrow> bytes set" where
  "sent_on s = (\<Union>x\<in>set (sconns s). set (wire x))"

lemma UN_update_mono:
  "i < length xs \<Longrightarrow> f (xs ! i) \<subseteq> f x \<Longrightarrow> (\<Union>y\<in>set xs. f y) \<subseteq> (\<Union>y\<in>set (xs[i := x]). f y)"
proof (induction xs arbitrary: i)
  case (Cons y ys)
  show ?case
  proof (cases i)
    case 0
    with Cons.prems show ?thesis by auto
  next
    case (Suc j)
    with Cons.IH [of j] Cons.prems show ?thesis by auto
  qed
qed simp

lemma sent_on_update:
  assumes "i < length (sconns s)" and "set (wire (sconns s ! i)) \<subseteq> set (wire x)" and "sconns s' = (sconns s)[i := x]"
  shows "sent_on s \<subseteq> sent_on s'"
  unfolding sent_on_def assms(3) by (rule UN_update_mono [OF assms(1,2)])

lemma server_step_sent:
  assumes "server_step E P PV k rid cap ios s s'"
  shows "sent_on s \<subseteq> sent_on s'"
  using assms
proof cases
  case (client_message i item txs fin)
  show ?thesis by (rule sent_on_update [OF client_message(3)]) (simp_all add: client_message(1))
next
  case (funnel_lag i c vs fin)
  show ?thesis by (rule sent_on_update [OF funnel_lag(3)]) (simp_all add: funnel_lag(1,4))
next
  case (funnel_recv i c)
  show ?thesis by (rule sent_on_update [OF funnel_recv(3)]) (simp_all add: funnel_recv(1,4))
next
  case (funnel_send i c v vs fin)
  show ?thesis by (rule sent_on_update [OF funnel_send(3)]) (simp_all add: funnel_send(1,4))
next
  case (catch_up_start i c meta_ok map_ok)
  show ?thesis by (rule sent_on_update [OF catch_up_start(3)]) (simp_all add: catch_up_start(1,4))
next
  case (catch_up_send i c v vs)
  show ?thesis by (rule sent_on_update [OF catch_up_send(3)]) (simp_all add: catch_up_send(1,4))
next
  case (catch_up_end i c vs)
  show ?thesis by (rule sent_on_update [OF catch_up_end(3)]) (simp_all add: catch_up_end(1,4))
next
  case (send_vote_message i c v vs ok msgs fin)
  show ?thesis by (rule sent_on_update [OF send_vote_message(3)]) (simp_all add: send_vote_message(1,4))
next
  case (sender_end i c)
  show ?thesis by (rule sent_on_update [OF sender_end(3)]) (simp_all add: sender_end(1,4))
qed (auto simp: sent_on_def)

lemma client_step_writes: "client_step E P cap st st' \<Longrightarrow> set (writes st) \<subseteq> set (writes st')"
  by (induction rule: client_step.induct) (auto simp: write_accepted split: option.splits)

lemma conn_event_binary:
  "set (to_updater (comms (conn_event PV (Incoming (WsMessage (Binary b)) True) x))) \<subseteq>
     set (to_updater (comms x)) \<union> {v. decode PV b = Some v}"
  by (auto simp: conn_event_def comms_body_def split: option.splits)

lemma sent_writes:
  assumes "client_node_inv E cap rs cl" and "x \<in> set (conns cl)"
  shows "set (to_replica (comms x)) \<subseteq> data ` set (writes cl)"
proof -
  have "subseq (to_replica (comms x)) (map data (drop (joined x) (take (next_write x) (writes cl))))"
    using assms by (simp add: client_node_inv_def conn_ok_def)
  then have "set (to_replica (comms x)) \<subseteq> set (map data (drop (joined x) (take (next_write x) (writes cl))))"
    by (auto elim: list_emb_set)
  then show ?thesis using set_drop_subset [of "joined x"] set_take_subset [of "next_write x" "writes cl"] by fastforce
qed

text \<open>
  Every vote a client took from a connection was sent by the replica at its other end, or it is
  what a faulty one can send.
\<close>

definition origin :: "('sk, 'pk, 'sig) pod_setup \<Rightarrow> replica_server list \<Rightarrow> nat \<Rightarrow> vote \<Rightarrow> bool" where
  "origin C srvs i v \<longleftrightarrow> (i < length srvs \<and> (\<exists>b\<in>sent_on (srvs ! i). decode (su_PV C) b = Some v)) \<or>
     (i \<in> su_faulty C \<and> unforged C srvs v)"

definition receives :: "('sk, 'pk, 'sig) pod_setup \<Rightarrow> replica_server list \<Rightarrow> 'pk client_node \<Rightarrow> bool" where
  "receives C srvs cl \<longleftrightarrow>
     (\<forall>i<length (conns cl). \<forall>v\<in>set (to_updater (comms (conns cl ! i))). origin C srvs i v)"

definition all_writes :: "'pk client_node list \<Rightarrow> transaction set" where
  "all_writes cls = (\<Union>cl\<in>set cls. set (writes cl))"

definition system_inv :: "('sk, 'pk, 'sig) pod_setup \<Rightarrow> 'pk pod_system \<Rightarrow> bool" where
  "system_inv C st \<longleftrightarrow> length (servers st) = length (su_rs C) \<and>
     (\<forall>cl\<in>set (clients st). client_node_inv (su_E C) (su_cap C) (su_rs C) cl \<and> receives C (servers st) cl) \<and>
     (\<forall>s\<in>set (servers st). set (accepted s) \<subseteq> all_writes (clients st))"

lemma server_step_cast:
  assumes "server_step E P PV k rid cap ios st st'"
  shows "set (votes_issued rid (node st)) \<subseteq> set (votes_issued rid (node st'))"
  using assms
proof cases
  case (log_recv txn txs n s1)
  then show ?thesis by (auto simp: fetch_add_def votes_issued_def unsent_def)
next
  case (log_append txn n t io s1 rec r)
  then show ?thesis using log_vote_append_frame [OF log_append(5)] by (auto simp: votes_issued_def unsent_def)
next
  case (heartbeat n')
  then show ?thesis using heartbeat_quiet [OF heartbeat(3-5)] by (simp add: votes_issued_def unsent_def)
qed (auto simp: heartbeat_finish_eq send_vote_def votes_issued_def unsent_def)

lemma origin_mono:
  assumes "origin C srvs i v" and "length srvs' = length srvs" and "length srvs = length (su_rs C)"
    and "\<And>j. j < length srvs \<Longrightarrow> sent_on (srvs ! j) \<subseteq> sent_on (srvs' ! j) \<and>
      cast_by C srvs j \<subseteq> cast_by C srvs' j"
  shows "origin C srvs' i v"
  using assms(1) unfolding origin_def
proof
  assume "i < length srvs \<and> (\<exists>b\<in>sent_on (srvs ! i). decode (su_PV C) b = Some v)"
  with assms(2,4) show "i < length srvs' \<and> (\<exists>b\<in>sent_on (srvs' ! i). decode (su_PV C) b = Some v) \<or>
      (i \<in> su_faulty C \<and> unforged C srvs' v)" by (metis subsetD)
next
  assume u: "i \<in> su_faulty C \<and> unforged C srvs v"
  have "unforged C srvs' v"
    unfolding unforged_def
  proof (intro allI impI)
    fix j assume j: "j < length (su_rs C)" "j \<notin> su_faulty C" "replica_id v = rp_id (su_rs C ! j)"
      "accepts (su_E C) (replicas (init_client_state (su_rs C))) v"
    with u have "v \<in> cast_by C srvs j" unfolding unforged_def by blast
    then show "v \<in> cast_by C srvs' j" using assms(3) assms(4) [of j] j(1) by auto
  qed
  with u show "i < length srvs' \<and> (\<exists>b\<in>sent_on (srvs' ! i). decode (su_PV C) b = Some v) \<or>
      (i \<in> su_faulty C \<and> unforged C srvs' v)" by blast
qed

lemma receives_more:
  assumes "receives C srvs cl" and "length (conns cl') = length (conns cl)"
    and "\<And>i v. i < length (conns cl) \<Longrightarrow> v \<in> set (to_updater (comms (conns cl' ! i))) \<Longrightarrow>
      v \<in> set (to_updater (comms (conns cl ! i))) \<or> origin C srvs i v"
  shows "receives C srvs cl'"
  unfolding receives_def
proof (intro allI impI ballI)
  fix i v assume i: "i < length (conns cl')" and v: "v \<in> set (to_updater (comms (conns cl' ! i)))"
  from i assms(2) have i': "i < length (conns cl)" by simp
  from assms(3) [OF i' v] show "origin C srvs i v"
    using assms(1) i' unfolding receives_def by blast
qed

lemma all_writes_update:
  assumes "c < length cls" and "set (writes (cls ! c)) \<subseteq> set (writes cl)"
  shows "all_writes cls \<subseteq> all_writes (cls[c := cl])"
  unfolding all_writes_def by (rule UN_update_mono [OF assms])

lemma system_inv_client:
  assumes "system_inv C st" and "c < length (clients st)" and "sys_client_step C (clients st ! c) cl"
    and "receives C (servers st) cl"
  shows "system_inv C (st\<lparr>clients := (clients st)[c := cl]\<rparr>)"
proof -
  have "client_node_inv (su_E C) (su_cap C) (su_rs C) (clients st ! c)" using assms(1,2) by (simp add: system_inv_def)
  then have "client_node_inv (su_E C) (su_cap C) (su_rs C) cl" by (rule client_step_inv [OF assms(3)])
  moreover have "all_writes (clients st) \<subseteq> all_writes ((clients st)[c := cl])"
    by (rule all_writes_update [OF assms(2) client_step_writes [OF assms(3)]])
  ultimately show ?thesis
    using assms(1,4) by (fastforce simp: system_inv_def dest!: subsetD [OF set_update_subset_insert])
qed

lemma system_inv_server:
  assumes "system_inv C st" and "i < length (servers st)" and "sys_server_step C i (servers st ! i) s"
    and "set (accepted s) \<subseteq> all_writes (clients st)"
  shows "system_inv C (st\<lparr>servers := (servers st)[i := s]\<rparr>)"
proof -
  have mono: "sent_on (servers st ! j) \<subseteq> sent_on ((servers st)[i := s] ! j) \<and>
      cast_by C (servers st) j \<subseteq> cast_by C ((servers st)[i := s]) j"
    if "j < length (servers st)" for j
    using server_step_sent [OF assms(3)] server_step_cast [OF assms(3)] that by (cases "j = i") simp_all
  have "receives C ((servers st)[i := s]) cl" if "cl \<in> set (clients st)" for cl
    unfolding receives_def
  proof (intro allI impI ballI)
    fix j v assume "j < length (conns cl)" "v \<in> set (to_updater (comms (conns cl ! j)))"
    then have "origin C (servers st) j v" using assms(1) that unfolding system_inv_def receives_def by blast
    then show "origin C ((servers st)[i := s]) j v"
      using assms(1) by (intro origin_mono [OF _ _ _ mono]) (simp_all add: system_inv_def)
  qed
  then show ?thesis
    using assms(1,4) by (auto simp: system_inv_def dest!: subsetD [OF set_update_subset_insert])
qed

lemma system_inv_links: "system_inv C (st\<lparr>links := f\<rparr>) = system_inv C st"
  by (simp add: system_inv_def)

lemma system_step_inv:
  assumes "system_step C st st'" and "system_inv C st"
  shows "system_inv C st'"
  using assms(1)
proof cases
  case (at_client c cl)
  have len: "length (conns cl) = length (conns (clients st ! c))" using arg_cong [OF at_client(4), of length] by simp
  have "to_updater (comms (conns cl ! i)) = to_updater (comms (conns (clients st ! c) ! i))"
    if "i < length (conns (clients st ! c))" for i
    using arg_cong [OF at_client(4), of "\<lambda>xs. xs ! i"] that len by simp
  then have "receives C (servers st) cl"
    using assms(2) at_client(2) len by (intro receives_more [of _ _ "clients st ! c" cl]) (simp_all add: system_inv_def)
  from system_inv_client [OF assms(2) at_client(2,3) this] at_client(1) show ?thesis by simp
next
  case (at_server i s)
  have "set (accepted s) \<subseteq> all_writes (clients st)" using assms(2) at_server(2,4) by (simp add: system_inv_def)
  from system_inv_server [OF assms(2) at_server(2,3) this] at_server(1) show ?thesis by simp
next
  case (connect c i cl s)
  let ?x = "connected (writes (clients st ! c)) Stream (conns (clients st ! c) ! i)"
  have "to_updater (comms (conns cl ! j)) = to_updater (comms (conns (clients st ! c) ! j))"
    if "j < length (conns (clients st ! c))" for j
    using that by (cases "j = i") (simp_all add: connect(6) connected_def)
  then have "receives C (servers st) cl"
    using assms(2) connect(2,6) by (intro receives_more [of _ _ "clients st ! c" cl]) (simp_all add: system_inv_def)
  from system_inv_client [OF assms(2) connect(2,7) this] have inv: "system_inv C (st\<lparr>clients := (clients st)[c := cl]\<rparr>)" .
  have "set (accepted s) \<subseteq> all_writes ((clients st)[c := cl])"
    using inv connect(3,8) by (simp add: system_inv_def)
  with system_inv_server [OF inv, of i s] connect(3,9)
  have "system_inv C (st\<lparr>clients := (clients st)[c := cl], servers := (servers st)[i := s]\<rparr>)" by simp
  then show ?thesis unfolding connect(1) by (simp add: system_inv_def)
next
  case (message_up c i l txn s)
  let ?x = "conns (clients st ! c) ! i"
  have "client_node_inv (su_E C) (su_cap C) (su_rs C) (clients st ! c)" using assms(2) message_up(2) by (simp add: system_inv_def)
  from sent_writes [OF this, of ?x] message_up(4) have "set (to_replica (comms ?x)) \<subseteq> data ` set (writes (clients st ! c))" by simp
  moreover have "to_replica (comms ?x) ! up l \<in> set (to_replica (comms ?x))" using message_up(8) by simp
  ultimately obtain w where w: "w \<in> set (writes (clients st ! c))" "to_replica (comms ?x) ! up l = data w" by blast
  have "\<lparr>data = data w\<rparr> = w" by simp
  with w have "txn \<in> set (writes (clients st ! c))" unfolding message_up(9) by metis
  then have "txn \<in> all_writes (clients st)" using message_up(2) by (auto simp: all_writes_def)
  moreover have "set (accepted (servers st ! i)) \<subseteq> all_writes (clients st)" using assms(2) message_up(3) by (simp add: system_inv_def)
  ultimately have "set (accepted s) \<subseteq> all_writes (clients st)" by (simp add: message_up(10))
  from system_inv_server [OF assms(2) message_up(3,11) this] show ?thesis unfolding message_up(1) by (simp add: system_inv_def)
next
  case (message_down c i l x cl)
  let ?b = "wire (sconns (servers st ! i) ! far_end l) ! down l"
  have b: "?b \<in> sent_on (servers st ! i)"
    unfolding sent_on_def using message_down(6,7) by (intro UN_I [of "sconns (servers st ! i) ! far_end l"]) simp_all
  have "receives C (servers st) cl"
  proof (rule receives_more [of _ _ "clients st ! c"])
    show "receives C (servers st) (clients st ! c)" using assms(2) message_down(2) by (simp add: system_inv_def)
    show "length (conns cl) = length (conns (clients st ! c))" by (simp add: message_down(9))
    fix j v assume "j < length (conns (clients st ! c))" "v \<in> set (to_updater (comms (conns cl ! j)))"
    then show "v \<in> set (to_updater (comms (conns (clients st ! c) ! j))) \<or>
        origin C (servers st) j v"
      using b message_down(3) conn_event_binary [of "su_PV C" ?b "arrives (WsMessage (Binary ?b)) (conns (clients st ! c) ! i)"]
      by (cases "j = i") (auto simp: message_down(8,9) origin_def)
  qed
  from system_inv_client [OF assms(2) message_down(2,10) this] show ?thesis unfolding message_down(1) by (simp add: system_inv_def)
next
  case (faulty c i cl)
  have "receives C (servers st) cl"
  proof (rule receives_more [of _ _ "clients st ! c"])
    show "receives C (servers st) (clients st ! c)" using assms(2) faulty(2) by (simp add: system_inv_def)
    show "length (conns cl) = length (conns (clients st ! c))" by (rule faulty(6))
    fix j v assume "j < length (conns (clients st ! c))" "v \<in> set (to_updater (comms (conns cl ! j)))"
    then show "v \<in> set (to_updater (comms (conns (clients st ! c) ! j))) \<or> origin C (servers st) j v"
      using faulty(3,6-8) by (cases "j = i") (auto simp: origin_def)
  qed
  from system_inv_client [OF assms(2) faulty(2,5) this] faulty(1) show ?thesis by simp
qed

lemma system_run_inv:
  assumes "system_run C (init_system C srvs n) m st" and "\<forall>s\<in>set srvs. accepted s = []" and "length srvs = length (su_rs C)"
  shows "system_inv C st"
  using assms
proof induction
  case system_start
  then show ?case
    using init_node_inv [of "su_E C" "su_cap C" "su_rs C"]
    by (auto simp: system_inv_def init_system_def receives_def init_pod_network_client_def new_conn_def)
qed (blast intro: system_step_inv)

section \<open>Votes of the system\<close>

text \<open>
  All replicas of the configuration were started once, with an empty log and with the key whose
  public part need not even be the configured one; ids are distinct.
\<close>

definition replicas_started :: "('sk, 'pk, 'sig) pod_setup \<Rightarrow> replica_server list \<Rightarrow> bool" where
  "replicas_started C srvs \<longleftrightarrow> length srvs = length (su_rs C) \<and> distinct (map rp_id (su_rs C)) \<and>
     (\<forall>i<length srvs. \<exists>H (K :: ('sk, 'pk) key_bytes) private_key open_ok meta_ok bind_ok.
        start_replica H K private_key open_ok meta_ok None bind_ok = Inr (su_keys C ! i, srvs ! i))"

text \<open>Nothing that was written or sent exceeds what the formats can hold.\<close>

definition within_limits :: "('sk, 'pk, 'sig) pod_setup \<Rightarrow> 'pk pod_system \<Rightarrow> bool" where
  "within_limits C st \<longleftrightarrow>
     (\<forall>txn\<in>all_writes (clients st). \<forall>k t n. frame_ok (su_P C) (signed_record (su_E C) k txn t n)) \<and>
     (\<forall>j<length (servers st). length (log_file (replica_log (node (servers st ! j)))) < 2 ^ 64 \<and>
        (\<forall>v\<in>cast_by C (servers st) j. wire_ok (su_PV C) v))"

lemma start_replica_state:
  "start_replica H K private_key open_ok meta_ok None bind_ok = Inr (k, st0) \<Longrightarrow>
     accepted st0 = [] \<and> init_pod_network_node open_ok meta_ok None = Inr (node st0)"
  by (auto simp: start_replica_def split: sum.splits)

lemma started_empty:
  assumes "replicas_started C srvs"
  shows "\<forall>s\<in>set srvs. accepted s = []"
proof
  fix s assume "s \<in> set srvs"
  then obtain i where "i < length srvs" "s = srvs ! i" by (auto simp: in_set_conv_nth)
  with assms obtain H private_key and K :: "('a, 'b) key_bytes" and open_ok meta_ok bind_ok where
    "start_replica H K private_key open_ok meta_ok None bind_ok = Inr (su_keys C ! i, s)"
    unfolding replicas_started_def by blast
  from start_replica_state [OF this] show "accepted s = []" by simp
qed

lemma started_inv:
  assumes "replicas_started C srvs" and "system_run C (init_system C srvs n) m st"
  shows "system_inv C st"
  by (rule system_run_inv [OF assms(2) started_empty [OF assms(1)]]) (use assms(1) in \<open>simp add: replicas_started_def\<close>)

lemma interleaves_from: "interleaves xss zs \<Longrightarrow> z \<in> set zs \<Longrightarrow> \<exists>i<length xss. z \<in> set (xss ! i)"
proof -
  have *: "z \<in># sum_list (map mset xss) \<Longrightarrow> \<exists>xs\<in>set xss. z \<in> set xs" by (induction xss) auto
  assume "interleaves xss zs" "z \<in> set zs"
  with interleaves_mset [of xss zs] have "z \<in># sum_list (map mset xss)" by (metis set_mset_mset)
  then obtain xs where "xs \<in> set xss" "z \<in> set xs" using * by blast
  then show ?thesis using in_set_conv_nth [of xs xss] by blast
qed

lemma server_of_system:
  assumes "replicas_started C srvs" and "system_run C (init_system C srvs n) m st" and "within_limits C st" and "i < length srvs"
  shows "\<exists>rs. server_inv (su_P C) (su_PV C) (rp_id (su_rs C ! i)) (servers st ! i) rs"
    and "m < 2 ^ 64 \<Longrightarrow> sent_by (su_E C) (rp_id (su_rs C ! i)) (cast_by C (servers st) i)"
proof -
  obtain H private_key and K :: "('a, 'b) key_bytes" and open_ok meta_ok bind_ok where
    start: "start_replica H K private_key open_ok meta_ok None bind_ok = Inr (su_keys C ! i, srvs ! i)"
    using assms(1,4) unfolding replicas_started_def by blast
  have i: "i < length (servers st)" using system_run_parts [OF assms(2)] assms(4) by simp
  obtain m' where m': "m' \<le> m" and run: "server_run (su_E C) (su_P C) (su_PV C) (su_keys C ! i) (rp_id (su_rs C ! i)) (su_cap C) {good_io}
      (srvs ! i) m' (servers st ! i)"
    using system_run_parts [OF assms(2)] assms(4) by blast
  have "set (accepted (servers st ! i)) \<subseteq> all_writes (clients st)"
    using started_inv [OF assms(1,2)] i by (simp add: system_inv_def)
  with assms(3) have frames: "\<forall>txn\<in>set (accepted (servers st ! i)). \<forall>t n. frame_ok (su_P C) (signed_record (su_E C) (su_keys C ! i) txn t n)"
    unfolding within_limits_def by blast
  have log: "length (log_file (replica_log (node (servers st ! i)))) < 2 ^ 64" using assms(3) i by (simp add: within_limits_def)
  show "\<exists>rs. server_inv (su_P C) (su_PV C) (rp_id (su_rs C ! i)) (servers st ! i) rs"
    by (rule server_run_inv [OF run start_replica_inv(1) [OF start] frames log])
  show "sent_by (su_E C) (rp_id (su_rs C ! i)) (cast_by C (servers st) i)" if "m < 2 ^ 64"
  proof -
    obtain m'' where "m'' \<le> m'" "node_run (su_E C) (su_P C) (su_keys C ! i) (rp_id (su_rs C ! i)) (node (srvs ! i)) m'' (node (servers st ! i))"
      using server_run_node [OF run] by blast
    moreover have "init_pod_network_node open_ok meta_ok None = Inr (node (srvs ! i))"
      using start_replica_state [OF start] by simp
    ultimately show ?thesis unfolding sent_by_def using that m' by (meson le_less_trans le_trans order_refl)
  qed
qed

lemma sent_was_cast:
  assumes "replicas_started C srvs" and "system_run C (init_system C srvs n) m st" and "within_limits C st"
    and "i < length srvs" and "b \<in> sent_on (servers st ! i)" and "decode (su_PV C) b = Some v"
  shows "v \<in> cast_by C (servers st) i" and "replica_id v = rp_id (su_rs C ! i)"
proof -
  have i: "i < length (servers st)" using system_run_parts [OF assms(2)] assms(4) by simp
  obtain rs where rs: "server_inv (su_P C) (su_PV C) (rp_id (su_rs C ! i)) (servers st ! i) rs"
    using server_of_system(1) [OF assms(1-4)] by blast
  obtain x where x: "x \<in> set (sconns (servers st ! i))" "b \<in> set (wire x)" using assms(5) by (auto simp: sent_on_def)
  then obtain v' where v': "v' \<in> cast_by C (servers st) i" "encode (su_PV C) v' = Some b"
    using rs unfolding server_inv_def conn_inv_def by blast
  moreover have "wire_ok (su_PV C) v'" using assms(3) v'(1) i unfolding within_limits_def by blast
  ultimately have "v = v'" using assms(6) by (simp add: wire_ok_def)
  with v'(1) server_inv_ids [OF rs] show "v \<in> cast_by C (servers st) i" "replica_id v = rp_id (su_rs C ! i)" by blast+
qed

lemma handled_was_cast:
  assumes "replicas_started C srvs" and "system_run C (init_system C srvs n) m st" and "within_limits C st"
    and "cl \<in> set (clients st)" and "v \<in> set (handled cl)" and "j < length srvs" and "j \<notin> su_faulty C"
    and "replica_id v = rp_id (su_rs C ! j)" and "accepts (su_E C) (replicas (init_client_state (su_rs C))) v"
  shows "v \<in> cast_by C (servers st) j"
proof -
  have inv: "client_node_inv (su_E C) (su_cap C) (su_rs C) cl" "receives C (servers st) cl"
    and len: "length (servers st) = length srvs" "length (su_rs C) = length srvs"
    using started_inv [OF assms(1,2)] assms(1,4) by (simp_all add: system_inv_def replicas_started_def)
  have "interleaves (map (\<lambda>c. to_updater (comms c)) (conns cl)) (handled cl @ queue cl)"
    using inv(1) by (simp add: client_node_inv_def)
  from interleaves_from [OF this, of v] assms(5)
  obtain i where "i < length (conns cl)" "v \<in> set (to_updater (comms (conns cl ! i)))" by auto
  then have "origin C (servers st) i v" using inv(2) by (simp add: receives_def)
  then consider b where "i < length srvs" "b \<in> sent_on (servers st ! i)" "decode (su_PV C) b = Some v"
    | "unforged C (servers st) v" using len by (auto simp: origin_def)
  then show ?thesis
  proof cases
    case 1
    note sent = sent_was_cast [OF assms(1-3) 1]
    moreover have "i = j" using sent(2) assms(1,6,8) 1(1) len
      by (auto simp: replicas_started_def distinct_conv_nth)
    ultimately show ?thesis by simp
  next
    case 2
    with assms(6-9) len show ?thesis by (simp add: unforged_def)
  qed
qed

lemma running_view:
  assumes "replicas_started C srvs" and "system_run C (init_system C srvs n) m st" and "cl \<in> set (clients st)" and "ended cl = None"
  shows "start_pod_data_updater (su_E C) (init_client_state (su_rs C)) (handled cl) = (view cl, None)"
  using started_inv [OF assms(1,2)] assms(3,4) by (simp add: system_inv_def client_node_inv_def)

lemma honest_votes:
  assumes "replicas_started C srvs" and "system_run C (init_system C srvs n) m st" and "within_limits C st"
    and "m < 2 ^ 64" and "cl \<in> set (clients st)" and "cl' \<in> set (clients st)" and "j < length srvs" and "j \<notin> su_faulty C"
  shows "sent_by (su_E C) (rp_id (su_rs C ! j))
    (accepted_of (su_E C) (su_rs C) (rp_id (su_rs C ! j)) (handled cl @ handled cl'))"
proof (rule sent_by_subset [OF server_of_system(2) [OF assms(1-3,7,4)]])
  show "accepted_of (su_E C) (su_rs C) (rp_id (su_rs C ! j)) (handled cl @ handled cl') \<subseteq>
      cast_by C (servers st) j"
    using handled_was_cast [OF assms(1-3,5) _ assms(7,8)] handled_was_cast [OF assms(1-3,6) _ assms(7,8)]
    by (auto simp: accepted_of_def)
qed

section \<open>Properties\<close>

text \<open>
  C6. Nothing that a replica which is not faulty stands for was made up: a transaction for which a
  client has a timestamp of such a replica was passed to some client's API, and the timestamp is
  that of the vote the replica cast for it, whatever the faulty replicas sent: a vote it has
  broadcast or, when the client found it in the log first, has logged and broadcasts next.
\<close>

theorem recorded_transactions_were_written:
  assumes "replicas_started C srvs" and "system_run C (init_system C srvs n) m st" and "within_limits C st"
    and "cl \<in> set (clients st)" and "ended cl = None" and "tsps (view cl) txn = Some mp"
    and "j < length srvs" and "j \<notin> su_faulty C" and "mp (rp_id (su_rs C ! j)) = Some t"
  shows "txn \<in> all_writes (clients st) \<and>
    (\<exists>v\<in>set (broadcast (node (servers st ! j)) @ map (vote_of_record (rp_id (su_rs C ! j))) (unsent (node (servers st ! j)))).
       transaction v = Some txn \<and> timestamp v = t)"
proof -
  let ?r = "rp_id (su_rs C ! j)"
  note run = running_view [OF assms(1,2,4,5)]
  have "ts_of (view cl) txn ?r = Some t" using assms(6,9) by (simp add: ts_of_def)
  from recorded_vote [OF run this] obtain v where
    v: "v \<in> set (handled cl)" "transaction v = Some txn" "replica_id v = ?r" "timestamp v = t"
    "accepts (su_E C) (replicas (view cl)) v" by blast
  moreover have "replicas (view cl) = replicas (init_client_state (su_rs C))"
    using updater.loop_fwd [OF init_client_inv [of "su_E C" "su_rs C"], of "handled cl"] run
    by (simp add: init_start client_fwd_def)
  ultimately have i: "v \<in> cast_by C (servers st) j"
    using handled_was_cast [OF assms(1-4) v(1) assms(7,8)] by simp
  obtain rs where rs: "server_inv (su_P C) (su_PV C) ?r (servers st ! j) rs"
    using server_of_system(1) [OF assms(1-3,7)] by blast
  then obtain ss hbs where hbs: "rs = ss @ unsent (node (servers st ! j))"
    "broadcast (node (servers st ! j)) \<in> shuffles (map (vote_of_record ?r) ss) hbs"
    "\<forall>v\<in>set hbs. transaction v = Some \<lparr>data = HEARTBEAT\<rparr>" by (auto simp: server_inv_def votes_are_def)
  have "\<not> is_heartbeat txn" using reached_inv [OF run] assms(6) by (simp add: api_inv_def)
  then have "v \<notin> set hbs" using hbs(3) v(2) by (auto simp: is_heartbeat_def)
  with i set_shuffles [OF hbs(2)] hbs(1) obtain rec where rec: "rec \<in> set rs" "v = vote_of_record ?r rec"
    by (auto simp: votes_issued_def)
  then have "tx rec = Some txn" using v(2) by (simp add: vote_of_record_def)
  with rs rec(1) have "txn \<in> set (accepted (servers st ! j))" by (auto simp: server_inv_def)
  moreover have "j < length (servers st)" using system_run_parts [OF assms(2)] assms(7) by simp
  ultimately have "txn \<in> all_writes (clients st)"
    using started_inv [OF assms(1,2)] nth_mem [of j "servers st"] unfolding system_inv_def by blast
  with i v show ?thesis unfolding votes_issued_def by blast
qed

text \<open>
  C4. Two clients of a pod never disagree about a replica that is not faulty: if both have a
  timestamp of it for a transaction, it is the same, whatever the faulty replicas sent to either.
\<close>

theorem clients_of_pod_agree:
  assumes "replicas_started C srvs" and "system_run C (init_system C srvs n) m st" and "within_limits C st"
    and "m < 2 ^ 64" and "cl \<in> set (clients st)" and "cl' \<in> set (clients st)" and "ended cl = None" and "ended cl' = None"
    and "j < length srvs" and "j \<notin> su_faulty C"
    and "tsps (view cl) txn = Some mp" and "mp (rp_id (su_rs C ! j)) = Some t"
    and "tsps (view cl') txn = Some mp'" and "mp' (rp_id (su_rs C ! j)) = Some t'"
  shows "t = t'"
proof -
  have "rp_id (su_rs C ! j) \<in> rp_id ` set (su_rs C)" using assms(1,9) by (simp add: replicas_started_def)
  from views_agree [OF running_view [OF assms(1,2,5,7)] running_view [OF assms(1,2,6,8)] this honest_votes [OF assms(1-6,9,10)],
      where txn = txn]
  show ?thesis using assms(11-14) by (simp add: ts_of_def)
qed

text \<open>
  C9. The bounds a client reports hold for every other client of the pod. When another client has
  at least \<open>alpha\<close> votes on a transaction, of which at most \<open>beta\<close> are votes of faulty replicas or
  have not reached the first client, the median of its votes lies between the \<open>rmin\<close> and the
  \<open>rmax\<close> of every read of the first.
\<close>

theorem bounds_hold_across_pod:
  assumes "replicas_started C srvs" and "system_run C (init_system C srvs n) m st" and "within_limits C st"
    and "m < 2 ^ 64" and "cl \<in> set (clients st)" and "cl' \<in> set (clients st)" and "ended cl = None" and "ended cl' = None"
    and "hash_order_ok ho (view cl)" and "read \<alpha> \<beta> ho (view cl) = Inr pd" and "rec \<in> set (pd_t pd)"
    and "tr_transaction rec = Some txn" and "tsps (view cl) txn = Some mp" and "tsps (view cl') txn = Some mp'"
    and "0 < \<alpha>" and "\<alpha> \<le> card (dom mp')"
    and "card {r \<in> dom mp'. r \<notin> dom mp \<or> r \<in> (\<lambda>j. rp_id (su_rs C ! j)) ` su_faulty C} \<le> \<beta>"
  shows "rmin rec \<le> sort (votes_of mp') ! (card (dom mp') div 2) \<and>
    sort (votes_of mp') ! (card (dom mp') div 2) \<le> rmax rec"
proof -
  let ?H = "(\<lambda>j. rp_id (su_rs C ! j)) ` ({..<length srvs} - su_faulty C)"
  note run = running_view [OF assms(1,2,5,7)] and run' = running_view [OF assms(1,2,6,8)]
  have honest: "\<forall>r\<in>?H. sent_by (su_E C) r (accepted_of (su_E C) (su_rs C) r (handled cl @ handled cl'))"
    using honest_votes [OF assms(1-6)] by auto
  have "dom mp' \<subseteq> rp_id ` set (su_rs C)"
    using reached_inv [OF run'] assms(14) later_state(6) [of "su_E C" "su_rs C" "handled cl'" "view cl'" "[]" "view cl'" None] run'
    by (simp add: api_inv_def)
  moreover have "rp_id ` set (su_rs C) = (\<lambda>j. rp_id (su_rs C ! j)) ` {..<length srvs}"
    using assms(1) by (auto simp: replicas_started_def set_conv_nth)
  ultimately have "dom mp' - dom mp \<inter> ?H \<subseteq> {r \<in> dom mp'. r \<notin> dom mp \<or> r \<in> (\<lambda>j. rp_id (su_rs C ! j)) ` su_faulty C}"
    by blast
  moreover have "finite (dom mp')" using assms(15,16) by (auto intro: card_ge_0_finite)
  ultimately have "card (dom mp' - dom mp \<inter> ?H) \<le> \<beta>"
    by (intro order_trans [OF card_mono assms(17)]) simp_all
  from median_within [OF run run' honest assms(9-16) this] show ?thesis .
qed

end
