(* ===== verification/ReplicaProgress.thy ===== *)
theory ReplicaProgress
  imports ReplicaServer
begin

text \<open>
  Progress of a whole replica that started on an empty log and whose disk has not failed: from every
  state it reaches while its services run, it can bring all it has accepted into its log and its
  votes to every connection that keeps up. The schedule is the natural one: send what waits in the
  connections, log and broadcast one transaction, and so on.
\<close>

abbreviation serves ::
  "('sk, 'pk, 'sig) ed25519 \<Rightarrow> vote_record prost_message \<Rightarrow> vote prost_message \<Rightarrow> 'sk \<Rightarrow> u64 \<Rightarrow> nat \<Rightarrow>
     replica_server \<Rightarrow> replica_server \<Rightarrow> bool" where
  "serves E P PV k rid cap \<equiv> (server_step E P PV k rid cap {good_io})\<^sup>*\<^sup>*"

text \<open>A connection that keeps up with the broadcast channel, which holds the last \<open>cap\<close> votes.\<close>

definition keeps_up :: "nat \<Rightarrow> vote list \<Rightarrow> server_conn \<Rightarrow> bool" where
  "keeps_up cap b c \<longleftrightarrow> funnel_on c \<and> sender_on c \<and> funnel_next c \<le> length b \<and> length b \<le> funnel_next c + cap"

text \<open>The accepted transactions whose votes have not been broadcast, and the vote a funnel holds.\<close>

definition outstanding :: "replica_server \<Rightarrow> transaction list" where
  "outstanding st = map (\<lambda>r. the (tx r)) (unsent (node st)) @ taken (node st) @ write_rx st"

definition waiting :: "server_conn \<Rightarrow> vote list" where
  "waiting c = (case held c of None \<Rightarrow> [] | Some v \<Rightarrow> [v])"

definition messages :: "vote prost_message \<Rightarrow> vote list \<Rightarrow> bytes list" where
  "messages PV vs = map (\<lambda>v. the (encode PV v)) vs"

section \<open>Sending what waits in a connection\<close>

abbreviation with_conn :: "replica_server \<Rightarrow> nat \<Rightarrow> server_conn \<Rightarrow> replica_server" where
  "with_conn st i c \<equiv> st\<lparr>sconns := (sconns st)[i := c]\<rparr>"

lemma conn_unchanged [simp]:
  "sender_on c \<Longrightarrow> c\<lparr>sender_on := True\<rparr> = c" "funnel_on c \<Longrightarrow> c\<lparr>funnel_on := True\<rparr> = c"
  "vote_rx c = [] \<Longrightarrow> c\<lparr>vote_rx := []\<rparr> = c" "funnel_next c = n \<Longrightarrow> c\<lparr>funnel_next := n\<rparr> = c"
  "held c = None \<Longrightarrow> c\<lparr>held := None\<rparr> = c"
  by simp_all

lemma waiting_simps [simp]: "held c = None \<Longrightarrow> waiting c = []" "held c = Some v \<Longrightarrow> waiting c = [v]"
  by (simp_all add: waiting_def)

lemma messages_simps [simp]:
  "messages PV [] = []" "messages PV (v # vs) = the (encode PV v) # messages PV vs"
  "messages PV (vs @ ws) = messages PV vs @ messages PV ws"
  by (simp_all add: messages_def)

lemma send_one:
  assumes "running st" and "i < length (sconns st)" and "sender_on (sconns st ! i)" and "vote_rx (sconns st ! i) = v # vs"
    and "replica_id v = rid" and "encode PV v \<noteq> None"
  shows "server_step E P PV k rid cap ios st (with_conn st i ((sconns st ! i)\<lparr>vote_rx := vs,
    wire := wire (sconns st ! i) @ messages PV [v]\<rparr>))"
proof -
  have "v\<lparr>replica_id := rid\<rparr> = v" using assms(5) by auto
  then have "vote_sender PV rid [(v, True)] = (messages PV [v], False)" using assms(6) by auto
  from send_vote_message [OF assms(1,2) refl assms(3,4) this] assms(3) show ?thesis by simp
qed

lemma send_waiting:
  assumes "running st" and "i < length (sconns st)" and "sender_on (sconns st ! i)"
    and "\<forall>v\<in>set (vote_rx (sconns st ! i)). replica_id v = rid \<and> encode PV v \<noteq> None"
  shows "serves E P PV k rid cap st (with_conn st i ((sconns st ! i)\<lparr>vote_rx := [],
    wire := wire (sconns st ! i) @ messages PV (vote_rx (sconns st ! i))\<rparr>))"
  using assms
proof (induction "vote_rx (sconns st ! i)" arbitrary: st)
  case Nil
  then have "vote_rx (sconns st ! i) = []" by simp
  then show ?case by simp
next
  case (Cons v vs)
  let ?c = "sconns st ! i"
  let ?st = "with_conn st i (?c\<lparr>vote_rx := vs, wire := wire ?c @ messages PV [v]\<rparr>)"
  have v: "replica_id v = rid" "encode PV v \<noteq> None" "\<forall>v\<in>set vs. replica_id v = rid \<and> encode PV v \<noteq> None"
    using Cons.prems(4) by (simp_all flip: Cons.hyps(2))
  have step: "server_step E P PV k rid cap {good_io} st ?st"
    by (rule send_one [OF Cons.prems(1-3) Cons.hyps(2) [symmetric] v(1,2)])
  have "running ?st" using Cons.prems(1) by (simp add: running_def)
  from Cons.hyps(1) [OF _ this] Cons.prems(2,3) v(3)
  have "serves E P PV k rid cap ?st (with_conn st i (?c\<lparr>vote_rx := [], wire := wire ?c @ messages PV (v # vs)\<rparr>))" by simp
  with step Cons.hyps(2) show ?case by (simp add: converse_rtranclp_into_rtranclp)
qed

text \<open>The funnel passes on the vote it holds, and the sender sends it.\<close>

lemma pass_held:
  assumes "running st" and "i < length (sconns st)" and "funnel_on (sconns st ! i)" and "sender_on (sconns st ! i)"
    and "vote_rx (sconns st ! i) = []" and "\<forall>v\<in>set (waiting (sconns st ! i)). replica_id v = rid \<and> encode PV v \<noteq> None"
  shows "serves E P PV k rid cap st (with_conn st i ((sconns st ! i)\<lparr>held := None,
    wire := wire (sconns st ! i) @ messages PV (waiting (sconns st ! i))\<rparr>))"
proof (cases "held (sconns st ! i)")
  case None
  then show ?thesis by simp
next
  case (Some v)
  let ?c = "sconns st ! i"
  let ?st = "with_conn st i (?c\<lparr>held := None, vote_rx := [v]\<rparr>)"
  have v: "replica_id v = rid" "encode PV v \<noteq> None" using assms(6) Some by simp_all
  have 1: "server_step E P PV k rid cap {good_io} st ?st"
    using funnel_send [OF assms(1,2) refl assms(3) Some, of "[v]" False] assms(3-5) by (simp add: NODE_CHANNEL_SIZE_def)
  have 2: "server_step E P PV k rid cap {good_io} ?st
      (with_conn st i (?c\<lparr>held := None, vote_rx := [], wire := wire ?c @ messages PV [v]\<rparr>))"
    using send_one [of ?st i v "[]" rid PV E P k cap "{good_io}"] assms(1-5) v by (simp add: running_def)
  have "?c\<lparr>held := None, vote_rx := [], wire := wire ?c @ messages PV [v]\<rparr> =
      ?c\<lparr>held := None, wire := wire ?c @ messages PV (waiting ?c)\<rparr>"
    using assms(5) Some by simp
  with converse_rtranclp_into_rtranclp [where r = "server_step E P PV k rid cap {good_io}", OF 1
      r_into_rtranclp [where r = "server_step E P PV k rid cap {good_io}", OF 2]] show ?thesis by simp
qed

lemma funnel_waiting:
  assumes "running st" and "i < length (sconns st)" and "keeps_up cap (broadcast (node st)) (sconns st ! i)"
    and "vote_rx (sconns st ! i) = []" and "held (sconns st ! i) = None"
    and "\<forall>v\<in>set (broadcast (node st)). replica_id v = rid \<and> encode PV v \<noteq> None"
  shows "serves E P PV k rid cap st (with_conn st i ((sconns st ! i)\<lparr>funnel_next := length (broadcast (node st)),
    wire := wire (sconns st ! i) @ messages PV (drop (funnel_next (sconns st ! i)) (broadcast (node st)))\<rparr>))"
  using assms
proof (induction "length (broadcast (node st)) - funnel_next (sconns st ! i)" arbitrary: st)
  case 0
  then have "funnel_next (sconns st ! i) = length (broadcast (node st))" by (simp add: keeps_up_def)
  then show ?case by simp
next
  case (Suc n)
  let ?c = "sconns st ! i" and ?b = "broadcast (node st)"
  let ?v = "?b ! funnel_next ?c"
  let ?c1 = "?c\<lparr>funnel_next := Suc (funnel_next ?c), held := Some ?v\<rparr>"
  let ?c2 = "?c\<lparr>funnel_next := Suc (funnel_next ?c), wire := wire ?c @ messages PV [?v]\<rparr>"
  have less: "funnel_next ?c < length ?b" using Suc.hyps(2) by simp
  have v: "replica_id ?v = rid" "encode PV ?v \<noteq> None" using Suc.prems(6) less by (auto simp: all_set_conv_all_nth)
  have on: "funnel_on ?c" "sender_on ?c" "length ?b \<le> funnel_next ?c + cap" using Suc.prems(3) by (simp_all add: keeps_up_def)
  have 1: "server_step E P PV k rid cap {good_io} st (with_conn st i ?c1)"
    by (rule funnel_recv [OF Suc.prems(1,2) refl on(1) Suc.prems(5) less on(3)])
  have "serves E P PV k rid cap (with_conn st i ?c1)
      (with_conn st i (?c1\<lparr>held := None, wire := wire ?c @ messages PV [?v]\<rparr>))"
    using pass_held [of "with_conn st i ?c1" i rid PV E P k cap] Suc.prems(1,2,4) on v by (simp add: running_def)
  moreover have "?c1\<lparr>held := None, wire := wire ?c @ messages PV [?v]\<rparr> = ?c2" using Suc.prems(5) by simp
  ultimately have 2: "serves E P PV k rid cap (with_conn st i ?c1) (with_conn st i ?c2)" by metis
  have 3: "serves E P PV k rid cap (with_conn st i ?c2) (with_conn st i (?c2\<lparr>funnel_next := length ?b,
      wire := wire ?c2 @ messages PV (drop (Suc (funnel_next ?c)) ?b)\<rparr>))"
    using Suc.hyps(1) [of "with_conn st i ?c2"] Suc.hyps(2) Suc.prems less by (simp add: running_def keeps_up_def)
  have "?c2\<lparr>funnel_next := length ?b, wire := wire ?c2 @ messages PV (drop (Suc (funnel_next ?c)) ?b)\<rparr> =
      ?c\<lparr>funnel_next := length ?b, wire := wire ?c @ messages PV (drop (funnel_next ?c) ?b)\<rparr>"
    by (simp add: Cons_nth_drop_Suc [OF less, symmetric])
  with converse_rtranclp_into_rtranclp [where r = "server_step E P PV k rid cap {good_io}", OF 1
      rtranclp_trans [where r = "server_step E P PV k rid cap {good_io}", OF 2 3]] show ?case by simp
qed

text \<open>Everything that waits for a connection, in its channel, in its funnel and in the broadcast channel.\<close>

definition drained :: "vote prost_message \<Rightarrow> vote list \<Rightarrow> server_conn \<Rightarrow> server_conn" where
  "drained PV b c = c\<lparr>vote_rx := [], held := None, funnel_next := length b,
     wire := wire c @ messages PV (vote_rx c @ waiting c @ drop (funnel_next c) b)\<rparr>"

definition all_delivered :: "vote prost_message \<Rightarrow> nat \<Rightarrow> replica_server \<Rightarrow> replica_server \<Rightarrow> bool" where
  "all_delivered PV cap st st' \<longleftrightarrow> length (sconns st') = length (sconns st) \<and>
     (\<forall>i<length (sconns st). write_on (sconns st' ! i) = write_on (sconns st ! i) \<and>
        (keeps_up cap (broadcast (node st)) (sconns st ! i) \<longrightarrow>
           sconns st' ! i = drained PV (broadcast (node st')) (sconns st ! i)))"

lemma drained_facts [simp]:
  "vote_rx (drained PV b c) = []" "held (drained PV b c) = None" "funnel_next (drained PV b c) = length b" "write_on (drained PV b c) = write_on c"
  "keeps_up cap b c \<Longrightarrow> keeps_up cap' b (drained PV b c)"
  by (simp_all add: drained_def keeps_up_def)

lemma drained_later: "funnel_next c \<le> length b \<Longrightarrow> drained PV (b @ vs) (drained PV b c) = drained PV (b @ vs) c"
  by (simp add: drained_def)

lemma drain_connection:
  assumes "running st" and "server_inv P PV rid st rs" and "i < length (sconns st)"
    and "keeps_up cap (broadcast (node st)) (sconns st ! i)" and "\<forall>v. encode PV v \<noteq> None"
  shows "serves E P PV k rid cap st (with_conn st i (drained PV (broadcast (node st)) (sconns st ! i)))"
proof -
  let ?b = "broadcast (node st)" and ?c = "sconns st ! i"
  let ?c1 = "?c\<lparr>vote_rx := [], wire := wire ?c @ messages PV (vote_rx ?c)\<rparr>"
  let ?c2 = "?c1\<lparr>held := None, wire := wire ?c1 @ messages PV (waiting ?c)\<rparr>"
  have "set (vote_rx ?c @ waiting ?c) \<subseteq> set (votes_issued rid (node st))" "set ?b \<subseteq> set (votes_issued rid (node st))"
    using server_inv_conn [OF assms(2,3)] by (cases "held ?c"; simp add: conn_inv_def votes_issued_def)+
  then have ids: "\<forall>v\<in>set ?b. replica_id v = rid" "\<forall>v\<in>set (vote_rx ?c). replica_id v = rid" "\<forall>v\<in>set (waiting ?c). replica_id v = rid"
    using server_inv_ids [OF assms(2)] by auto
  have on: "funnel_on ?c" "sender_on ?c" using assms(4) by (simp_all add: keeps_up_def)
  have 1: "serves E P PV k rid cap st (with_conn st i ?c1)"
    by (rule send_waiting) (use assms(1,3,5) on ids(2) in auto)
  have w: "waiting ?c1 = waiting ?c" by (simp add: waiting_def)
  have 2: "serves E P PV k rid cap (with_conn st i ?c1) (with_conn st i ?c2)"
    using pass_held [of "with_conn st i ?c1" i rid PV E P k cap] assms(1,3,5) on ids(3) w by (simp add: running_def)
  have 3: "serves E P PV k rid cap (with_conn st i ?c2)
      (with_conn st i (?c2\<lparr>funnel_next := length ?b, wire := wire ?c2 @ messages PV (drop (funnel_next ?c2) ?b)\<rparr>))"
    using funnel_waiting [of "with_conn st i ?c2" i cap rid PV E P k] assms ids(1) by (simp add: keeps_up_def running_def)
  have "?c2\<lparr>funnel_next := length ?b, wire := wire ?c2 @ messages PV (drop (funnel_next ?c2) ?b)\<rparr> = drained PV ?b ?c"
    by (simp add: drained_def)
  with rtranclp_trans [where r = "server_step E P PV k rid cap {good_io}", OF 1
      rtranclp_trans [where r = "server_step E P PV k rid cap {good_io}", OF 2 3]] show ?thesis by simp
qed

definition drain_upto :: "vote prost_message \<Rightarrow> nat \<Rightarrow> nat \<Rightarrow> replica_server \<Rightarrow> replica_server" where
  "drain_upto PV cap n st = st\<lparr>sconns := map (\<lambda>i. if i < n \<and> keeps_up cap (broadcast (node st)) (sconns st ! i)
     then drained PV (broadcast (node st)) (sconns st ! i) else sconns st ! i) [0..<length (sconns st)]\<rparr>"

lemma drain_upto_facts [simp]:
  "node (drain_upto PV cap n st) = node st" "write_rx (drain_upto PV cap n st) = write_rx st"
  "accepted (drain_upto PV cap n st) = accepted st" "length (sconns (drain_upto PV cap n st)) = length (sconns st)"
  "running (drain_upto PV cap n st) = running st" "outstanding (drain_upto PV cap n st) = outstanding st"
  by (simp_all add: drain_upto_def running_def outstanding_def)

lemma drain_upto_nth:
  "i < length (sconns st) \<Longrightarrow> sconns (drain_upto PV cap n st) ! i =
     (if i < n \<and> keeps_up cap (broadcast (node st)) (sconns st ! i)
      then drained PV (broadcast (node st)) (sconns st ! i) else sconns st ! i)"
  by (simp add: drain_upto_def)

lemma drain_upto_Suc:
  assumes "n < length (sconns st)"
  shows "drain_upto PV cap (Suc n) st =
    (if keeps_up cap (broadcast (node st)) (sconns st ! n)
     then with_conn (drain_upto PV cap n st) n (drained PV (broadcast (node st)) (sconns st ! n))
     else drain_upto PV cap n st)"
  using assms unfolding drain_upto_def
  by (intro replica_server.equality) (auto intro!: nth_equalityI simp: nth_list_update less_Suc_eq)

lemma serves_inv:
  assumes "serves E P PV k rid cap st st'" and "server_inv P PV rid st rs"
    and "\<forall>txn\<in>set (accepted st'). \<forall>t n. frame_ok P (signed_record E k txn t n)"
    and "length (log_file (replica_log (node st'))) < 2 ^ 64"
  shows "\<exists>rs'. server_inv P PV rid st' rs'"
  using assms
proof (induction rule: rtranclp_induct)
  case (step st1 st2)
  note grows = server_step_grows [OF step.hyps(2)]
  from step grows obtain rs1 where rs1: "server_inv P PV rid st1 rs1" by fastforce
  show ?case
    by (rule server_step_inv [OF step.hyps(2) rs1]) (use step.prems(2,3) grows in auto)
qed blast

lemma drain_connections:
  assumes "running st" and "server_inv P PV rid st rs" and "n \<le> length (sconns st)" and "\<forall>v. encode PV v \<noteq> None"
    and "\<forall>txn\<in>set (accepted st). \<forall>t n. frame_ok P (signed_record E k txn t n)"
    and "length (log_file (replica_log (node st))) < 2 ^ 64"
  shows "serves E P PV k rid cap st (drain_upto PV cap n st)"
  using assms(3)
proof (induction n)
  case 0
  have "drain_upto PV cap 0 st = st" by (simp add: drain_upto_def map_nth)
  then show ?case by simp
next
  case (Suc n)
  let ?d = "drain_upto PV cap n st"
  have run: "serves E P PV k rid cap st ?d" using Suc by simp
  from serves_inv [OF run assms(2)] assms(5,6) obtain rs' where "server_inv P PV rid ?d rs'" by auto
  from drain_connection [OF _ this, of n cap E k] assms(1,4) Suc.prems
  have "keeps_up cap (broadcast (node st)) (sconns st ! n) \<Longrightarrow> serves E P PV k rid cap ?d (drain_upto PV cap (Suc n) st)"
    by (simp add: drain_upto_Suc drain_upto_nth)
  with run Suc.prems show ?case by (cases "keeps_up cap (broadcast (node st)) (sconns st ! n)") (simp_all add: drain_upto_Suc)
qed

section \<open>Logging one transaction\<close>

text \<open>The state after the log service has dealt with the first outstanding transaction.\<close>

definition published :: "vote_record prost_message \<Rightarrow> nat \<Rightarrow> replica_server \<Rightarrow> replica_server \<Rightarrow> bool" where
  "published P L st st' \<longleftrightarrow> running st' \<and> outstanding st' = tl (outstanding st) \<and> accepted st' = accepted st \<and>
     sconns st' = sconns st \<and>
     (\<exists>v. broadcast (node st') = broadcast (node st) @ [v] \<and> transaction v = Some (hd (outstanding st))) \<and>
     length (log_file (replica_log (node st'))) \<le> length (log_file (replica_log (node st))) + L"

definition frames_fit ::
  "('sk, 'pk, 'sig) ed25519 \<Rightarrow> vote_record prost_message \<Rightarrow> 'sk \<Rightarrow> nat \<Rightarrow> transaction list \<Rightarrow> bool" where
  "frames_fit E P k L txs \<longleftrightarrow> (\<forall>txn\<in>set txs. \<forall>t n. frame_ok P (signed_record E k txn t n) \<and>
     length (frame P (signed_record E k txn t n)) \<le> L)"

lemma finish_logged:
  assumes "running st" and "server_inv P PV rid st rs" and "lv (node st) = LvLogged rec"
  shows "\<exists>st'. server_step E P PV k rid cap {good_io} st st' \<and> published P L st st'"
proof -
  let ?st = "st\<lparr>node := (log_vote_send rid rec True (node st))\<lparr>lv := LvIdle\<rparr>\<rparr>"
  have "rec \<in> set rs" using assms(2,3) by (auto simp: server_inv_def votes_are_def unsent_def)
  then have "tx rec = Some (the (tx rec))" using assms(2) by (auto simp: server_inv_def)
  then have "published P L st ?st"
    using assms(1,3) by (simp add: published_def running_def outstanding_def taken_def unsent_def vote_of_record_def)
  with log_send [OF assms(1,3), of E P PV k rid cap "{good_io}"] show ?thesis by blast
qed

lemma finish_stamped:
  assumes "running st" and "server_inv P PV rid st rs" and "lv (node st) = LvStamped txn n t"
    and "frames_fit E P k L (accepted st)" and "length (log_file (replica_log (node st))) + L < 2 ^ 64"
  shows "\<exists>st'. serves E P PV k rid cap st st' \<and> published P L st st'"
proof -
  let ?r = "signed_record E k txn t n"
  have log: "log_is P (node st) rs" "txn \<in> set (accepted st)"
    using assms(2,3) by (simp_all add: server_inv_def taken_def)
  then have ok: "frame_ok P ?r" "length (frame P ?r) \<le> L" using assms(4) by (auto simp: frames_fit_def)
  then have room: "length (frames P (rs @ [?r])) < 2 ^ 64" using assms(5) log(1) by (simp add: log_is_def)
  from log_good [OF log(1) ok(1) room] obtain l where
    l: "append_entry P good_io ?r (replica_log (node st)) = (Appended, l)" "log_is P (node st\<lparr>replica_log := l\<rparr>) (rs @ [?r])"
    by blast
  have app: "log_vote_append E P k txn n t good_io (node st) = (node st\<lparr>replica_log := l\<rparr>, ?r, Appended)"
    using l(1) by (simp add: log_vote_append_eq)
  let ?st = "st\<lparr>node := node st\<lparr>replica_log := l, lv := LvLogged ?r\<rparr>\<rparr>"
  have step: "server_step E P PV k rid cap {good_io} st ?st"
    using log_append [OF assms(1,3) _ app, of "{good_io}" PV rid cap] by simp
  have "server_inv P PV rid ?st (rs @ [?r])" using server_inv_append [OF assms(2,3) app ok(1) room] by simp
  from finish_logged [OF _ this, of ?r E k cap 0] assms(1) obtain st' where
    st': "server_step E P PV k rid cap {good_io} ?st st'" "published P 0 ?st st'" by (auto simp: running_def)
  have "length (log_file l) \<le> length (log_file (replica_log (node st))) + L"
    using l(2) log(1) ok(2) by (simp add: log_is_def)
  then have "published P L st st'"
    using st'(2) assms(3) by (simp add: published_def outstanding_def taken_def unsent_def signed_record_def)
  with step st'(1) show ?thesis by (meson converse_rtranclp_into_rtranclp r_into_rtranclp)
qed

lemma published_from:
  assumes "published P L st1 st'" and "outstanding st1 = outstanding st" and "accepted st1 = accepted st"
    and "sconns st1 = sconns st" and "broadcast (node st1) = broadcast (node st)"
    and "replica_log (node st1) = replica_log (node st)"
  shows "published P L st st'"
  using assms by (simp add: published_def)

lemma finish_taken:
  assumes "running st" and "server_inv P PV rid st rs" and "lv (node st) = LvTaken txn n"
    and "frames_fit E P k L (accepted st)" and "length (log_file (replica_log (node st))) + L < 2 ^ 64"
  shows "\<exists>st'. serves E P PV k rid cap st st' \<and> published P L st st'"
proof -
  let ?st = "st\<lparr>node := (node st)\<lparr>lv := LvStamped txn n 0\<rparr>\<rparr>"
  have step: "server_step E P PV k rid cap {good_io} st ?st"
    using log_clock [OF assms(1,3), where now = "Some 0" and E = E and P = P and PV = PV and k = k and rid = rid and cap = cap
        and ios = "{good_io}"] by (simp add: get_current_round_def)
  have inv: "server_inv P PV rid ?st rs" by (rule server_inv_node [OF assms(2)]) (use assms(3) in \<open>simp_all add: taken_def unsent_def\<close>)
  have "running ?st" using assms(1) by (simp add: running_def)
  from finish_stamped [OF this inv, of txn n 0 E k L cap] assms(4,5) obtain st' where
    st': "serves E P PV k rid cap ?st st'" "published P L ?st st'" by auto
  have "published P L st st'"
    by (rule published_from [OF st'(2)]) (use assms(3) in \<open>simp_all add: outstanding_def taken_def unsent_def\<close>)
  with step st'(1) show ?thesis by (meson converse_rtranclp_into_rtranclp)
qed

lemma finish_waiting:
  assumes "running st" and "server_inv P PV rid st rs" and "lv (node st) = LvIdle" and "write_rx st = txn # txs"
    and "frames_fit E P k L (accepted st)" and "length (log_file (replica_log (node st))) + L < 2 ^ 64"
  shows "\<exists>st'. serves E P PV k rid cap st st' \<and> published P L st st'"
proof -
  let ?st = "st\<lparr>node := (node st)\<lparr>nextsn := nextsn (node st) + 1, lv := LvTaken txn (nextsn (node st))\<rparr>, write_rx := txs\<rparr>"
  have step: "server_step E P PV k rid cap {good_io} st ?st"
    using log_recv [OF assms(1,3,4) fetch_add_def, where E = E and P = P and PV = PV and k = k and rid = rid and cap = cap
        and ios = "{good_io}"] by simp
  have inv: "server_inv P PV rid ?st rs"
    using assms(2-4) by (auto simp: server_inv_def log_is_def votes_are_def taken_def votes_issued_def unsent_def)
  have "running ?st" using assms(1) by (simp add: running_def)
  from finish_taken [OF this inv, of txn "nextsn (node st)" E k L cap] assms(5,6) obtain st' where
    st': "serves E P PV k rid cap ?st st'" "published P L ?st st'" by auto
  have "published P L st st'"
    by (rule published_from [OF st'(2)]) (use assms(3,4) in \<open>simp_all add: outstanding_def taken_def unsent_def\<close>)
  with step st'(1) show ?thesis by (meson converse_rtranclp_into_rtranclp)
qed

lemma publish_one:
  assumes "running st" and "server_inv P PV rid st rs" and "outstanding st \<noteq> []"
    and "frames_fit E P k L (accepted st)" and "length (log_file (replica_log (node st))) + L < 2 ^ 64"
  shows "\<exists>st'. serves E P PV k rid cap st st' \<and> published P L st st'"
proof (cases "lv (node st)")
  case LvIdle
  with assms(3) obtain txn txs where "write_rx st = txn # txs" by (cases "write_rx st") (auto simp: outstanding_def taken_def unsent_def)
  from finish_waiting [OF assms(1,2) LvIdle this assms(4,5)] show ?thesis .
next
  case (LvTaken txn n)
  from finish_taken [OF assms(1,2) this assms(4,5)] show ?thesis .
next
  case (LvStamped txn n t)
  from finish_stamped [OF assms(1,2) this assms(4,5)] show ?thesis .
next
  case (LvLogged rec)
  from finish_logged [OF assms(1,2) this, of E k cap L] show ?thesis by blast
next
  case LvStopped
  with assms(1) show ?thesis by (simp add: running_def)
qed

section \<open>Serving everything\<close>

lemma drain_all_delivered:
  "all_delivered PV cap st (drain_upto PV cap (length (sconns st)) st)"
  by (simp add: all_delivered_def drain_upto_nth)

lemma drain_all_keeps_up:
  assumes "i < length (sconns st)" and "keeps_up cap (broadcast (node st)) (sconns st ! i)" and "0 < cap"
  shows "keeps_up cap (broadcast (node st) @ [v]) (sconns (drain_upto PV cap (length (sconns st)) st) ! i)"
  using assms by (simp add: drain_upto_nth drained_def keeps_up_def)

text \<open>Delivering, then logging one more, then delivering the rest delivers all.\<close>

lemma all_delivered_later:
  assumes "sconns st1 = sconns (drain_upto PV cap (length (sconns st)) st)" and "broadcast (node st1) = broadcast (node st) @ [v]"
    and "0 < cap" and "all_delivered PV cap st1 st'" and "prefix (broadcast (node st1)) (broadcast (node st'))"
  shows "all_delivered PV cap st st'"
proof -
  have len: "length (sconns st1) = length (sconns st)" using assms(1) by simp
  obtain vs where vs: "broadcast (node st') = broadcast (node st) @ vs" using assms(2,5) by (auto elim!: prefixE)
  have "sconns st' ! i = drained PV (broadcast (node st')) (sconns st ! i)"
    if i: "i < length (sconns st)" and up: "keeps_up cap (broadcast (node st)) (sconns st ! i)" for i
  proof -
    have "sconns st1 ! i = drained PV (broadcast (node st)) (sconns st ! i)"
      using i up assms(1) by (simp add: drain_upto_nth)
    moreover have "keeps_up cap (broadcast (node st1)) (sconns st1 ! i)"
      using drain_all_keeps_up [OF i up assms(3)] assms(1,2) by simp
    ultimately have "sconns st' ! i = drained PV (broadcast (node st')) (drained PV (broadcast (node st)) (sconns st ! i))"
      using assms(4) i len unfolding all_delivered_def by metis
    also have "\<dots> = drained PV (broadcast (node st')) (sconns st ! i)"
      unfolding vs by (rule drained_later) (use up in \<open>simp add: keeps_up_def\<close>)
    finally show ?thesis .
  qed
  moreover have "write_on (sconns st' ! i) = write_on (sconns st ! i)" if "i < length (sconns st)" for i
    using assms(1,4) that len by (simp add: all_delivered_def drain_upto_nth)
  ultimately show ?thesis using assms(4) len by (simp add: all_delivered_def)
qed

lemma serve_all:
  assumes "running st" and "server_inv P PV rid st rs" and "0 < cap" and "\<forall>v. encode PV v \<noteq> None"
    and "frames_fit E P k L (accepted st)"
    and "length (log_file (replica_log (node st))) + length (outstanding st) * L < 2 ^ 64"
  shows "\<exists>st'. serves E P PV k rid cap st st' \<and> running st' \<and> outstanding st' = [] \<and> accepted st' = accepted st \<and>
    all_delivered PV cap st st' \<and> (\<exists>rs'. server_inv P PV rid st' rs') \<and>
    (\<exists>vs. broadcast (node st') = broadcast (node st) @ vs \<and> map transaction vs = map Some (outstanding st)) \<and>
    length (log_file (replica_log (node st'))) \<le> length (log_file (replica_log (node st))) + length (outstanding st) * L"
  using assms
proof (induction "outstanding st" arbitrary: st rs)
  case Nil
  let ?d = "drain_upto PV cap (length (sconns st)) st"
  have ok: "\<forall>txn\<in>set (accepted st). \<forall>t n. frame_ok P (signed_record E k txn t n)"
    "length (log_file (replica_log (node st))) < 2 ^ 64" using Nil.prems(5,6) by (auto simp: frames_fit_def)
  have run: "serves E P PV k rid cap st ?d"
    by (rule drain_connections [OF Nil.prems(1,2) order_refl Nil.prems(4) ok])
  moreover from serves_inv [OF run Nil.prems(2)] ok have "\<exists>rs'. server_inv P PV rid ?d rs'" by simp
  ultimately show ?case using Nil.hyps Nil.prems(1) drain_all_delivered by (intro exI [of _ ?d]) auto
next
  case (Cons txn txs)
  let ?d = "drain_upto PV cap (length (sconns st)) st" and ?file = "\<lambda>st. length (log_file (replica_log (node st)))"
  have ok: "\<forall>txn\<in>set (accepted st). \<forall>t n. frame_ok P (signed_record E k txn t n)" "?file st + L + length txs * L < 2 ^ 64"
    using Cons.prems(5,6) Cons.hyps(2) [symmetric] by (auto simp: frames_fit_def)
  have 1: "serves E P PV k rid cap st ?d"
    by (rule drain_connections [OF Cons.prems(1,2) order_refl Cons.prems(4) ok(1)]) (use ok(2) in simp)
  from serves_inv [OF 1 Cons.prems(2)] ok obtain rs1 where rs1: "server_inv P PV rid ?d rs1" by auto
  from publish_one [OF _ rs1, of E k L cap] Cons.prems(1,5) Cons.hyps(2) [symmetric] ok(2) obtain st1 where
    2: "serves E P PV k rid cap ?d st1" and st1: "published P L ?d st1" by auto
  from serves_inv [OF 2 rs1] st1 ok obtain rs2 where rs2: "server_inv P PV rid st1 rs2" by (auto simp: published_def)
  obtain v where v: "broadcast (node st1) = broadcast (node st) @ [v]" "transaction v = Some txn"
    using st1 Cons.hyps(2) [symmetric] by (auto simp: published_def)
  have "txs = outstanding st1" using st1 Cons.hyps(2) [symmetric] by (simp add: published_def)
  from Cons.hyps(1) [OF this _ rs2 Cons.prems(3,4)] st1 Cons.prems(5) ok(2) this obtain st' vs where
    3: "serves E P PV k rid cap st1 st'" and st': "running st'" "outstanding st' = []" "accepted st' = accepted st"
      "all_delivered PV cap st1 st'" "broadcast (node st') = broadcast (node st1) @ vs" "map transaction vs = map Some txs"
      "\<exists>rs'. server_inv P PV rid st' rs'" "?file st' \<le> ?file st1 + length txs * L"
    by (auto simp: published_def)
  have "all_delivered PV cap st st'"
    by (rule all_delivered_later [OF _ v(1) Cons.prems(3) st'(4)]) (use st1 st'(5) in \<open>simp_all add: published_def\<close>)
  moreover have "broadcast (node st') = broadcast (node st) @ v # vs" "map transaction (v # vs) = map Some (outstanding st)"
    using st'(5,6) v Cons.hyps(2) [symmetric] by simp_all
  moreover have "?file st' \<le> ?file st + length (outstanding st) * L"
    using st'(8) st1 Cons.hyps(2) [symmetric] by (simp add: published_def)
  moreover have "serves E P PV k rid cap st st'" using 1 2 3 by (meson rtranclp_trans)
  ultimately show ?case using st'(1-3,7) by blast
qed

lemma few_outstanding: "server_inv P PV rid st rs \<Longrightarrow> length (outstanding st) \<le> 101"
  by (auto simp: outstanding_def taken_def unsent_def server_inv_def NODE_CHANNEL_SIZE_def split: lv_pc.split)

text \<open>No connection has read past the end of the broadcast channel.\<close>

lemma server_step_positions:
  assumes "server_step E P PV k rid cap ios st st'" and "\<forall>c\<in>set (sconns st). funnel_next c \<le> length (broadcast (node st))"
  shows "\<forall>c\<in>set (sconns st'). funnel_next c \<le> length (broadcast (node st'))"
proof -
  have same: "\<forall>c\<in>set ((sconns st)[i := c]). funnel_next c \<le> length (broadcast (node st))"
    if "funnel_next c \<le> length (broadcast (node st))" for i c
    using that assms(2) by (auto dest!: subsetD [OF set_update_subset_insert])
  from assms(1) show ?thesis
  proof cases
    case (log_append txn n t io s1 rec r)
    then show ?thesis using assms(2) log_vote_append_frame [OF log_append(5)] by simp
  next
    case (heartbeat n')
    then show ?thesis using assms(2) heartbeat_quiet [OF heartbeat(3-5)] by simp
  next
    case (log_recv txn txs n s1)
    then show ?thesis using assms(2) by (auto simp: fetch_add_def)
  qed (use assms(2) in \<open>auto simp: new_server_conn_def heartbeat_finish_eq send_vote_def intro: le_SucI
         dest!: subsetD [OF set_update_subset_insert]\<close>)
qed

lemma server_run_positions:
  assumes "server_run E P PV k rid cap ios st0 m st" and "sconns st0 = []"
  shows "\<forall>c\<in>set (sconns st). funnel_next c \<le> length (broadcast (node st))"
  using assms by induction (simp, metis server_step_positions)

section \<open>A replica with work to do\<close>

definition server_waiting_state :: replica_server where
  "server_waiting_state = server_start_state\<lparr>sconns := [new_server_conn 0],
     write_rx := [\<lparr>data = [1]\<rparr>], accepted := [\<lparr>data = [1]\<rparr>]\<rparr>"

lemmas waiting_state_defs = server_waiting_state_def server_start_state_def race_start_def new_server_conn_def

lemma waiting_state_run:
  "server_run demo_ed25519 demo_record_message server_vote_message 9 3 128 {good_io} server_start_state 2 server_waiting_state"
proof -
  let ?step = "server_step demo_ed25519 demo_record_message server_vote_message 9 3 128 {good_io}"
  let ?s1 = "server_start_state\<lparr>sconns := [new_server_conn 0]\<rparr>"
  have 1: "?step server_start_state ?s1"
    using accept [of server_start_state] by (simp add: waiting_state_defs running_def)
  have 2: "?step ?s1 server_waiting_state"
    using client_message [of ?s1 0 "WsMessage (Binary [1])" "[\<lparr>data = [1]\<rparr>]" False]
    by (simp add: waiting_state_defs running_def NODE_CHANNEL_SIZE_def)
  show ?thesis using server_more [OF server_more [OF server_start 1] 2] by (simp add: numeral_eq_Suc)
qed

section \<open>Property\<close>

text \<open>
  C19. Let a replica have started on an empty log, with no failure of its disk so far. In every
  state it reaches in this way while its services run, it can bring all it has accepted
  to an end, if its disk goes on working: some further steps log every accepted transaction, in the
  order of acceptance, broadcast the votes for them, and send to every connection that keeps up with
  the broadcast channel exactly the votes that waited for it (in its channel or held by its funnel)
  and those broadcast since, in that order. The room needed in the log is that of the at most 101
  accepted transactions which are not logged yet, each at most \<open>L\<close> bytes.
\<close>

theorem accepted_transactions_can_be_served:
  assumes "start_replica H K private_key open_ok meta_ok None bind_ok = Inr (k, st0)"
    and "server_run E P PV k rid cap {good_io} st0 m st" and "running st" and "0 < cap" and "\<forall>v. encode PV v \<noteq> None"
    and "\<forall>txn\<in>set (accepted st). \<forall>t n. frame_ok P (signed_record E k txn t n) \<and>
      length (frame P (signed_record E k txn t n)) \<le> L"
    and "length (log_file (replica_log (node st))) + 101 * L < 2 ^ 64"
  shows "\<exists>st' rs. (server_step E P PV k rid cap {good_io})\<^sup>*\<^sup>* st st' \<and> running st' \<and>
    read_log P (log_file (replica_log (node st'))) = (rs, None) \<and> map (\<lambda>r. the (tx r)) rs = accepted st \<and>
    prefix (broadcast (node st)) (broadcast (node st')) \<and> set (map (vote_of_record rid) rs) \<subseteq> set (broadcast (node st')) \<and>
    (\<forall>i<length (sconns st). funnel_on (sconns st ! i) \<and> sender_on (sconns st ! i) \<and>
       length (broadcast (node st)) \<le> funnel_next (sconns st ! i) + cap \<longrightarrow>
       wire (sconns st' ! i) = wire (sconns st ! i) @ map (\<lambda>v. the (encode PV v))
         (vote_rx (sconns st ! i) @ waiting (sconns st ! i) @ drop (funnel_next (sconns st ! i)) (broadcast (node st'))))"
proof -
  have fit: "frames_fit E P k L (accepted st)" using assms(6) by (simp add: frames_fit_def)
  have "\<exists>rs. server_inv P PV rid st rs"
    using server_run_inv [OF assms(2) start_replica_inv(1) [OF assms(1)]] assms(6,7) by simp
  then obtain rs0 where rs0: "server_inv P PV rid st rs0" ..
  have "length (outstanding st) \<le> 101" by (rule few_outstanding [OF rs0])
  then have "length (log_file (replica_log (node st))) + length (outstanding st) * L < 2 ^ 64"
    using assms(7) mult_le_mono1 [of "length (outstanding st)" 101 L] by linarith
  from serve_all [OF assms(3) rs0 assms(4,5) fit this] obtain st' rs where
    st': "serves E P PV k rid cap st st'" "running st'" "outstanding st' = []" "accepted st' = accepted st"
      "all_delivered PV cap st st'" "prefix (broadcast (node st)) (broadcast (node st'))" "server_inv P PV rid st' rs"
    by (auto simp: prefix_def)
  have log: "read_log P (log_file (replica_log (node st'))) = (rs, None)"
    "set (map (vote_of_record rid) rs) \<subseteq> set (broadcast (node st'))" "map (\<lambda>r. the (tx r)) rs = accepted st"
    using st'(2,3,4,7)
    by (auto simp: server_inv_def log_is_def read_log_frames votes_are_def running_def outstanding_def dest: set_shuffles)
  have "sconns st0 = []" using assms(1) by (auto simp: start_replica_def split: sum.splits)
  from server_run_positions [OF assms(2) this] st'(5) show ?thesis
    using st'(1,2,6) log
    by (intro exI [of _ st'] exI [of _ rs]) (simp add: all_delivered_def keeps_up_def drained_def messages_def)
qed

theorem accepted_transactions_can_be_served_witness:
  "\<exists>st' rs. (server_step demo_ed25519 demo_record_message server_vote_message 9 3 128 {good_io})\<^sup>*\<^sup>* server_waiting_state st' \<and>
     read_log demo_record_message (log_file (replica_log (node st'))) = (rs, None) \<and>
     map (\<lambda>r. the (tx r)) rs = [\<lparr>data = [1]\<rparr>] \<and> wire (sconns st' ! 0) \<noteq> []"
proof -
  let ?st = server_waiting_state
  have "\<forall>txn\<in>set (accepted ?st). \<forall>t n. frame_ok demo_record_message (signed_record demo_ed25519 9 txn t n) \<and>
      length (frame demo_record_message (signed_record demo_ed25519 9 txn t n)) \<le> 85"
    using demo_frames by (simp add: waiting_state_defs frame_def demo_record_message_def signed_record_def demo_ed25519_def)
  moreover have "running ?st" "length (log_file (replica_log (node ?st))) + 101 * 85 < 2 ^ 64"
    "\<forall>v. encode server_vote_message v \<noteq> None"
    by (simp_all add: waiting_state_defs running_def server_vote_message_def)
  ultimately obtain st' rs where st': "(server_step demo_ed25519 demo_record_message server_vote_message 9 3 128 {good_io})\<^sup>*\<^sup>* ?st st'"
    "read_log demo_record_message (log_file (replica_log (node st'))) = (rs, None)" "map (\<lambda>r. the (tx r)) rs = accepted ?st"
    "set (map (vote_of_record 3) rs) \<subseteq> set (broadcast (node st'))"
    "\<forall>i<length (sconns ?st). funnel_on (sconns ?st ! i) \<and> sender_on (sconns ?st ! i) \<and>
       length (broadcast (node ?st)) \<le> funnel_next (sconns ?st ! i) + 128 \<longrightarrow>
       wire (sconns st' ! i) = wire (sconns ?st ! i) @ map (\<lambda>v. the (encode server_vote_message v))
         (vote_rx (sconns ?st ! i) @ waiting (sconns ?st ! i) @ drop (funnel_next (sconns ?st ! i)) (broadcast (node st')))"
    using accepted_transactions_can_be_served [OF demo_server_start waiting_state_run, of 85] by auto
  have "map (\<lambda>r. the (tx r)) rs = [\<lparr>data = [1]\<rparr>]" using st'(3) by (simp add: waiting_state_defs)
  moreover from this st'(4) have "broadcast (node st') \<noteq> []" by auto
  ultimately show ?thesis using st'(1,2,5) by (auto simp: waiting_state_defs)
qed

end
