(* ===== verification/PodProgress.thy ===== *)
theory PodProgress
  imports PodSystem ReplicaProgress
begin

text \<open>
  Progress of the whole system: a transaction written at one client can be brought, through a
  replica that both are connected to, to the vote handler of another. The parts' progress
  (\<^verbatim>\<open>ClientNode\<close>, \<^verbatim>\<open>ReplicaProgress\<close>) is lifted to steps of the system and joined by the
  messages that travel in between.
\<close>

section \<open>The handler goes on\<close>

text \<open>
  Only a full set of sequence numbers makes the handler overflow, so that it takes \<open>2^64\<close> votes
  of one replica to do so.
\<close>

lemma overflow_max: "checked_add n 1 = None \<Longrightarrow> insert n {k. k < n} = UNIV"
proof -
  assume "checked_add n 1 = None"
  then have "2 ^ 64 \<le> unat n + 1" by (simp add: checked_add_def split: if_splits)
  then have "k \<le> n" for k :: u64 using unsigned_less [of k, where ?'a = nat] by (simp add: word_le_nat_alt)
  then show ?thesis by (auto simp: order_le_less)
qed

lemma drain_goes_on:
  assumes "client_inv_at E {rid} s"
  shows "known s rid \<noteq> UNIV \<longrightarrow> snd (drain_backlog rid s) = None"
  using assms
proof (induction rule: drain_induct)
  case (overflow s b n s1 v)
  have "bt_sorted b" using client_invD [OF overflow(1,2)] by (simp add: backlog_inv_def)
  then have "n \<in> dom (map_of b)" using overflow(7) by (auto simp: bt.first_Some)
  then have "insert n {k. k < n} \<subseteq> known s rid" using overflow(2,3) by (auto simp: known_def)
  then show ?case using overflow_max [OF overflow(4)] by auto
next
  case (pop s b n v n1 s2 txn s3)
  have sorted: "bt_sorted b" using client_invD [OF pop(1,2)] by (simp add: backlog_inv_def)
  then have "n \<in> dom (map_of b)" using pop(3) by (auto simp: bt.first_Some)
  then have "known s2 rid = known s rid"
    using sorted pop(2,4-6) by (auto simp: known_def bt.lkp_rem less_checked_add split: option.splits)
  moreover have "known s3 rid = known s2 rid" using process_vote_frame [OF pop(11)] by (simp add: known_def)
  ultimately show ?case using pop.IH by simp
qed simp

lemma handle_vote_goes_on:
  assumes "client_inv E s" and "replicas s (replica_id v) \<noteq> None"
    and "insert (sequence_number v) (known s (replica_id v)) \<noteq> UNIV"
  shows "snd (handle_vote E s v) = None"
  using assms(1)
proof (cases rule: handle_vote_cases [where v = v])
  case overflow
  then have "insert (sequence_number v) {k. k < sequence_number v} = UNIV" by (intro overflow_max)
  moreover have "{k. k < sequence_number v} \<subseteq> known s (replica_id v)" using overflow(3) by (auto simp: known_def)
  ultimately show ?thesis using assms(3) by auto
next
  case (processed txn n1 s1 s2)
  have "known s2 (replica_id v) = known s1 (replica_id v)" using process_vote_frame [OF processed(7)] by (simp add: known_def)
  also have "\<dots> \<subseteq> insert (sequence_number v) (known s (replica_id v))"
    using processed(3,4,6) by (auto simp: known_def less_checked_add)
  finally have "known s2 (replica_id v) \<noteq> UNIV" using assms(3) by auto
  with drain_goes_on [OF processed(8)] processed(1) show ?thesis by simp
qed (use assms(2) in auto)

lemma updater_goes_on:
  assumes "start_pod_data_updater E (init_client_state rs) vs = (s, None)" and "Suc (length vs) < 2 ^ 64"
    and "replica_id v \<in> rp_id ` set rs"
  shows "\<exists>s'. handle_vote E s v = (s', None)"
proof -
  let ?K = "insert (sequence_number v) (received E (replicas (init_client_state rs)) vs (replica_id v))"
  have run: "service_loop (handle_vote E) (init_client_state rs) vs = (s, None)" using assms(1) by (simp add: init_start)
  have inv: "client_inv E s" "replicas s = replicas (init_client_state rs)"
    using updater.loop_inv [OF init_client_inv [of E rs], of vs] updater.loop_fwd [OF init_client_inv [of E rs], of vs] run
    by (simp_all add: client_fwd_def)
  have "replicas s (replica_id v) \<noteq> None"
    using assms(3) inv(2) init_client_dom [of "\<lambda>r. r" rs Map.empty] by (auto simp: init_client_state_def)
  moreover have "insert (sequence_number v) (known s (replica_id v)) = ?K"
    using updater_known [OF init_client_inv run] by (simp add: init_known)
  moreover have "card ?K \<le> card (sequence_number ` set (v # vs))"
    by (rule card_mono) (auto simp: received_def)
  then have "card ?K < 2 ^ 64" using card_image_le [of "set (v # vs)" sequence_number] card_length [of "v # vs"] assms(2) by simp
  then have "?K \<noteq> UNIV" using card_word [where 'a = 64] by auto
  ultimately show ?thesis using handle_vote_goes_on [OF inv(1)] by (metis prod.collapse)
qed

section \<open>Steps of one part\<close>

lemma update_order [simp]:
  "st\<lparr>links := a, clients := b\<rparr> = st\<lparr>clients := b, links := a\<rparr>"
  "st\<lparr>links := a, servers := e\<rparr> = st\<lparr>servers := e, links := a\<rparr>"
  "st\<lparr>servers := e, clients := b\<rparr> = st\<lparr>clients := b, servers := e\<rparr>"
  by simp_all

lemma calm_lift:
  assumes "c < length (clients st)" and "(calm_step (su_E C) (su_PV C) (su_cap C))\<^sup>*\<^sup>* (clients st ! c) cl"
  shows "(system_step C)\<^sup>*\<^sup>* st (st\<lparr>clients := (clients st)[c := cl]\<rparr>)"
  using assms(2)
proof (induction rule: rtranclp_induct)
  case base
  show ?case by simp
next
  case (step cl cl')
  let ?st = "st\<lparr>clients := (clients st)[c := cl]\<rparr>"
  have "phase (conns cl' ! i) = phase (conns cl ! i)" if "i < length (conns cl')" for i
    using step(2) that unfolding calm_step_def by (metis length_map nth_map)
  then have "system_step C ?st (?st\<lparr>clients := (clients ?st)[c := cl']\<rparr>)"
    using step(2) assms(1) by (intro at_client) (simp_all add: calm_step_def)
  then show ?case using step(3) by (simp add: rtranclp.rtrancl_into_rtrancl)
qed

lemma server_step_accepted: "server_step E P PV k rid cap ios s s' \<Longrightarrow> prefix (accepted s) (accepted s')"
  by (induction rule: server_step.induct) simp_all

lemma serves_accepted: "serves E P PV k rid cap s s' \<Longrightarrow> prefix (accepted s) (accepted s')"
  by (induction rule: rtranclp_induct) (auto dest: server_step_accepted intro: prefix_order.trans)

abbreviation sys_serves :: "('sk, 'pk, 'sig) pod_setup \<Rightarrow> nat \<Rightarrow> replica_server \<Rightarrow> replica_server \<Rightarrow> bool" where
  "sys_serves C i \<equiv> serves (su_E C) (su_P C) (su_PV C) (su_keys C ! i) (rp_id (su_rs C ! i)) (su_cap C)"

lemma serves_lift:
  assumes "i < length (servers st)" and "sys_serves C i (servers st ! i) s" and "accepted s = accepted (servers st ! i)"
  shows "(system_step C)\<^sup>*\<^sup>* st (st\<lparr>servers := (servers st)[i := s]\<rparr>)"
  using assms(2,3)
proof (induction rule: rtranclp_induct)
  case base
  show ?case by simp
next
  case (step s s')
  let ?st = "st\<lparr>servers := (servers st)[i := s]\<rparr>"
  have "accepted s = accepted (servers st ! i)"
    using serves_accepted [OF step(1)] server_step_accepted [OF step(2)] step.prems by (simp add: prefix_order.antisym)
  then have "system_step C ?st (?st\<lparr>servers := (servers ?st)[i := s']\<rparr>)"
    using step(2) step.prems assms(1) by (intro at_server) simp_all
  then show ?case using step(3) [OF \<open>accepted s = accepted (servers st ! i)\<close>] by (simp add: rtranclp.rtrancl_into_rtrancl)
qed

section \<open>A client takes what has arrived\<close>

lemma client_runs_inv: "client_run E P cap st st' \<Longrightarrow> client_node_inv E cap rs st \<Longrightarrow> client_node_inv E cap rs st'"
  by (induction rule: rtranclp_induct) (auto intro: client_step_inv)

lemma empty_queue:
  assumes "client_node_inv E cap rs cl" and "ended cl = None" and "\<forall>v\<in>set (queue cl). replica_id v \<in> rp_id ` set rs"
    and "length (handled cl) + length (queue cl) < 2 ^ 64"
  shows "\<exists>s. (calm_step E P cap)\<^sup>*\<^sup>* cl (cl\<lparr>view := s, queue := [], handled := handled cl @ queue cl\<rparr>)"
  using assms
proof (induction "queue cl" arbitrary: cl)
  case Nil
  then have "cl\<lparr>view := view cl, queue := [], handled := handled cl @ queue cl\<rparr> = cl" by simp
  then show ?case by (intro exI [of _ "view cl"]) simp
next
  case (Cons v vs)
  have q: "queue cl = v # vs" using Cons.hyps(2) by simp
  have "start_pod_data_updater E (init_client_state rs) (handled cl) = (view cl, None)"
    using Cons.prems(1,2) by (simp add: client_node_inv_def)
  from updater_goes_on [OF this, of v] Cons.prems(3,4) q obtain s where s: "handle_vote E (view cl) v = (s, None)" by auto
  let ?cl = "cl\<lparr>view := s, queue := vs, handled := handled cl @ [v], ended := None\<rparr>"
  have step: "client_step E P cap cl ?cl" using updater [OF Cons.prems(2) q s, of P cap] by simp
  then have calm: "calm_step E P cap cl ?cl" by (simp add: calm_step_def)
  have "client_node_inv E cap rs ?cl" by (rule client_step_inv [OF step Cons.prems(1)])
  from Cons.hyps(1) [OF _ this] Cons.prems q obtain s' where
    "(calm_step E P cap)\<^sup>*\<^sup>* ?cl (?cl\<lparr>view := s', queue := [], handled := handled ?cl @ vs\<rparr>)" by auto
  moreover have "?cl\<lparr>view := s', queue := [], handled := handled ?cl @ vs\<rparr> =
      cl\<lparr>view := s', queue := [], handled := handled cl @ queue cl\<rparr>" using Cons.prems(2) q by simp
  ultimately show ?case using converse_rtranclp_into_rtranclp [of "calm_step E P cap", OF calm] by auto
qed

abbreviation set_link :: "'pk pod_system \<Rightarrow> nat \<Rightarrow> nat \<Rightarrow> link \<Rightarrow> nat \<Rightarrow> nat \<rightharpoonup> link" where
  "set_link st c i l \<equiv> (links st)(c := (links st c)(i \<mapsto> l))"

text \<open>A client that is up and has handled everything in its queue.\<close>

definition ready :: "('sk, 'pk, 'sig) pod_setup \<Rightarrow> nat \<Rightarrow> 'pk client_node \<Rightarrow> bool" where
  "ready C i cl \<longleftrightarrow> client_node_inv (su_E C) (su_cap C) (su_rs C) cl \<and> ended cl = None \<and> queue cl = [] \<and>
     i < length (conns cl) \<and> phase (conns cl ! i) = Open"

lemma receive_one:
  assumes "d < length (clients st)" and "i < length (servers st)" and "ready C i (clients st ! d)"
    and "links st d i = Some l" and "far_end l < length (sconns (servers st ! i))"
    and "down l < length (wire (sconns (servers st ! i) ! far_end l))"
    and "decode (su_PV C) (wire (sconns (servers st ! i) ! far_end l) ! down l) = Some v"
    and "replica_id v \<in> rp_id ` set (su_rs C)" and "Suc (length (handled (clients st ! d))) < 2 ^ 64"
  shows "\<exists>cl. (system_step C)\<^sup>*\<^sup>* st (st\<lparr>clients := (clients st)[d := cl], links := set_link st d i (l\<lparr>down := Suc (down l)\<rparr>)\<rparr>) \<and>
    ready C i cl \<and> handled cl = handled (clients st ! d) @ [v] \<and> writes cl = writes (clients st ! d)"
proof -
  let ?cl = "clients st ! d" and ?b = "wire (sconns (servers st ! i) ! far_end l) ! down l"
  let ?x = "conn_event (su_PV C) (Incoming (WsMessage (Binary ?b)) True) (arrives (WsMessage (Binary ?b)) (conns ?cl ! i))"
  let ?cl1 = "?cl\<lparr>conns := (conns ?cl)[i := ?x], queue := queue ?cl @ forwarded (conns ?cl ! i) ?x\<rparr>"
  let ?st1 = "st\<lparr>clients := (clients st)[d := ?cl1], links := set_link st d i (l\<lparr>down := Suc (down l)\<rparr>)\<rparr>"
  note cl = assms(3) [unfolded ready_def]
  have x: "phase ?x = Open" "forwarded (conns ?cl ! i) ?x = [v]"
    using assms(7) by (simp_all add: conn_event_def comms_body_def forwarded_def)
  have step: "sys_client_step C ?cl ?cl1"
    by (rule conn_incoming [OF _ _ _ refl]) (use cl x in \<open>simp_all add: CHANNEL_SIZE_def\<close>)
  have 1: "system_step C st ?st1"
    by (rule message_down [OF assms(1,2) _ assms(4-6) refl refl step]) (use cl in simp)
  have inv: "client_node_inv (su_E C) (su_cap C) (su_rs C) ?cl1" by (rule client_step_inv [OF step]) (use cl in simp)
  from empty_queue [OF inv, of "su_PV C"] cl x assms(8,9) obtain s where
    s: "(calm_step (su_E C) (su_PV C) (su_cap C))\<^sup>*\<^sup>* ?cl1 (?cl1\<lparr>view := s, queue := [], handled := handled ?cl @ [v]\<rparr>)"
    by auto
  let ?cl2 = "?cl1\<lparr>view := s, queue := [], handled := handled ?cl @ [v]\<rparr>"
  have "(system_step C)\<^sup>*\<^sup>* ?st1 (?st1\<lparr>clients := (clients ?st1)[d := ?cl2]\<rparr>)"
    by (rule calm_lift) (use assms(1) s in simp_all)
  with 1 have "(system_step C)\<^sup>*\<^sup>* st (st\<lparr>clients := (clients st)[d := ?cl2], links := set_link st d i (l\<lparr>down := Suc (down l)\<rparr>)\<rparr>)"
    by (simp add: converse_rtranclp_into_rtranclp)
  moreover have "client_node_inv (su_E C) (su_cap C) (su_rs C) ?cl2" by (rule client_runs_inv [OF calm_run [OF s] inv])
  then have "ready C i ?cl2" using cl x by (simp add: ready_def)
  ultimately show ?thesis by (intro exI [of _ ?cl2]) simp
qed

lemma receive_all:
  assumes "d < length (clients st)" and "i < length (servers st)" and "ready C i (clients st ! d)"
    and "links st d i = Some l" and "far_end l < length (sconns (servers st ! i))"
    and "map (decode (su_PV C)) (drop (down l) (wire (sconns (servers st ! i) ! far_end l))) = map Some vs"
    and "\<forall>v\<in>set vs. replica_id v \<in> rp_id ` set (su_rs C)" and "length (handled (clients st ! d)) + length vs < 2 ^ 64"
  shows "\<exists>cl. (system_step C)\<^sup>*\<^sup>* st (st\<lparr>clients := (clients st)[d := cl], links := set_link st d i (l\<lparr>down := down l + length vs\<rparr>)\<rparr>) \<and>
    ready C i cl \<and> handled cl = handled (clients st ! d) @ vs \<and> writes cl = writes (clients st ! d)"
  using assms
proof (induction vs arbitrary: st l)
  case Nil
  have "st\<lparr>clients := (clients st)[d := clients st ! d], links := set_link st d i (l\<lparr>down := down l + length []\<rparr>)\<rparr> = st"
    using Nil.prems(4) by (simp add: fun_upd_idem)
  then show ?case using Nil.prems(3) by (metis append_Nil2 rtranclp.rtrancl_refl)
next
  case (Cons v vs)
  let ?w = "wire (sconns (servers st ! i) ! far_end l)" and ?l = "l\<lparr>down := Suc (down l)\<rparr>"
  have less: "down l < length ?w" using arg_cong [OF Cons.prems(6), of length] by simp
  have w: "decode (su_PV C) (?w ! down l) = Some v" "map (decode (su_PV C)) (drop (Suc (down l)) ?w) = map Some vs"
    using Cons.prems(6) Cons_nth_drop_Suc [OF less, symmetric] by simp_all
  from receive_one [OF Cons.prems(1-5) less w(1)] Cons.prems(7,8) obtain cl where
    cl: "(system_step C)\<^sup>*\<^sup>* st (st\<lparr>clients := (clients st)[d := cl], links := set_link st d i ?l\<rparr>)"
    "ready C i cl" "handled cl = handled (clients st ! d) @ [v]" "writes cl = writes (clients st ! d)" by auto
  let ?st = "st\<lparr>clients := (clients st)[d := cl], links := set_link st d i ?l\<rparr>"
  have "\<exists>cl'. (system_step C)\<^sup>*\<^sup>* ?st (?st\<lparr>clients := (clients ?st)[d := cl'], links := set_link ?st d i (?l\<lparr>down := down ?l + length vs\<rparr>)\<rparr>) \<and>
    ready C i cl' \<and> handled cl' = handled (clients ?st ! d) @ vs \<and> writes cl' = writes (clients ?st ! d)"
    by (rule Cons.IH) (use Cons.prems cl w(2) in simp_all)
  then obtain cl' where cl': "(system_step C)\<^sup>*\<^sup>* ?st (st\<lparr>clients := (clients st)[d := cl'],
      links := set_link st d i (l\<lparr>down := down l + length (v # vs)\<rparr>)\<rparr>)"
    "ready C i cl'" "handled cl' = handled (clients st ! d) @ v # vs" "writes cl' = writes (clients st ! d)"
    using Cons.prems(1) cl(3,4) by auto
  then show ?case using rtranclp_trans [of "system_step C", OF cl(1) cl'(1)] by blast
qed

section \<open>A replica takes what has arrived\<close>

lemma all_delivered_trans:
  assumes "all_delivered PV cap a b" and "all_delivered PV cap b' c" and "sconns b' = sconns b" and "node b' = node b"
    and "broadcast (node b) = broadcast (node a) @ vs" and "broadcast (node c) = broadcast (node b) @ ws" and "0 < cap"
  shows "all_delivered PV cap a c"
proof -
  have len: "length (sconns b') = length (sconns a)" using assms(1,3) by (simp add: all_delivered_def)
  have "sconns c ! i = drained PV (broadcast (node c)) (sconns a ! i)"
    if i: "i < length (sconns a)" and up: "keeps_up cap (broadcast (node a)) (sconns a ! i)" for i
  proof -
    have b: "sconns b' ! i = drained PV (broadcast (node b)) (sconns a ! i)" using assms(1,3) i up by (simp add: all_delivered_def)
    then have "keeps_up cap (broadcast (node b')) (sconns b' ! i)" using up assms(4) by (simp add: keeps_up_def drained_def)
    with assms(2) i len b have "sconns c ! i = drained PV (broadcast (node c)) (drained PV (broadcast (node b)) (sconns a ! i))"
      unfolding all_delivered_def by metis
    then show ?thesis using assms(5,6) up drained_later [of "sconns a ! i" "broadcast (node b)" PV ws] by (simp add: keeps_up_def)
  qed
  moreover have "write_on (sconns c ! i) = write_on (sconns a ! i)" if "i < length (sconns a)" for i
    using assms(1-3) that len by (simp add: all_delivered_def)
  ultimately show ?thesis using assms(2) len by (simp add: all_delivered_def)
qed

definition serving :: "('sk, 'pk, 'sig) pod_setup \<Rightarrow> nat \<Rightarrow> replica_server \<Rightarrow> bool" where
  "serving C i s \<longleftrightarrow> running s \<and> (\<exists>rs. server_inv (su_P C) (su_PV C) (rp_id (su_rs C ! i)) s rs)"

text \<open>The state of a replica after it has taken and served the messages \<open>msgs\<close>.\<close>

definition has_served :: "('sk, 'pk, 'sig) pod_setup \<Rightarrow> nat \<Rightarrow> nat \<Rightarrow> bytes list \<Rightarrow> replica_server \<Rightarrow> replica_server \<Rightarrow> bool" where
  "has_served C i L msgs s s' \<longleftrightarrow> serving C i s' \<and> outstanding s' = [] \<and> accepted s' = accepted s @ map transaction.make msgs \<and>
     all_delivered (su_PV C) (su_cap C) s s' \<and>
     (\<exists>vs. broadcast (node s') = broadcast (node s) @ vs \<and>
        map transaction vs = map Some (outstanding s @ map transaction.make msgs)) \<and>
     length (log_file (replica_log (node s'))) \<le> length (log_file (replica_log (node s))) + (length (outstanding s) + length msgs) * L"

lemma serve_lift:
  assumes "i < length (servers st)" and "serving C i (servers st ! i)" and "0 < su_cap C" and "\<forall>v. encode (su_PV C) v \<noteq> None"
    and "frames_fit (su_E C) (su_P C) (su_keys C ! i) L (accepted (servers st ! i))"
    and "length (log_file (replica_log (node (servers st ! i)))) + length (outstanding (servers st ! i)) * L < 2 ^ 64"
  shows "\<exists>s. (system_step C)\<^sup>*\<^sup>* st (st\<lparr>servers := (servers st)[i := s]\<rparr>) \<and> has_served C i L [] (servers st ! i) s"
proof -
  obtain rs where rs: "running (servers st ! i)" "server_inv (su_P C) (su_PV C) (rp_id (su_rs C ! i)) (servers st ! i) rs"
    using assms(2) by (auto simp: serving_def)
  from serve_all [OF rs assms(3-6)] obtain s where
    s: "sys_serves C i (servers st ! i) s" "accepted s = accepted (servers st ! i)" "has_served C i L [] (servers st ! i) s"
    by (auto simp: has_served_def serving_def)
  from serves_lift [OF assms(1) s(1,2)] s(3) show ?thesis by blast
qed

lemma drop_Suc_nth_eq: "drop n xs = y # ys \<Longrightarrow> n < length xs \<and> y = xs ! n \<and> drop (Suc n) xs = ys"
  by (metis Cons_nth_drop_Suc drop_eq_Nil list.distinct(1) list.inject not_le)

lemma deliver_one:
  assumes "c < length (clients st)" and "i < length (servers st)" and "i < length (conns (clients st ! c))"
    and "links st c i = Some l" and "far_end l < length (sconns (servers st ! i))"
    and "write_on (sconns (servers st ! i) ! far_end l)" and "running (servers st ! i)" and "write_rx (servers st ! i) = []"
    and "up l < length (to_replica (comms (conns (clients st ! c) ! i)))"
    and "msg = to_replica (comms (conns (clients st ! c) ! i)) ! up l"
    and "s = (servers st ! i)\<lparr>write_rx := [transaction.make msg], accepted := accepted (servers st ! i) @ [transaction.make msg]\<rparr>"
  shows "system_step C st (st\<lparr>servers := (servers st)[i := s], links := set_link st c i (l\<lparr>up := Suc (up l)\<rparr>)\<rparr>)"
    and "sys_server_step C i (servers st ! i) s"
proof -
  let ?s = "servers st ! i"
  have "(sconns ?s)[far_end l := (sconns ?s ! far_end l)\<lparr>write_on := \<not> False\<rparr>] = sconns ?s"
    using assms(5,6) by (intro list_update_same_conv [THEN iffD2]) simp_all
  then show step: "sys_server_step C i ?s s"
    using client_message [OF assms(7,5,6), of "WsMessage (Binary msg)" "[transaction.make msg]" False] assms(8,11)
    by (simp add: NODE_CHANNEL_SIZE_def transaction.make_def)
  show "system_step C st (st\<lparr>servers := (servers st)[i := s], links := set_link st c i (l\<lparr>up := Suc (up l)\<rparr>)\<rparr>)"
    by (rule message_up [OF assms(1-6,9) refl _ step]) (simp add: assms(8,10,11) transaction.make_def)
qed

lemma deliver_all:
  assumes "c < length (clients st)" and "i < length (servers st)" and "i < length (conns (clients st ! c))"
    and "links st c i = Some l" and "far_end l < length (sconns (servers st ! i))"
    and "write_on (sconns (servers st ! i) ! far_end l)" and "drop (up l) (to_replica (comms (conns (clients st ! c) ! i))) = msgs"
    and "serving C i (servers st ! i)" and "0 < su_cap C" and "\<forall>v. encode (su_PV C) v \<noteq> None"
    and "frames_fit (su_E C) (su_P C) (su_keys C ! i) L (accepted (servers st ! i) @ map transaction.make msgs)"
    and "length (log_file (replica_log (node (servers st ! i)))) + (length (outstanding (servers st ! i)) + length msgs) * L < 2 ^ 64"
  shows "\<exists>s. (system_step C)\<^sup>*\<^sup>* st (st\<lparr>servers := (servers st)[i := s], links := set_link st c i (l\<lparr>up := up l + length msgs\<rparr>)\<rparr>) \<and>
    has_served C i L msgs (servers st ! i) s"
  using assms
proof (induction msgs arbitrary: st l)
  case Nil
  from serve_lift [OF Nil.prems(2,8-10)] Nil.prems(11,12) obtain s where
    "(system_step C)\<^sup>*\<^sup>* st (st\<lparr>servers := (servers st)[i := s]\<rparr>)" "has_served C i L [] (servers st ! i) s" by auto
  moreover have "st\<lparr>servers := (servers st)[i := s], links := set_link st c i (l\<lparr>up := up l + length []\<rparr>)\<rparr> = st\<lparr>servers := (servers st)[i := s]\<rparr>"
    using Nil.prems(4) by (simp add: fun_upd_idem)
  ultimately show ?case by metis
next
  case (Cons msg msgs)
  let ?s = "servers st ! i" and ?x = "conns (clients st ! c) ! i" and ?t = "transaction.make msg"
  let ?file = "\<lambda>s. length (log_file (replica_log (node s)))"
  have fit: "frames_fit (su_E C) (su_P C) (su_keys C ! i) L (accepted ?s)"
    "frames_fit (su_E C) (su_P C) (su_keys C ! i) L (accepted ?s @ [?t])" using Cons.prems(11) by (simp_all add: frames_fit_def)
  have room: "?file ?s + length (outstanding ?s) * L < 2 ^ 64"
    "?file ?s + length (outstanding ?s) * L + (1 + length msgs) * L < 2 ^ 64" using Cons.prems(12) by (simp_all add: algebra_simps)
  obtain s1 where s1: "(system_step C)\<^sup>*\<^sup>* st (st\<lparr>servers := (servers st)[i := s1]\<rparr>)" "has_served C i L [] ?s s1"
    using serve_lift [OF Cons.prems(2,8-10) fit(1) room(1)] by blast
  let ?st1 = "st\<lparr>servers := (servers st)[i := s1]\<rparr>"
  have same: "servers ?st1 ! i = s1" "length (sconns s1) = length (sconns ?s)" "write_on (sconns s1 ! far_end l)"
    using s1(2) Cons.prems(2,5,6) by (simp_all add: has_served_def all_delivered_def)
  have idle: "running s1" "write_rx s1 = []" "taken (node s1) = []" "unsent (node s1) = []"
    using s1(2) by (simp_all add: has_served_def serving_def outstanding_def)
  have msgs: "up l < length (to_replica (comms ?x))" "msg = to_replica (comms ?x) ! up l" "drop (Suc (up l)) (to_replica (comms ?x)) = msgs"
    using Cons.prems(7) drop_Suc_nth_eq [OF Cons.prems(7)] by simp_all
  define s2 where "s2 = s1\<lparr>write_rx := [?t], accepted := accepted s1 @ [?t]\<rparr>"
  let ?st2 = "?st1\<lparr>servers := (servers ?st1)[i := s2], links := set_link ?st1 c i (l\<lparr>up := Suc (up l)\<rparr>)\<rparr>"
  have 2: "system_step C ?st1 ?st2" "sys_server_step C i s1 s2"
    using deliver_one [of c ?st1 i l msg s2 C] Cons.prems(1-5) same idle msgs by (simp_all add: s2_def)
  have serving: "serving C i s2"
  proof -
    obtain rs where rs: "server_inv (su_P C) (su_PV C) (rp_id (su_rs C ! i)) s1 rs" using s1(2) by (auto simp: has_served_def serving_def)
    have "\<exists>rs'. server_inv (su_P C) (su_PV C) (rp_id (su_rs C ! i)) s2 rs'"
      by (rule server_step_inv [OF 2(2) rs])
        (use s1(2) room fit(1) in \<open>simp_all add: s2_def has_served_def frames_fit_def\<close>)
    then show ?thesis using idle(1) by (simp add: serving_def s2_def running_def)
  qed
  have out: "outstanding s2 = [?t]" using idle(3,4) by (simp add: s2_def outstanding_def)
  have acc: "accepted s2 = accepted ?s @ [?t]" "?file s2 \<le> ?file ?s + length (outstanding ?s) * L"
    using s1(2) by (simp_all add: s2_def has_served_def)
  have sconns: "sconns s2 = sconns s1" "servers ?st2 ! i = s2" using Cons.prems(2) by (simp_all add: s2_def)
  let ?l = "l\<lparr>up := Suc (up l)\<rparr>"
  have "\<exists>s. (system_step C)\<^sup>*\<^sup>* ?st2 (?st2\<lparr>servers := (servers ?st2)[i := s], links := set_link ?st2 c i (?l\<lparr>up := up ?l + length msgs\<rparr>)\<rparr>) \<and>
    has_served C i L msgs (servers ?st2 ! i) s"
  proof (rule Cons.IH)
    show "links ?st2 c i = Some ?l" by simp
    show "frames_fit (su_E C) (su_P C) (su_keys C ! i) L (accepted (servers ?st2 ! i) @ map transaction.make msgs)"
      unfolding sconns acc using Cons.prems(11) by simp
    show "?file (servers ?st2 ! i) + (length (outstanding (servers ?st2 ! i)) + length msgs) * L < 2 ^ 64"
      unfolding sconns out using acc(2) room(2) by simp
  qed (use Cons.prems same serving sconns msgs(3) in simp_all)
  then obtain s3 where s3: "(system_step C)\<^sup>*\<^sup>* ?st2 (?st2\<lparr>servers := (servers ?st2)[i := s3],
      links := set_link ?st2 c i (?l\<lparr>up := up ?l + length msgs\<rparr>)\<rparr>)" "has_served C i L msgs s2 s3"
    unfolding sconns by blast
  have "has_served C i L (msg # msgs) ?s s3"
  proof -
    obtain vs ws where vs: "broadcast (node s1) = broadcast (node ?s) @ vs" "map transaction vs = map Some (outstanding ?s)"
      "broadcast (node s3) = broadcast (node s1) @ ws" "map transaction ws = map Some (?t # map transaction.make msgs)"
      using s1(2) s3(2) out by (auto simp: has_served_def s2_def)
    have "all_delivered (su_PV C) (su_cap C) ?s s3"
      by (rule all_delivered_trans [of _ _ _ s1 s2, OF _ _ _ _ vs(1,3) Cons.prems(9)])
        (use s1(2) s3(2) in \<open>simp_all add: has_served_def s2_def\<close>)
    moreover have "broadcast (node s3) = broadcast (node ?s) @ vs @ ws"
      "map transaction (vs @ ws) = map Some (outstanding ?s @ map transaction.make (msg # msgs))" using vs by simp_all
    moreover have "accepted s3 = accepted ?s @ map transaction.make (msg # msgs)" using s3(2) acc(1) by (simp add: has_served_def)
    moreover have "?file s3 \<le> ?file ?s + (length (outstanding ?s) + length (msg # msgs)) * L"
      using s3(2) acc(2) out by (simp add: has_served_def algebra_simps)
    ultimately show ?thesis using s3(2) unfolding has_served_def by blast
  qed
  moreover have "?st2\<lparr>servers := (servers ?st2)[i := s3], links := set_link ?st2 c i (?l\<lparr>up := up ?l + length msgs\<rparr>)\<rparr> =
      st\<lparr>servers := (servers st)[i := s3], links := set_link st c i (l\<lparr>up := up l + length (msg # msgs)\<rparr>)\<rparr>" by simp
  ultimately show ?case
    using s3(1) rtranclp_trans [of "system_step C", OF s1(1) converse_rtranclp_into_rtranclp [of "system_step C", OF 2(1)]]
    by (intro exI [of _ s3]) metis
qed

section \<open>Links\<close>

lemma client_step_sent:
  assumes "client_step E P cap cl cl'" and "i < length (conns cl)"
  shows "length (conns cl') = length (conns cl) \<and> prefix (to_replica (comms (conns cl ! i))) (to_replica (comms (conns cl' ! i)))"
  using assms
proof (induction rule: client_step.induct)
  case (conn_start st j outcome r attempts)
  then show ?case by (cases "j = i") (auto simp: connected_def split: connect_result.splits)
next
  case (conn_write st j txn x sent_ok)
  then have "to_replica (comms x) = to_replica (comms (conns st ! j))" by (auto simp: recv_write_def split: if_splits)
  with conn_write show ?case by (cases "j = i") simp_all
next
  case (conn_lagged st j x)
  then have "to_replica (comms x) = to_replica (comms (conns st ! j))" by (auto simp: recv_write_def split: if_splits)
  with conn_lagged show ?case by (cases "j = i") simp_all
next
  case (conn_incoming st j x item)
  then show ?case by (cases "j = i") (simp_all add: conn_event_votes)
qed simp_all

lemma server_step_wires:
  assumes "server_step E P PV k rid cap ios s s'" and "i < length (sconns s)"
  shows "length (sconns s) \<le> length (sconns s') \<and> prefix (wire (sconns s ! i)) (wire (sconns s' ! i))"
  using assms
proof (induction rule: server_step.induct)
  case (send_vote_message st j c v vs ok msgs fin)
  then show ?case by (cases "j = i") simp_all
qed (auto simp: nth_append nth_list_update)

text \<open>A link leads to a connection of the replica, and no more arrives than was sent.\<close>

definition link_ok :: "'pk pod_system \<Rightarrow> nat \<Rightarrow> nat \<Rightarrow> link \<Rightarrow> bool" where
  "link_ok st c i l \<longleftrightarrow> c < length (clients st) \<and> i < length (servers st) \<and> i < length (conns (clients st ! c)) \<and>
     far_end l < length (sconns (servers st ! i)) \<and> up l \<le> length (to_replica (comms (conns (clients st ! c) ! i))) \<and>
     down l \<le> length (wire (sconns (servers st ! i) ! far_end l))"

lemma link_ok_step:
  assumes "system_step C st st'" and "link_ok st c i l"
  shows "link_ok st' c i l"
proof -
  note parts = system_step_parts [OF assms(1)]
  note l = assms(2) [unfolded link_ok_def]
  have "clients st' ! c = clients st ! c \<or> sys_client_step C (clients st ! c) (clients st' ! c)" using parts l by blast
  then have "length (conns (clients st' ! c)) = length (conns (clients st ! c)) \<and>
      prefix (to_replica (comms (conns (clients st ! c) ! i))) (to_replica (comms (conns (clients st' ! c) ! i)))"
    using l client_step_sent by (metis prefix_order.refl)
  moreover have "servers st' ! i = servers st ! i \<or> sys_server_step C i (servers st ! i) (servers st' ! i)" using parts l by blast
  then have "length (sconns (servers st ! i)) \<le> length (sconns (servers st' ! i)) \<and>
      prefix (wire (sconns (servers st ! i) ! far_end l)) (wire (sconns (servers st' ! i) ! far_end l))"
    using l server_step_wires by (metis order_refl prefix_order.refl)
  ultimately show ?thesis using parts l by (auto simp: link_ok_def dest!: prefix_length_le)
qed

lemma links_ok_step:
  assumes "system_step C st st'" and "\<forall>c i l. links st c i = Some l \<longrightarrow> link_ok st c i l"
  shows "\<forall>c i l. links st' c i = Some l \<longrightarrow> link_ok st' c i l"
proof (intro allI impI)
  fix c i l assume l: "links st' c i = Some l"
  have old: "link_ok st' c' i' l'" if "links st c' i' = Some l'" for c' i' l'
    using link_ok_step [OF assms(1)] assms(2) that by blast
  from assms(1) show "link_ok st' c i l"
  proof cases
    case (connect c' i' cl s)
    then show ?thesis
    proof (cases "c' = c \<and> i' = i")
      case True
      with connect l show ?thesis by (auto simp: link_ok_def)
    next
      case False
      then show ?thesis using l connect(1) old [of c i l] by (auto split: if_splits)
    qed
  next
    case (message_up c' i' l' txn s)
    then show ?thesis
    proof (cases "c' = c \<and> i' = i")
      case True
      then show ?thesis using old [OF message_up(5)] message_up l by (auto simp: link_ok_def)
    next
      case False
      then show ?thesis using l message_up(1) old [of c i l] by (auto split: if_splits)
    qed
  next
    case (message_down c' i' l' x cl)
    then show ?thesis
    proof (cases "c' = c \<and> i' = i")
      case True
      then show ?thesis using old [OF message_down(5)] message_down l by (auto simp: link_ok_def)
    next
      case False
      then show ?thesis using l message_down(1) old [of c i l] by (auto split: if_splits)
    qed
  qed (use l old in auto)
qed

lemma system_run_links:
  "system_run C (init_system C srvs n) m st \<Longrightarrow> \<forall>c i l. links st c i = Some l \<longrightarrow> link_ok st c i l"
proof (induction rule: system_run.induct)
  case system_start
  then show ?case by (simp add: init_system_def)
next
  case (system_more m st st')
  from links_ok_step [OF system_more(2) system_more.IH] show ?case .
qed

lemma system_run_positions:
  assumes "replicas_started C srvs" and "system_run C (init_system C srvs n) m st" and "i < length srvs"
  shows "\<forall>x\<in>set (sconns (servers st ! i)). funnel_next x \<le> length (broadcast (node (servers st ! i)))"
proof -
  obtain H private_key and K :: "('a, 'b) key_bytes" and open_ok meta_ok bind_ok where
    start: "start_replica H K private_key open_ok meta_ok None bind_ok = Inr (su_keys C ! i, srvs ! i)"
    using assms(1,3) unfolding replicas_started_def by blast
  then have none: "sconns (srvs ! i) = []" by (auto simp: start_replica_def split: sum.splits dest: sym)
  obtain m' where "server_run (su_E C) (su_P C) (su_PV C) (su_keys C ! i) (rp_id (su_rs C ! i)) (su_cap C) {good_io}
      (srvs ! i) m' (servers st ! i)" using system_run_parts [OF assms(2)] assms(3) by blast
  from server_run_positions [OF this none] show ?thesis .
qed

section \<open>From one client to another\<close>

text \<open>A client that has written \<open>txn\<close> and sent everything it owes to replica \<open>i\<close>.\<close>

definition has_written :: "('sk, 'pk, 'sig) pod_setup \<Rightarrow> nat \<Rightarrow> transaction \<Rightarrow> 'pk client_node \<Rightarrow> 'pk client_node \<Rightarrow> bool" where
  "has_written C i txn cl cl' \<longleftrightarrow> client_node_inv (su_E C) (su_cap C) (su_rs C) cl' \<and> ended cl' = None \<and>
     queue cl' = queue cl \<and> handled cl' = handled cl \<and> writes cl' = writes cl @ [txn] \<and>
     length (conns cl') = length (conns cl) \<and> phase (conns cl' ! i) = Open \<and>
     to_replica (comms (conns cl' ! i)) =
       to_replica (comms (conns cl ! i)) @ map data (drop (next_write (conns cl ! i)) (writes cl @ [txn]))"

lemma write_and_send:
  assumes "c < length (clients st)" and "cl = clients st ! c" and "client_node_inv (su_E C) (su_cap C) (su_rs C) cl"
    and "ended cl = None" and "i < length (conns cl)" and "phase (conns cl ! i) = Open"
    and "\<not> write_branch_off (conns cl ! i)" and "length (writes cl) < next_write (conns cl ! i) + su_cap C"
  shows "\<exists>cl'. (system_step C)\<^sup>*\<^sup>* st (st\<lparr>clients := (clients st)[c := cl']\<rparr>) \<and> has_written C i txn cl cl'"
proof -
  let ?calm = "calm_step (su_E C) (su_PV C) (su_cap C)"
  let ?cl = "cl\<lparr>writes := writes cl @ [txn]\<rparr>" and ?x = "conns cl ! i"
  have step: "sys_client_step C cl ?cl" by (rule api_write_step [OF assms(4)])
  then have 1: "?calm cl ?cl" by (simp add: calm_step_def)
  from pending_sent [of ?cl i "su_cap C", where E = "su_E C" and P = "su_PV C"] assms(4-8) obtain x where
    x: "?calm\<^sup>*\<^sup>* ?cl (?cl\<lparr>conns := (conns ?cl)[i := x]\<rparr>)" "phase x = Open"
    "to_replica (comms x) = to_replica (comms ?x) @ map data (drop (next_write ?x) (writes cl @ [txn]))" by auto
  let ?cl' = "?cl\<lparr>conns := (conns ?cl)[i := x]\<rparr>"
  have run: "?calm\<^sup>*\<^sup>* cl ?cl'" by (rule converse_rtranclp_into_rtranclp [of ?calm, OF 1 x(1)])
  have "client_node_inv (su_E C) (su_cap C) (su_rs C) ?cl'" by (rule client_runs_inv [OF calm_run [OF run] assms(3)])
  then have "has_written C i txn cl ?cl'" using assms(4,5) x(2,3) by (simp add: has_written_def)
  moreover have "(system_step C)\<^sup>*\<^sup>* st (st\<lparr>clients := (clients st)[c := ?cl']\<rparr>)"
    by (rule calm_lift [OF assms(1)]) (use run assms(2) in simp)
  ultimately show ?thesis by blast
qed

lemma other_after_write:
  assumes "system_inv C st" and "c < length (clients st)" and "d < length (clients st)" and "has_written C i txn (clients st ! c) cl"
  defines "d' \<equiv> (clients st)[c := cl] ! d"
  shows "client_node_inv (su_E C) (su_cap C) (su_rs C) d'" "ended (clients st ! d) = None \<Longrightarrow> ended d' = None"
    "length (conns d') = length (conns (clients st ! d))" "phase (conns (clients st ! d) ! i) = Open \<Longrightarrow> phase (conns d' ! i) = Open"
    "queue d' = queue (clients st ! d)" "handled d' = handled (clients st ! d)"
  using assms(1-4) by (cases "d = c"; simp add: d'_def has_written_def system_inv_def)+

lemma wire_votes:
  assumes "server_inv P PV rid s rs" and "x \<in> set (sconns s)" and "\<forall>v. wire_ok PV v"
  shows "\<exists>vs. map (decode PV) (drop n (wire x)) = map Some vs \<and> (\<forall>v\<in>set vs. replica_id v = rid)"
proof -
  have "\<exists>v. decode PV b = Some v \<and> replica_id v = rid" if b: "b \<in> set (wire x)" for b
  proof -
    obtain v where v: "v \<in> set (votes_issued rid (node s))" "encode PV v = Some b"
      using assms(1,2) b unfolding server_inv_def conn_inv_def by blast
    have "wire_ok PV v" using assms(3) by blast
    then have "decode PV b = Some v" using v(2) by (simp add: wire_ok_def)
    with server_inv_ids [OF assms(1) v(1)] show ?thesis by blast
  qed
  then have "map (decode PV) (drop n (wire x)) = map Some (map (\<lambda>b. the (decode PV b)) (drop n (wire x)))"
    "\<forall>v\<in>set (map (\<lambda>b. the (decode PV b)) (drop n (wire x))). replica_id v = rid"
    by (auto dest!: in_set_dropD) fastforce+
  then show ?thesis by blast
qed

lemma drain_client:
  assumes "d < length (clients st)" and "client_node_inv (su_E C) (su_cap C) (su_rs C) (clients st ! d)"
    and "ended (clients st ! d) = None" and "i < length (conns (clients st ! d))" and "phase (conns (clients st ! d) ! i) = Open"
    and "\<forall>v\<in>set (queue (clients st ! d)). replica_id v \<in> rp_id ` set (su_rs C)"
    and "length (handled (clients st ! d)) + length (queue (clients st ! d)) < 2 ^ 64"
  shows "\<exists>cl. (system_step C)\<^sup>*\<^sup>* st (st\<lparr>clients := (clients st)[d := cl]\<rparr>) \<and> ready C i cl \<and>
    handled cl = handled (clients st ! d) @ queue (clients st ! d) \<and> writes cl = writes (clients st ! d)"
proof -
  let ?cl = "clients st ! d"
  obtain s where s: "(calm_step (su_E C) (su_PV C) (su_cap C))\<^sup>*\<^sup>* ?cl (?cl\<lparr>view := s, queue := [], handled := handled ?cl @ queue ?cl\<rparr>)"
    using empty_queue [OF assms(2,3,6,7)] by blast
  let ?cl' = "?cl\<lparr>view := s, queue := [], handled := handled ?cl @ queue ?cl\<rparr>"
  have "client_node_inv (su_E C) (su_cap C) (su_rs C) ?cl'" by (rule client_runs_inv [OF calm_run [OF s] assms(2)])
  then have "ready C i ?cl'" using assms(3-5) by (simp add: ready_def)
  moreover have "handled ?cl' = handled ?cl @ queue ?cl" "writes ?cl' = writes ?cl" by simp_all
  ultimately show ?thesis using calm_lift [OF assms(1) s] by blast
qed

lemma served_votes_on_wire:
  assumes "has_served C i L msgs s s'" and "j < length (sconns s)" and "keeps_up (su_cap C) (broadcast (node s)) (sconns s ! j)"
    and "txn \<in> set (map transaction.make msgs)"
  shows "\<exists>v\<in>set (drop (length (broadcast (node s))) (broadcast (node s'))). transaction v = Some txn \<and>
    the (encode (su_PV C) v) \<in> set (drop (length (wire (sconns s ! j))) (wire (sconns s' ! j)))"
proof -
  obtain vs where vs: "broadcast (node s') = broadcast (node s) @ vs"
    "map transaction vs = map Some (outstanding s @ map transaction.make msgs)" using assms(1) by (auto simp: has_served_def)
  have "Some txn \<in> set (map transaction vs)" unfolding vs(2) using assms(4) by auto
  then obtain v where v: "v \<in> set vs" "transaction v = Some txn" by auto
  have "sconns s' ! j = drained (su_PV C) (broadcast (node s')) (sconns s ! j)"
    using assms(1-3) by (simp add: has_served_def all_delivered_def)
  moreover have "v \<in> set (drop (funnel_next (sconns s ! j)) (broadcast (node s')))"
    using v(1) vs(1) assms(3) by (simp add: keeps_up_def)
  ultimately show ?thesis using v vs(1) by (intro bexI [of _ v]) (auto simp: drained_def messages_def)
qed

lemma served_wire_length:
  assumes "has_served C i L msgs s s'" and "j < length (sconns s)" and "keeps_up (su_cap C) (broadcast (node s)) (sconns s ! j)"
    and "server_inv P PV rid s rs"
  shows "length (wire (sconns s' ! j)) \<le> length (wire (sconns s ! j)) + length (broadcast (node s)) + length msgs + 202"
proof -
  obtain vs where vs: "broadcast (node s') = broadcast (node s) @ vs"
    "map transaction vs = map Some (outstanding s @ map transaction.make msgs)" using assms(1) by (auto simp: has_served_def)
  have "length vs = length (outstanding s) + length msgs" using arg_cong [OF vs(2), of length] by simp
  moreover have "length (outstanding s) \<le> 101" "length (vote_rx (sconns s ! j)) \<le> 100" "length (waiting (sconns s ! j)) \<le> 1"
    using few_outstanding [OF assms(4)] server_inv_conn [OF assms(4,2)]
    by (auto simp: waiting_def conn_inv_def NODE_CHANNEL_SIZE_def split: option.split)
  moreover have "sconns s' ! j = drained (su_PV C) (broadcast (node s')) (sconns s ! j)"
    using assms(1-3) by (simp add: has_served_def all_delivered_def)
  ultimately show ?thesis using vs(1) by (simp add: drained_def messages_def)
qed

text \<open>When a client can write to a replica, and when it can receive from it.\<close>

definition can_write :: "('sk, 'pk, 'sig) pod_setup \<Rightarrow> 'pk pod_system \<Rightarrow> nat \<Rightarrow> nat \<Rightarrow> bool" where
  "can_write C st c i \<longleftrightarrow> ended (clients st ! c) = None \<and> phase (conns (clients st ! c) ! i) = Open \<and>
     \<not> write_branch_off (conns (clients st ! c) ! i) \<and>
     length (writes (clients st ! c)) < next_write (conns (clients st ! c) ! i) + su_cap C \<and>
     (\<exists>l. links st c i = Some l \<and> write_on (sconns (servers st ! i) ! far_end l))"

definition can_receive :: "('sk, 'pk, 'sig) pod_setup \<Rightarrow> 'pk pod_system \<Rightarrow> nat \<Rightarrow> nat \<Rightarrow> bool" where
  "can_receive C st d i \<longleftrightarrow> ended (clients st ! d) = None \<and> phase (conns (clients st ! d) ! i) = Open \<and>
     (\<forall>v\<in>set (queue (clients st ! d)). replica_id v \<in> rp_id ` set (su_rs C)) \<and>
     (\<exists>l x. links st d i = Some l \<and> x = sconns (servers st ! i) ! far_end l \<and> funnel_on x \<and> sender_on x \<and>
        length (broadcast (node (servers st ! i))) \<le> funnel_next x + su_cap C \<and>
        length (handled (clients st ! d)) + length (queue (clients st ! d)) + length (wire x) < 2 ^ 62)"

text \<open>Records of at most \<open>L\<close> bytes, and room for those that can be outstanding.\<close>

definition log_has_room :: "('sk, 'pk, 'sig) pod_setup \<Rightarrow> 'pk pod_system \<Rightarrow> nat \<Rightarrow> nat \<Rightarrow> transaction \<Rightarrow> nat \<Rightarrow> bool" where
  "log_has_room C st c i txn L \<longleftrightarrow>
     (\<forall>w\<in>insert txn (all_writes (clients st)). \<forall>t n. frame_ok (su_P C) (signed_record (su_E C) (su_keys C ! i) w t n) \<and>
        length (frame (su_P C) (signed_record (su_E C) (su_keys C ! i) w t n)) \<le> L) \<and>
     length (log_file (replica_log (node (servers st ! i)))) + (length (writes (clients st ! c)) + 102) * L < 2 ^ 64 \<and>
     length (broadcast (node (servers st ! i))) + length (writes (clients st ! c)) < 2 ^ 62"

lemma write_is_served:
  assumes "system_inv C st" and "link_ok st c i l" and "links st c i = Some l" and "can_write C st c i"
    and "serving C i (servers st ! i)" and "0 < su_cap C" and "\<forall>v. encode (su_PV C) v \<noteq> None" and "log_has_room C st c i txn L"
  shows "\<exists>cl s l1 msgs. (system_step C)\<^sup>*\<^sup>* st (st\<lparr>clients := (clients st)[c := cl], servers := (servers st)[i := s], links := set_link st c i l1\<rparr>) \<and>
    has_written C i txn (clients st ! c) cl \<and> has_served C i L msgs (servers st ! i) s \<and> txn \<in> set (map transaction.make msgs) \<and>
    length msgs \<le> Suc (length (writes (clients st ! c))) \<and> far_end l1 = far_end l \<and> down l1 = down l"
proof -
  let ?cl = "clients st ! c" and ?s = "servers st ! i"
  note ok = assms(2) [unfolded link_ok_def] and cw = assms(4) [unfolded can_write_def]
  have inv: "client_node_inv (su_E C) (su_cap C) (su_rs C) ?cl" using assms(1) ok by (simp add: system_inv_def)
  from write_and_send [OF _ refl inv] ok cw obtain cl where
    cl: "(system_step C)\<^sup>*\<^sup>* st (st\<lparr>clients := (clients st)[c := cl]\<rparr>)" "has_written C i txn ?cl cl" by blast
  let ?st = "st\<lparr>clients := (clients st)[c := cl]\<rparr>"
  define msgs where "msgs = drop (up l) (to_replica (comms (conns cl ! i)))"
  let ?sent = "to_replica (comms (conns ?cl ! i))" and ?ws = "drop (next_write (conns ?cl ! i)) (writes ?cl @ [txn])"
  have sent: "to_replica (comms (conns cl ! i)) = ?sent @ map data ?ws" using cl(2) unfolding has_written_def by blast
  have inv': "client_node_inv (su_E C) (su_cap C) (su_rs C) cl" "i < length (conns cl)" "writes cl = writes ?cl @ [txn]"
    using cl(2) ok by (simp_all add: has_written_def)
  have ok_i: "conn_ok (su_cap C) (writes ?cl) (conns ?cl ! i)" "conn_ok (su_cap C) (writes cl) (conns cl ! i)"
    using inv inv' ok by (simp_all add: client_node_inv_def)
  have txn: "txn \<in> set (map transaction.make msgs)"
  proof -
    have "next_write (conns ?cl ! i) \<le> length (writes ?cl)" using ok_i(1) by (simp add: conn_ok_def)
    then have "data txn \<in> set msgs" using ok by (simp add: msgs_def sent)
    moreover have "transaction.make (data txn) = txn" by (simp add: transaction.make_def)
    ultimately show ?thesis by force
  qed
  have "set (accepted ?s @ map transaction.make msgs) \<subseteq> insert txn (all_writes (clients st))"
  proof -
    have "set msgs \<subseteq> data ` set (writes cl)"
      using sent_writes [OF inv'(1), of "conns cl ! i"] inv'(2) set_drop_subset unfolding msgs_def by fastforce
    moreover have "transaction.make (data w) = w" for w by (simp add: transaction.make_def)
    ultimately have "set (map transaction.make msgs) \<subseteq> set (writes cl)" by fastforce
    then have "set (map transaction.make msgs) \<subseteq> insert txn (set (writes ?cl))" unfolding inv'(3) by simp
    moreover have "set (writes ?cl) \<subseteq> all_writes (clients st)"
      unfolding all_writes_def using ok by (intro UN_upper) simp
    moreover have "set (accepted ?s) \<subseteq> all_writes (clients st)" using assms(1) ok by (simp add: system_inv_def)
    ultimately show ?thesis by auto
  qed
  with assms(8) have fit: "frames_fit (su_E C) (su_P C) (su_keys C ! i) L (accepted ?s @ map transaction.make msgs)"
    unfolding log_has_room_def frames_fit_def by blast
  have "length (to_replica (comms (conns cl ! i))) \<le> length (writes cl)"
    using ok_i(2) by (auto simp: conn_ok_def dest!: list_emb_length)
  then have len: "length msgs \<le> Suc (length (writes ?cl))" using inv'(3) by (simp add: msgs_def)
  have "length (outstanding ?s) \<le> 101"
    using assms(5) few_outstanding unfolding serving_def by blast
  with len have less: "(length (outstanding ?s) + length msgs) * L \<le> (length (writes ?cl) + 102) * L" by (intro mult_le_mono1) simp
  have "length (log_file (replica_log (node ?s))) + (length (writes ?cl) + 102) * L < 2 ^ 64"
    using assms(8) unfolding log_has_room_def by blast
  with less have room: "length (log_file (replica_log (node ?s))) + (length (outstanding ?s) + length msgs) * L < 2 ^ 64" by linarith
  have "\<exists>s. (system_step C)\<^sup>*\<^sup>* ?st (?st\<lparr>servers := (servers ?st)[i := s], links := set_link ?st c i (l\<lparr>up := up l + length msgs\<rparr>)\<rparr>) \<and>
    has_served C i L msgs (servers ?st ! i) s"
    by (rule deliver_all) (use ok cl(2) cw assms(3,5-7) fit room in \<open>simp_all add: msgs_def has_written_def\<close>)
  then obtain s where s: "(system_step C)\<^sup>*\<^sup>* ?st (st\<lparr>clients := (clients st)[c := cl], servers := (servers st)[i := s],
      links := set_link st c i (l\<lparr>up := up l + length msgs\<rparr>)\<rparr>)" "has_served C i L msgs ?s s" by auto
  from rtranclp_trans [of "system_step C", OF cl(1) s(1)] cl(2) s(2) txn len show ?thesis
    by (intro exI [of _ cl] exI [of _ s] exI [of _ "l\<lparr>up := up l + length msgs\<rparr>"] exI [of _ msgs]) simp
qed

lemma votes_are_taken:
  assumes "d < length (clients st)" and "i < length (servers st)" and "client_node_inv (su_E C) (su_cap C) (su_rs C) (clients st ! d)"
    and "ended (clients st ! d) = None" and "i < length (conns (clients st ! d))" and "phase (conns (clients st ! d) ! i) = Open"
    and "\<forall>v\<in>set (queue (clients st ! d)). replica_id v \<in> rp_id ` set (su_rs C)"
    and "links st d i = Some l" and "far_end l < length (sconns (servers st ! i))" and "x = sconns (servers st ! i) ! far_end l"
    and "server_inv (su_P C) (su_PV C) (rp_id (su_rs C ! i)) (servers st ! i) rs" and "i < length (su_rs C)" and "\<forall>v. wire_ok (su_PV C) v"
    and "length (handled (clients st ! d)) + length (queue (clients st ! d)) + length (wire x) < 2 ^ 64"
  shows "\<exists>cl l1. (system_step C)\<^sup>*\<^sup>* st (st\<lparr>clients := (clients st)[d := cl], links := set_link st d i l1\<rparr>) \<and> ended cl = None \<and>
    writes cl = writes (clients st ! d) \<and>
    (\<forall>b\<in>set (drop (down l) (wire x)). \<exists>v\<in>set (handled cl). decode (su_PV C) b = Some v)"
proof -
  have "x \<in> set (sconns (servers st ! i))" using assms(9,10) by simp
  from wire_votes [OF assms(11) this assms(13)] obtain vs where
    vs: "map (decode (su_PV C)) (drop (down l) (wire x)) = map Some vs" "\<forall>v\<in>set vs. replica_id v = rp_id (su_rs C ! i)" by blast
  have len: "length vs \<le> length (wire x)" using arg_cong [OF vs(1), of length] by simp
  obtain cl where cl: "(system_step C)\<^sup>*\<^sup>* st (st\<lparr>clients := (clients st)[d := cl]\<rparr>)" "ready C i cl"
    "handled cl = handled (clients st ! d) @ queue (clients st ! d)" "writes cl = writes (clients st ! d)"
    using drain_client [OF assms(1,3-7)] assms(14) by auto
  let ?st = "st\<lparr>clients := (clients st)[d := cl]\<rparr>"
  have "\<exists>cl'. (system_step C)\<^sup>*\<^sup>* ?st (?st\<lparr>clients := (clients ?st)[d := cl'], links := set_link ?st d i (l\<lparr>down := down l + length vs\<rparr>)\<rparr>) \<and>
    ready C i cl' \<and> handled cl' = handled (clients ?st ! d) @ vs \<and> writes cl' = writes (clients ?st ! d)"
    by (rule receive_all) (use assms cl vs len in simp_all)
  then obtain cl' where cl': "(system_step C)\<^sup>*\<^sup>* ?st (st\<lparr>clients := (clients st)[d := cl'], links := set_link st d i (l\<lparr>down := down l + length vs\<rparr>)\<rparr>)"
    "ready C i cl'" "set vs \<subseteq> set (handled cl')" "writes cl' = writes (clients st ! d)" using assms(1) cl(4) by auto
  have "\<exists>v\<in>set (handled cl'). decode (su_PV C) b = Some v" if "b \<in> set (drop (down l) (wire x))" for b
  proof -
    have "decode (su_PV C) b \<in> set (map Some vs)" using that unfolding vs(1) [symmetric] by simp
    with cl'(3) show ?thesis by auto
  qed
  with rtranclp_trans [of "system_step C", OF cl(1) cl'(1)] cl'(2,4) show ?thesis unfolding ready_def by blast
qed

section \<open>Property\<close>

text \<open>
  C10. A transaction can travel from any client to any other. Take any state of a pod whose replicas
  started on empty logs and without failures of their disks, and two clients that run and are
  connected to the same running replica, on connections that keep up: the first client's one is
  fewer than \<open>cap\<close> writes behind and did not just fall behind, the second one's funnel at the
  replica is at most \<open>cap\<close> votes behind, however many writes and votes (below \<open>2^62\<close>) they have carried.
  Whatever else is going on, faulty replicas included, some further steps let the first client write a
  transaction and the second one handle the replica's vote on it, provided that no vote waits at the
  second one that would end it and that there is room in the replica's log.
\<close>

theorem write_can_reach_other_client:
  assumes "replicas_started C srvs" and "system_run C (init_system C srvs n) m st" and "within_limits C st"
    and "i < length srvs" and "running (servers st ! i)" and "0 < su_cap C" and "\<forall>v. wire_ok (su_PV C) v"
    and "can_write C st c i" and "can_receive C st d i" and "log_has_room C st c i txn L"
  shows "\<exists>st' v. (system_step C)\<^sup>*\<^sup>* st st' \<and> writes (clients st' ! c) = writes (clients st ! c) @ [txn] \<and>
    v \<in> set (drop (length (broadcast (node (servers st ! i)))) (broadcast (node (servers st' ! i)))) \<and>
    transaction v = Some txn \<and> v \<in> set (handled (clients st' ! d)) \<and>
    ended (clients st' ! d) = None"
proof -
  let ?s = "servers st ! i"
  have inv: "system_inv C st" by (rule started_inv [OF assms(1,2)])
  have encodes: "\<forall>v. encode (su_PV C) v \<noteq> None" using assms(7) by (auto simp: wire_ok_def split: option.splits)
  obtain rs where rs: "server_inv (su_P C) (su_PV C) (rp_id (su_rs C ! i)) ?s rs" using server_of_system(1) [OF assms(1-4)] by blast
  then have serving: "serving C i ?s" using assms(5) by (auto simp: serving_def)
  note cr = assms(9) [unfolded can_receive_def]
  obtain l l' where l: "links st c i = Some l" "links st d i = Some l'" using assms(8,9) by (auto simp: can_write_def can_receive_def)
  then have ok: "link_ok st c i l" "link_ok st d i l'" using system_run_links [OF assms(2)] by blast+
  let ?x = "sconns ?s ! far_end l'"
  have up: "keeps_up (su_cap C) (broadcast (node ?s)) ?x"
    using system_run_positions [OF assms(1,2,4)] ok(2) cr l(2) by (auto simp: keeps_up_def link_ok_def)
  obtain cl s l1 msgs where 1: "(system_step C)\<^sup>*\<^sup>* st (st\<lparr>clients := (clients st)[c := cl], servers := (servers st)[i := s], links := set_link st c i l1\<rparr>)"
    and w: "has_written C i txn (clients st ! c) cl" "has_served C i L msgs ?s s" "txn \<in> set (map transaction.make msgs)"
      "length msgs \<le> Suc (length (writes (clients st ! c)))" "far_end l1 = far_end l" "down l1 = down l"
    using write_is_served [OF inv ok(1) l(1) assms(8) serving assms(6) encodes assms(10)] by blast
  let ?st = "st\<lparr>clients := (clients st)[c := cl], servers := (servers st)[i := s], links := set_link st c i l1\<rparr>"
  obtain v where v: "v \<in> set (drop (length (broadcast (node ?s))) (broadcast (node s)))" "transaction v = Some txn"
    "the (encode (su_PV C) v) \<in> set (drop (length (wire ?x)) (wire (sconns s ! far_end l')))"
    using served_votes_on_wire [OF w(2) _ up w(3)] ok(2) by (auto simp: link_ok_def)
  obtain l2 where l2: "links ?st d i = Some l2" "far_end l2 = far_end l'" "down l2 = down l'"
    using l w(5,6) by (cases "d = c") auto
  obtain rs' where rs': "server_inv (su_P C) (su_PV C) (rp_id (su_rs C ! i)) s rs'"
    using w(2) by (auto simp: has_served_def serving_def)
  have len: "length (sconns s) = length (sconns ?s)" using w(2) by (simp add: has_served_def all_delivered_def)
  note k = ok(2) [unfolded link_ok_def] and k' = ok(1) [unfolded link_ok_def]
  let ?d = "clients ?st ! d"
  have d: "client_node_inv (su_E C) (su_cap C) (su_rs C) ?d" "ended ?d = None" "length (conns ?d) = length (conns (clients st ! d))"
    "phase (conns ?d ! i) = Open" "queue ?d = queue (clients st ! d)" "handled ?d = handled (clients st ! d)"
    using other_after_write [OF inv _ _ w(1), of d] k k' cr by simp_all
  have few: "length (handled ?d) + length (queue ?d) + length (wire (sconns s ! far_end l')) < 2 ^ 64"
    unfolding d(5,6) using served_wire_length [OF w(2) _ up rs] k w(4) cr l(2) assms(10) by (simp add: log_has_room_def)
  have "\<exists>cl' l3. (system_step C)\<^sup>*\<^sup>* ?st (?st\<lparr>clients := (clients ?st)[d := cl'], links := set_link ?st d i l3\<rparr>) \<and> ended cl' = None \<and>
    writes cl' = writes ?d \<and>
    (\<forall>b\<in>set (drop (down l2) (wire (sconns s ! far_end l'))). \<exists>v\<in>set (handled cl'). decode (su_PV C) b = Some v)"
    by (rule votes_are_taken [OF _ _ d(1,2) _ d(4) _ l2(1), where rs = rs'])
      (use k k' d cr l2 len rs' few assms(1,4,7) in \<open>simp_all add: replicas_started_def\<close>)
  then obtain cl' l3 where 2: "(system_step C)\<^sup>*\<^sup>* ?st (?st\<lparr>clients := (clients ?st)[d := cl'], links := set_link ?st d i l3\<rparr>)"
    and c': "ended cl' = None" "writes cl' = writes ?d"
      "\<forall>b\<in>set (drop (down l2) (wire (sconns s ! far_end l'))). \<exists>v\<in>set (handled cl'). decode (su_PV C) b = Some v" by blast
  let ?st' = "?st\<lparr>clients := (clients ?st)[d := cl'], links := set_link ?st d i l3\<rparr>"
  have "the (encode (su_PV C) v) \<in> set (drop (down l2) (wire (sconns s ! far_end l')))"
    using v(3) k l2(3) set_drop_subset_set_drop [of "down l'" "length (wire ?x)" "wire (sconns s ! far_end l')"] by auto
  moreover have "decode (su_PV C) (the (encode (su_PV C) v)) = Some v" using assms(7) by (auto simp: wire_ok_def split: option.splits)
  ultimately have "v \<in> set (handled cl')" using c'(3) by force
  moreover have "writes (clients ?st' ! c) = writes (clients st ! c) @ [txn]"
    using w(1) c'(2) k' by (cases "d = c") (simp_all add: has_written_def)
  ultimately show ?thesis
    using rtranclp_trans [of "system_step C", OF 1 2] v c'(1) k k' by (intro exI [of _ ?st'] exI [of _ v]) simp
qed

end
