(* ===== verification/PodFaults.thy ===== *)
theory PodFaults
  imports PodProgress
begin

text \<open>
  What faulty replicas can do to a client and what they cannot: the vote handler of a client ends
  only on a vote with an unknown replica id, only a faulty replica sends one, and every faulty
  replica can, at any time.
\<close>

section \<open>Only a faulty replica stops a client\<close>

lemma updater_runs:
  assumes "\<forall>v\<in>set vs. replica_id v \<in> rp_id ` set rs" and "length vs < 2 ^ 64"
  shows "snd (start_pod_data_updater E (init_client_state rs) vs) = None"
  using assms
proof (induction vs rule: rev_induct)
  case Nil
  show ?case by (simp add: init_start)
next
  case (snoc v vs)
  from snoc obtain s where s: "start_pod_data_updater E (init_client_state rs) vs = (s, None)"
    by (metis Suc_lessD in_set_conv_decomp_first length_append_singleton list.set_intros(1) prod.collapse set_append Un_iff)
  from updater_goes_on [OF this, of v] snoc.prems obtain s' where "handle_vote E s v = (s', None)" by auto
  with s show ?case by (simp add: init_start service_loop_append)
qed

lemma client_step_handled: "client_step E P cap st st' \<Longrightarrow> length (handled st') \<le> Suc (length (handled st))"
  by (induction rule: client_step.induct) simp_all

lemma system_run_handled:
  assumes "system_run C (init_system C srvs n) m st"
  shows "\<forall>cl\<in>set (clients st). length (handled cl) \<le> m"
  using assms
proof induction
  case system_start
  show ?case by (simp add: init_system_def init_pod_network_client_def)
next
  case (system_more m st st')
  show ?case
  proof
    fix cl assume "cl \<in> set (clients st')"
    then obtain c where c: "c < length (clients st')" "cl = clients st' ! c" by (auto simp: in_set_conv_nth)
    note parts = system_step_parts [OF system_more.hyps(2)]
    then have "clients st' ! c = clients st ! c \<or> sys_client_step C (clients st ! c) (clients st' ! c)" using c by simp
    then have "length (handled cl) \<le> Suc (length (handled (clients st ! c)))"
      using client_step_handled c(2) by (metis le_SucI order_refl)
    moreover have "length (handled (clients st ! c)) \<le> m" using system_more.IH parts c(1) by simp
    ultimately show "length (handled cl) \<le> Suc m" by simp
  qed
qed

lemma unknown_id_from_faulty:
  assumes "replicas_started C srvs" and "system_run C (init_system C srvs n) m st" and "within_limits C st"
    and "cl \<in> set (clients st)" and "v \<in> set (handled cl)" and "replica_id v \<notin> rp_id ` set (su_rs C)"
  shows "\<exists>i\<in>su_faulty C. i < length (conns cl) \<and> v \<in> set (to_updater (comms (conns cl ! i)))"
proof -
  have inv: "client_node_inv (su_E C) (su_cap C) (su_rs C) cl" "receives C (servers st) cl"
    and len: "length (servers st) = length srvs" "length (su_rs C) = length srvs"
    using started_inv [OF assms(1,2)] assms(1,4) by (simp_all add: system_inv_def replicas_started_def)
  have "interleaves (map (\<lambda>c. to_updater (comms c)) (conns cl)) (handled cl @ queue cl)"
    using inv(1) by (simp add: client_node_inv_def)
  from interleaves_from [OF this, of v] assms(5) obtain i where
    i: "i < length (conns cl)" "v \<in> set (to_updater (comms (conns cl ! i)))" by auto
  then have "origin C (servers st) i v" using inv(2) by (simp add: receives_def)
  moreover have "replica_id v \<in> rp_id ` set (su_rs C)"
    if "i < length srvs" "b \<in> sent_on (servers st ! i)" "decode (su_PV C) b = Some v" for b
    using sent_was_cast(2) [OF assms(1-3) that] that(1) len by simp
  ultimately have "i \<in> su_faulty C" using assms(6) len by (auto simp: origin_def)
  with i show ?thesis by blast
qed

section \<open>Every faulty replica can stop a client\<close>

lemma handle_unknown:
  assumes "client_node_inv E cap rs cl" and "ended cl = None" and "transaction v \<noteq> None" and "replica_id v \<notin> rp_id ` set rs"
  shows "snd (handle_vote E (view cl) v) \<noteq> None"
proof -
  have run: "start_pod_data_updater E (init_client_state rs) (handled cl) = (view cl, None)"
    using assms(1,2) by (simp add: client_node_inv_def)
  have "replicas (view cl) = replicas (init_client_state rs)"
    using updater.loop_fwd [OF init_client_inv [of E rs], of "handled cl"] run by (simp add: init_start client_fwd_def)
  then have "replicas (view cl) (replica_id v) = None"
    using assms(4) init_client_dom [of "\<lambda>r. r" rs Map.empty] by (auto simp: init_client_state_def)
  with assms(3) show ?thesis by (auto simp: handle_vote_def)
qed

text \<open>Once such a vote is in the queue, handling the votes in front of it is all it takes.\<close>

lemma queue_with_unknown:
  assumes "client_node_inv E cap rs cl" and "ended cl = None" and "v \<in> set (queue cl)"
    and "transaction v \<noteq> None" and "replica_id v \<notin> rp_id ` set rs"
  shows "\<exists>cl' e. (calm_step E P cap)\<^sup>*\<^sup>* cl cl' \<and> ended cl' = Some (UpdaterEnded e)"
  using assms
proof (induction "queue cl" arbitrary: cl)
  case Nil
  then show ?case by simp
next
  case (Cons u us)
  have q: "queue cl = u # us" using Cons.hyps(2) by simp
  obtain s e where s: "handle_vote E (view cl) u = (s, e)" by fastforce
  let ?cl = "cl\<lparr>view := s, queue := us, handled := handled cl @ [u], ended := map_option UpdaterEnded e\<rparr>"
  have step: "client_step E P cap cl ?cl" by (rule updater [OF Cons.prems(2) q s])
  then have calm: "calm_step E P cap cl ?cl" by (simp add: calm_step_def)
  show ?case
  proof (cases e)
    case None
    have "u \<noteq> v" using handle_unknown [OF Cons.prems(1,2,4,5)] s None by auto
    moreover have "client_node_inv E cap rs ?cl" by (rule client_step_inv [OF step Cons.prems(1)])
    ultimately obtain cl' e' where "(calm_step E P cap)\<^sup>*\<^sup>* ?cl cl'" "ended cl' = Some (UpdaterEnded e')"
      using Cons.hyps(1) [of ?cl] Cons.prems None q by auto
    then show ?thesis using converse_rtranclp_into_rtranclp [of "calm_step E P cap", OF calm] by blast
  next
    case (Some e')
    then have "ended ?cl = Some (UpdaterEnded e')" by simp
    with r_into_rtranclp [of "calm_step E P cap", OF calm] show ?thesis by blast
  qed
qed

section \<open>Properties\<close>

text \<open>
  C5. As long as no faulty replica has sent it a vote with an id outside its configuration, the
  vote handler of a client goes on: it never ends in a pod without faulty replicas, whatever the
  clients write and however connections break, and when it ended the cause is such a vote, which
  came over the connection to a faulty replica.
\<close>

theorem only_faulty_replica_stops_client:
  assumes "replicas_started C srvs" and "system_run C (init_system C srvs n) m st" and "within_limits C st"
    and "m < 2 ^ 64" and "cl \<in> set (clients st)" and "ended cl = Some (UpdaterEnded e)"
  shows "\<exists>i\<in>su_faulty C. i < length (conns cl) \<and>
    (\<exists>v\<in>set (to_updater (comms (conns cl ! i))). v \<in> set (handled cl) \<and> replica_id v \<notin> rp_id ` set (su_rs C))"
proof -
  have "client_node_inv (su_E C) (su_cap C) (su_rs C) cl" using started_inv [OF assms(1,2)] assms(5) by (simp add: system_inv_def)
  then have "snd (start_pod_data_updater (su_E C) (init_client_state (su_rs C)) (handled cl)) \<noteq> None"
    using assms(6) by (simp add: client_node_inv_def)
  moreover have "length (handled cl) < 2 ^ 64"
    by (rule le_less_trans [OF bspec [OF system_run_handled [OF assms(2)] assms(5)] assms(4)])
  ultimately obtain v where "v \<in> set (handled cl)" "replica_id v \<notin> rp_id ` set (su_rs C)"
    using updater_runs [of "handled cl" "su_rs C" "su_E C"] by metis
  with unknown_id_from_faulty [OF assms(1-3,5)] show ?thesis by blast
qed

text \<open>
  C33. One faulty replica is enough to stop a client, whatever \<open>beta\<close> is: while the connection
  between them is open and there is room in the channel of votes, a single message with a vote
  under an id that is not in the configuration, its signature being of no importance, leads to
  the end of the vote handler and with it of the client.
\<close>

theorem faulty_replica_can_stop_client:
  assumes "replicas_started C srvs" and "system_run C (init_system C srvs n) m st"
    and "d < length (clients st)" and "ended (clients st ! d) = None" and "i \<in> su_faulty C"
    and "i < length (conns (clients st ! d))" and "phase (conns (clients st ! d) ! i) = Open"
    and "length (queue (clients st ! d)) < CHANNEL_SIZE"
    and "decode (su_PV C) b = Some v" and "transaction v \<noteq> None" and "replica_id v \<notin> rp_id ` set (su_rs C)"
  shows "\<exists>st' e. (system_step C)\<^sup>*\<^sup>* st st' \<and> ended (clients st' ! d) = Some (UpdaterEnded e) \<and>
    to_updater (comms (conns (clients st' ! d) ! i)) = to_updater (comms (conns (clients st ! d) ! i)) @ [v]"
proof -
  let ?cl = "clients st ! d"
  let ?x = "conn_event (su_PV C) (Incoming (WsMessage (Binary b)) True) (arrives (WsMessage (Binary b)) (conns ?cl ! i))"
  let ?cl1 = "?cl\<lparr>conns := (conns ?cl)[i := ?x], queue := queue ?cl @ forwarded (conns ?cl ! i) ?x\<rparr>"
  let ?st1 = "st\<lparr>clients := (clients st)[d := ?cl1]\<rparr>"
  have x: "forwarded (conns ?cl ! i) ?x = [v]" "to_updater (comms ?x) = to_updater (comms (conns ?cl ! i)) @ [v]"
    using assms(9) by (simp_all add: conn_event_def comms_body_def forwarded_def)
  have step: "sys_client_step C ?cl ?cl1"
    by (rule conn_incoming [OF assms(4,6,7) refl]) (use assms(8) x in simp)
  have "unforged C (servers st) v" using assms(11) by (auto simp: unforged_def)
  then have 1: "system_step C st ?st1"
    using step assms(3,5,6) x(2) by (intro faulty) auto
  have "client_node_inv (su_E C) (su_cap C) (su_rs C) ?cl"
    using started_inv [OF assms(1,2)] assms(3) by (simp add: system_inv_def)
  then have inv: "client_node_inv (su_E C) (su_cap C) (su_rs C) ?cl1" by (rule client_step_inv [OF step])
  from queue_with_unknown [OF inv, of v "su_PV C"] assms(4,10,11) x(1) obtain cl' e where
    cl': "(calm_step (su_E C) (su_PV C) (su_cap C))\<^sup>*\<^sup>* ?cl1 cl'" "ended cl' = Some (UpdaterEnded e)" by auto
  have "(system_step C)\<^sup>*\<^sup>* ?st1 (?st1\<lparr>clients := (clients ?st1)[d := cl']\<rparr>)"
    by (rule calm_lift) (use assms(3) cl'(1) in simp_all)
  then have 2: "(system_step C)\<^sup>*\<^sup>* ?st1 (st\<lparr>clients := (clients st)[d := cl']\<rparr>)" by simp
  have same: "map (\<lambda>c. to_updater (comms c)) (conns cl') = map (\<lambda>c. to_updater (comms c)) (conns ?cl1)"
    using cl'(1) by (induction rule: rtranclp_induct) (simp_all add: calm_step_def)
  from arg_cong [OF same, of "\<lambda>xs. xs ! i"] have "to_updater (comms (conns cl' ! i)) = to_updater (comms ?x)"
    using assms(6) map_eq_imp_length_eq [OF same] by simp
  with converse_rtranclp_into_rtranclp [of "system_step C", OF 1 2] cl'(2) x(2) assms(3) show ?thesis
    by (intro exI [of _ "st\<lparr>clients := (clients st)[d := cl']\<rparr>"] exI [of _ e]) simp
qed

end
