(* ===== verification/PodExample.thy ===== *)
theory PodExample
  imports PodFaults
begin

text \<open>
  An execution of the system of \<^verbatim>\<open>PodSystem\<close>. A pod of two replicas, one of them faulty,
  and two clients: both connect to the other one, the first client writes a transaction, the
  replica logs it and broadcasts its vote, and both clients receive and handle it. The faulty
  replica sends a vote on the same transaction to the second client only.
\<close>

text \<open>A codec for votes: numbers in eight bytes each, then the signature, then the transaction.\<close>

fun enc_bytes :: "bytes \<Rightarrow> bytes" where
  "enc_bytes [] = [0]"
| "enc_bytes (b # bs) = 1 # b # enc_bytes bs"

fun dec_bytes :: "bytes \<Rightarrow> bytes \<times> bytes" where
  "dec_bytes (x # b # r) = (if x = 1 then (let (bs, rest) = dec_bytes r in (b # bs, rest)) else ([], b # r))"
| "dec_bytes _ = ([], [])"

lemma dec_enc_bytes [simp]: "dec_bytes (enc_bytes bs @ r) = (bs, r)"
proof (induction bs)
  case Nil
  show ?case by (cases r) simp_all
qed simp

definition pod_vote_message :: "vote prost_message" where
  "pod_vote_message = \<lparr>encode = (\<lambda>v. Some (u64_to_le_bytes (replica_id v) @ u64_to_le_bytes (timestamp v) @
       u64_to_le_bytes (sequence_number v) @ enc_bytes (signature v) @
       (case transaction v of None \<Rightarrow> [] | Some t \<Rightarrow> 1 # data t))),
     merge = (\<lambda>m _. Some m), default_msg = default_vote,
     decode = (\<lambda>bs. Some \<lparr>replica_id = word_of_nat (of_le_bytes (take 8 bs)),
       timestamp = word_of_nat (of_le_bytes (take 8 (drop 8 bs))),
       sequence_number = word_of_nat (of_le_bytes (take 8 (drop 16 bs))),
       signature = fst (dec_bytes (drop 24 bs)),
       transaction = (case snd (dec_bytes (drop 24 bs)) of [] \<Rightarrow> None | _ # d \<Rightarrow> Some \<lparr>data = d\<rparr>)\<rparr>)\<rparr>"

lemma pod_vote_ok: "wire_ok pod_vote_message v"
  by (cases v) (auto simp: wire_ok_def pod_vote_message_def byte_simps split: option.split)

definition faulty_vote :: vote where
  "faulty_vote = first_vote 8 4 1 99"

definition stranger_vote :: vote where
  "stranger_vote = first_vote 8 77 1 5"

lemma pod_vote_ids: "replica_id served_vote = 3" "replica_id faulty_vote = 4" "replica_id stranger_vote = 77"
  by (simp_all add: served_vote_def faulty_vote_def stranger_vote_def first_vote_def signed_vote_def)

definition bytes_of :: "vote \<Rightarrow> bytes" where
  "bytes_of v = the (encode pod_vote_message v)"

lemma pod_codec [simp]: "encode pod_vote_message v = Some (bytes_of v)" "decode pod_vote_message (bytes_of v) = Some v"
  using pod_vote_ok [of v] by (auto simp: wire_ok_def bytes_of_def split: option.splits)

definition pod_replicas :: "u8 replica list" where
  "pod_replicas = [\<lparr>rp_id = 3, rp_url = ws_url ''r3'', rp_pk = 9\<rparr>, \<lparr>rp_id = 4, rp_url = ws_url ''r4'', rp_pk = 8\<rparr>]"

definition demo_pod :: "(u8, u8, u8) pod_setup" where
  "demo_pod = \<lparr>su_E = demo_ed25519, su_P = demo_record_message, su_PV = pod_vote_message, su_rs = pod_replicas,
     su_keys = [9, 9], su_cap = 128, su_faulty = {1}\<rparr>"

abbreviation pod_client' :: "conn \<Rightarrow> conn \<Rightarrow> transaction list \<Rightarrow> vote list \<Rightarrow> vote list \<Rightarrow> u8 client_node" where
  "pod_client' x y ws q h \<equiv> \<lparr>view = fst (start_pod_data_updater demo_ed25519 (init_client_state pod_replicas) h),
     writes = ws, queue = q, handled = h, conns = [x, y], ended = None\<rparr>"

abbreviation pod_client :: "conn \<Rightarrow> transaction list \<Rightarrow> vote list \<Rightarrow> vote list \<Rightarrow> u8 client_node" where
  "pod_client x ws q h \<equiv> pod_client' x new_conn ws q h"

definition open_conn :: "nat \<Rightarrow> bytes list \<Rightarrow> vote list \<Rightarrow> conn" where
  "open_conn n up_msgs vs = \<lparr>phase = Open, joined = 0, next_write = n, write_branch_off = False,
     comms = \<lparr>to_replica = up_msgs, to_updater = vs\<rparr>, arrived = map bytes_of vs\<rparr>"

abbreviation pod_server :: "node_state \<Rightarrow> transaction list \<Rightarrow> transaction list \<Rightarrow> server_conn list \<Rightarrow> replica_server" where
  "pod_server n q acc xs \<equiv> \<lparr>node = n, write_rx = q, accepted = acc, sconns = xs, accepting = True\<rparr>"

definition pod :: "u8 client_node \<Rightarrow> u8 client_node \<Rightarrow> replica_server \<Rightarrow> (nat \<rightharpoonup> link) \<Rightarrow> (nat \<rightharpoonup> link) \<Rightarrow> u8 pod_system" where
  "pod a b s la lb = \<lparr>clients = [a, b], servers = [s, server_start_state], links = (\<lambda>_ _. None)(0 := la, 1 := lb)\<rparr>"

lemma pod_init: "init_client_state pod_replicas =
   \<lparr>replicas = [3 \<mapsto> \<lparr>rp_id = 3, rp_url = ws_url ''r3'', rp_pk = 9\<rparr>, 4 \<mapsto> \<lparr>rp_id = 4, rp_url = ws_url ''r4'', rp_pk = 8\<rparr>],
    tsps = Map.empty, mrt = [3 \<mapsto> 0, 4 \<mapsto> 0], next_sn = [3 \<mapsto> 0, 4 \<mapsto> 0], ts_vote_msg = Map.empty, backlog = Map.empty\<rparr>"
  by (simp add: init_client_state_def pod_replicas_def)

definition pod_view :: "vote list \<Rightarrow> u8 client_state" where
  "pod_view h = fst (start_pod_data_updater demo_ed25519 (init_client_state pod_replicas) h)"

lemma pod_votes_handled:
  "start_pod_data_updater demo_ed25519 (init_client_state pod_replicas) [served_vote] = (pod_view [served_vote], None)"
  "start_pod_data_updater demo_ed25519 (init_client_state pod_replicas) [served_vote, faulty_vote] =
     (pod_view [served_vote, faulty_vote], None)"
  "tsps (pod_view [served_vote]) = [\<lparr>data = [1]\<rparr> \<mapsto> [3 \<mapsto> 10]]"
  "tsps (pod_view [served_vote, faulty_vote]) = [\<lparr>data = [1]\<rparr> \<mapsto> [3 \<mapsto> 10, 4 \<mapsto> 99]]"
  "mrt (pod_view [served_vote]) = [4 \<mapsto> 0, 3 \<mapsto> 10]" "dom (replicas (pod_view [served_vote])) = {3, 4}"
proof -
  have v: "served_vote = first_vote 9 3 1 10" "faulty_vote = first_vote 8 4 1 99"
    by (simp_all add: served_vote_def faulty_vote_def first_vote_def)
  show "start_pod_data_updater demo_ed25519 (init_client_state pod_replicas) [served_vote] = (pod_view [served_vote], None)"
    "start_pod_data_updater demo_ed25519 (init_client_state pod_replicas) [served_vote, faulty_vote] =
       (pod_view [served_vote, faulty_vote], None)"
    "tsps (pod_view [served_vote]) = [\<lparr>data = [1]\<rparr> \<mapsto> [3 \<mapsto> 10]]"
    "tsps (pod_view [served_vote, faulty_vote]) = [\<lparr>data = [1]\<rparr> \<mapsto> [3 \<mapsto> 10, 4 \<mapsto> 99]]"
    "mrt (pod_view [served_vote]) = [4 \<mapsto> 0, 3 \<mapsto> 10]" "dom (replicas (pod_view [served_vote])) = {3, 4}"
    unfolding v pod_view_def pod_init by (auto simp: start_pod_data_updater_def three_step)
qed

text \<open>The steps of the parts.\<close>

lemma pod_client_steps:
  "sys_client_step demo_pod (pod_client new_conn [] [] []) (pod_client (open_conn 0 [] []) [] [] [])"
  "sys_client_step demo_pod (pod_client (open_conn 0 [] []) [] [] []) (pod_client (open_conn 0 [] []) [\<lparr>data = [1]\<rparr>] [] [])"
  "sys_client_step demo_pod (pod_client (open_conn 0 [] []) [\<lparr>data = [1]\<rparr>] [] [])
     (pod_client (open_conn 1 [[1]] []) [\<lparr>data = [1]\<rparr>] [] [])"
  "sys_client_step demo_pod (pod_client (open_conn n up_msgs []) ws [] [])
     (pod_client (open_conn n up_msgs [served_vote]) ws [served_vote] [])"
  "sys_client_step demo_pod (pod_client (open_conn n up_msgs [served_vote]) ws [served_vote] [])
     (pod_client (open_conn n up_msgs [served_vote]) ws [] [served_vote])"
  "sys_client_step demo_pod (pod_client x [] [] h) (pod_client' x (open_conn 0 [] []) [] [] h)"
  "sys_client_step demo_pod (pod_client' x (open_conn 0 [] []) [] [] [served_vote])
     (pod_client' x (open_conn 0 [] [faulty_vote]) [] [faulty_vote] [served_vote])"
  "sys_client_step demo_pod (pod_client' x y [] [faulty_vote] [served_vote]) (pod_client' x y [] [] [served_vote, faulty_vote])"
proof -
  let ?t = "\<lparr>data = [1]\<rparr> :: transaction"
  note defs = open_conn_def new_conn_def demo_pod_def
  show "sys_client_step demo_pod (pod_client new_conn [] [] []) (pod_client (open_conn 0 [] []) [] [] [])"
    using conn_start [of "pod_client new_conn [] [] []" 0 "\<lambda>_. Connected" Stream 1]
    by (simp add: defs connected_def connect_to_replica_def connect_loop.simps)
  show "sys_client_step demo_pod (pod_client (open_conn 0 [] []) [] [] []) (pod_client (open_conn 0 [] []) [?t] [] [])"
    using api_write_step [of "pod_client (open_conn 0 [] []) [] [] []" _ _ _ ?t] by simp
  show "sys_client_step demo_pod (pod_client (open_conn 0 [] []) [?t] [] []) (pod_client (open_conn 1 [[1]] []) [?t] [] [])"
    using conn_write [of "pod_client (open_conn 0 [] []) [?t] [] []" 0 128 ?t "open_conn 1 [] []" demo_ed25519 pod_vote_message True]
    by (simp add: defs recv_write_def conn_event_def comms_body_def)
  show "sys_client_step demo_pod (pod_client (open_conn n up_msgs []) ws [] [])
     (pod_client (open_conn n up_msgs [served_vote]) ws [served_vote] [])"
    using conn_incoming [of "pod_client (open_conn n up_msgs []) ws [] []" 0 "open_conn n up_msgs [served_vote]" pod_vote_message
        "WsMessage (Binary (bytes_of served_vote))" demo_ed25519 128]
    by (simp add: defs conn_event_def comms_body_def forwarded_def arrives_def CHANNEL_SIZE_def)
  show "sys_client_step demo_pod (pod_client (open_conn n up_msgs [served_vote]) ws [served_vote] [])
     (pod_client (open_conn n up_msgs [served_vote]) ws [] [served_vote])"
    using updater [of "pod_client (open_conn n up_msgs [served_vote]) ws [served_vote] []" served_vote "[]" demo_ed25519
        "pod_view [served_vote]" None pod_vote_message 128]
      pod_votes_handled(1)
    by (simp add: demo_pod_def init_start split: prod.splits option.splits)
  show "sys_client_step demo_pod (pod_client x [] [] h) (pod_client' x (open_conn 0 [] []) [] [] h)"
    using conn_start [of "pod_client x [] [] h" 1 "\<lambda>_. Connected" Stream 1]
    by (simp add: defs connected_def connect_to_replica_def connect_loop.simps)
  show "sys_client_step demo_pod (pod_client' x (open_conn 0 [] []) [] [] [served_vote])
     (pod_client' x (open_conn 0 [] [faulty_vote]) [] [faulty_vote] [served_vote])"
    using conn_incoming [of "pod_client' x (open_conn 0 [] []) [] [] [served_vote]" 1 "open_conn 0 [] [faulty_vote]" pod_vote_message
        "WsMessage (Binary (bytes_of faulty_vote))" demo_ed25519 128]
    by (simp add: defs conn_event_def comms_body_def forwarded_def arrives_def CHANNEL_SIZE_def)
  show "sys_client_step demo_pod (pod_client' x y [] [faulty_vote] [served_vote]) (pod_client' x y [] [] [served_vote, faulty_vote])"
    using updater [of "pod_client' x y [] [faulty_vote] [served_vote]" faulty_vote "[]" demo_ed25519
        "pod_view [served_vote, faulty_vote]" None pod_vote_message 128]
      pod_votes_handled(1,2)
    by (simp add: demo_pod_def init_start split: prod.splits option.splits)
qed

abbreviation node_at :: "lv_pc \<Rightarrow> node_state" where
  "node_at p \<equiv> race_start\<lparr>nextsn := 1, lv := p\<rparr>"

abbreviation node_logged :: node_state where
  "node_logged \<equiv> race_start\<lparr>nextsn := 1, replica_log := served_log, lv := LvLogged (signed_record demo_ed25519 9 \<lparr>data = [1]\<rparr> 10 0)\<rparr>"

abbreviation node_voted :: node_state where
  "node_voted \<equiv> race_start\<lparr>nextsn := 1, replica_log := served_log, broadcast := [served_vote]\<rparr>"

abbreviation conn_holds :: server_conn where
  "conn_holds \<equiv> (new_server_conn 0)\<lparr>funnel_next := 1, held := Some served_vote\<rparr>"

abbreviation conn_got :: server_conn where
  "conn_got \<equiv> (new_server_conn 0)\<lparr>funnel_next := 1, vote_rx := [served_vote]\<rparr>"

abbreviation conn_sent :: server_conn where
  "conn_sent \<equiv> (new_server_conn 0)\<lparr>funnel_next := 1, wire := [bytes_of served_vote]\<rparr>"

lemma pod_server_steps:
  fixes t defines "t \<equiv> \<lparr>data = [1]\<rparr> :: transaction"
  shows "sys_server_step demo_pod 0 (pod_server race_start [] [] xs) (pod_server race_start [] [] (xs @ [new_server_conn 0]))"
    and "xs = new_server_conn 0 # ys \<Longrightarrow> sys_server_step demo_pod 0 (pod_server race_start [] [] xs) (pod_server race_start [t] [t] xs)"
    and "sys_server_step demo_pod 0 (pod_server race_start [t] [t] xs) (pod_server (node_at (LvTaken t 0)) [] [t] xs)"
    and "sys_server_step demo_pod 0 (pod_server (node_at (LvTaken t 0)) [] [t] xs) (pod_server (node_at (LvStamped t 0 10)) [] [t] xs)"
    and "sys_server_step demo_pod 0 (pod_server (node_at (LvStamped t 0 10)) [] [t] xs) (pod_server node_logged [] [t] xs)"
    and "sys_server_step demo_pod 0 (pod_server node_logged [] [t] xs) (pod_server node_voted [] [t] xs)"
    and "i < length xs \<Longrightarrow> xs ! i = new_server_conn 0 \<Longrightarrow>
      sys_server_step demo_pod 0 (pod_server node_voted [] [t] xs) (pod_server node_voted [] [t] (xs[i := conn_holds]))"
    and "i < length xs \<Longrightarrow> xs ! i = conn_holds \<Longrightarrow>
      sys_server_step demo_pod 0 (pod_server node_voted [] [t] xs) (pod_server node_voted [] [t] (xs[i := conn_got]))"
    and "i < length xs \<Longrightarrow> xs ! i = conn_got \<Longrightarrow>
      sys_server_step demo_pod 0 (pod_server node_voted [] [t] xs) (pod_server node_voted [] [t] (xs[i := conn_sent]))"
proof -
  note defs = race_start_def running_def NODE_CHANNEL_SIZE_def demo_pod_def pod_replicas_def
  show "sys_server_step demo_pod 0 (pod_server race_start [] [] xs) (pod_server race_start [] [] (xs @ [new_server_conn 0]))"
    using accept [of "pod_server race_start [] [] xs"] by (simp add: defs)
  show "sys_server_step demo_pod 0 (pod_server race_start [] [] xs) (pod_server race_start [t] [t] xs)"
    if "xs = new_server_conn 0 # ys"
    using client_message [of "pod_server race_start [] [] xs" 0 "WsMessage (Binary [1])" "[t]" False] that
    by (simp add: defs t_def new_server_conn_def)
  show "sys_server_step demo_pod 0 (pod_server race_start [t] [t] xs) (pod_server (node_at (LvTaken t 0)) [] [t] xs)"
    using log_recv [of "pod_server race_start [t] [t] xs" t "[]" 0 "race_start\<lparr>nextsn := 1\<rparr>"] by (simp add: defs fetch_add_def)
  show "sys_server_step demo_pod 0 (pod_server (node_at (LvTaken t 0)) [] [t] xs) (pod_server (node_at (LvStamped t 0 10)) [] [t] xs)"
    using log_clock [of "pod_server (node_at (LvTaken t 0)) [] [t] xs" t 0 demo_ed25519 demo_record_message pod_vote_message 9 3 128
        "{good_io}" "Some 1050"]
    by (simp add: defs get_current_round_def ROUND_SIZE_MS_def)
  let ?r = "signed_record demo_ed25519 9 \<lparr>data = [1]\<rparr> 10 0"
  have "log_vote_append demo_ed25519 demo_record_message 9 t 0 10 good_io (node_at (LvStamped t 0 10)) =
      ((node_at (LvStamped t 0 10))\<lparr>replica_log := served_log\<rparr>, ?r, Appended)"
    using served_log_facts(1) by (simp add: log_vote_append_eq race_start_def t_def)
  then show "sys_server_step demo_pod 0 (pod_server (node_at (LvStamped t 0 10)) [] [t] xs) (pod_server node_logged [] [t] xs)"
    using log_append [of "pod_server (node_at (LvStamped t 0 10)) [] [t] xs" t 0 10 good_io "{good_io}" demo_ed25519
        demo_record_message 9 "(node_at (LvStamped t 0 10))\<lparr>replica_log := served_log\<rparr>" ?r Appended pod_vote_message 3 128]
    by (simp add: defs)
  show "sys_server_step demo_pod 0 (pod_server node_logged [] [t] xs) (pod_server node_voted [] [t] xs)"
    using log_send [of "pod_server node_logged [] [t] xs" ?r demo_ed25519 demo_record_message pod_vote_message 9 3 128 "{good_io}"]
    by (simp add: defs log_vote_send_eq send_vote_def served_vote_def signed_vote_def)
  show "sys_server_step demo_pod 0 (pod_server node_voted [] [t] xs) (pod_server node_voted [] [t] (xs[i := conn_holds]))"
    if "i < length xs" "xs ! i = new_server_conn 0"
    using funnel_recv [of "pod_server node_voted [] [t] xs" i "new_server_conn 0" 128] that
    by (simp add: defs new_server_conn_def)
  show "sys_server_step demo_pod 0 (pod_server node_voted [] [t] xs) (pod_server node_voted [] [t] (xs[i := conn_got]))"
    if "i < length xs" "xs ! i = conn_holds"
    using funnel_send [of "pod_server node_voted [] [t] xs" i conn_holds served_vote "[served_vote]" False] that
    by (simp add: defs new_server_conn_def)
  show "sys_server_step demo_pod 0 (pod_server node_voted [] [t] xs) (pod_server node_voted [] [t] (xs[i := conn_sent]))"
    if "i < length xs" "xs ! i = conn_got"
  proof -
    have "vote_sender pod_vote_message 3 [(served_vote, True)] = ([bytes_of served_vote], False)"
      by (simp add: served_vote_def signed_vote_def)
    from send_vote_message [of "pod_server node_voted [] [t] xs" i conn_got served_vote "[]" pod_vote_message 3 True, OF _ _ _ _ _ this] that
    show ?thesis by (simp add: defs new_server_conn_def)
  qed
qed

text \<open>The steps of the pod.\<close>

lemma pod_at_client:
  "sys_client_step demo_pod a a' \<Longrightarrow> map (\<lambda>x. to_updater (comms x)) (conns a') = map (\<lambda>x. to_updater (comms x)) (conns a) \<Longrightarrow>
     map phase (conns a') = map phase (conns a) \<Longrightarrow> system_step demo_pod (pod a b s la lb) (pod a' b s la lb)"
  "sys_client_step demo_pod b b' \<Longrightarrow> map (\<lambda>x. to_updater (comms x)) (conns b') = map (\<lambda>x. to_updater (comms x)) (conns b) \<Longrightarrow>
     map phase (conns b') = map phase (conns b) \<Longrightarrow> system_step demo_pod (pod a b s la lb) (pod a b' s la lb)"
proof -
  have open': "\<forall>i<length (conns y). phase (conns y ! i) = Open \<longrightarrow> phase (conns x ! i) = Open"
    if "map phase (conns y) = map phase (conns x)" for x y :: "u8 client_node"
    using that by (metis length_map nth_map)
  show "system_step demo_pod (pod a b s la lb) (pod a' b s la lb)"
    if "sys_client_step demo_pod a a'" "map (\<lambda>x. to_updater (comms x)) (conns a') = map (\<lambda>x. to_updater (comms x)) (conns a)"
      "map phase (conns a') = map phase (conns a)"
    using at_client [of 0 "pod a b s la lb" demo_pod a'] that open' [OF that(3)] by (simp add: pod_def)
  show "system_step demo_pod (pod a b s la lb) (pod a b' s la lb)"
    if "sys_client_step demo_pod b b'" "map (\<lambda>x. to_updater (comms x)) (conns b') = map (\<lambda>x. to_updater (comms x)) (conns b)"
      "map phase (conns b') = map phase (conns b)"
    using at_client [of 1 "pod a b s la lb" demo_pod b'] that open' [OF that(3)] by (simp add: pod_def)
qed

lemma pod_at_server:
  "sys_server_step demo_pod 0 s s' \<Longrightarrow> accepted s' = accepted s \<Longrightarrow> system_step demo_pod (pod a b s la lb) (pod a b s' la lb)"
  using at_server [of 0 "pod a b s la lb" demo_pod s'] by (simp add: pod_def)

abbreviation link_at :: "nat \<Rightarrow> nat \<Rightarrow> nat \<Rightarrow> nat \<rightharpoonup> link" where
  "link_at j u d \<equiv> [0 \<mapsto> \<lparr>far_end = j, up = u, down = d\<rparr>]"

definition pod_end :: "u8 pod_system" where
  "pod_end = pod (pod_client (open_conn 1 [[1]] [served_vote]) [\<lparr>data = [1]\<rparr>] [] [served_vote])
     (pod_client' (open_conn 0 [] [served_vote]) (open_conn 0 [] [faulty_vote]) [] [] [served_vote, faulty_vote])
     (pod_server node_voted [] [\<lparr>data = [1]\<rparr>] [conn_sent, conn_sent]) (link_at 0 1 1) (link_at 1 0 1)"

lemma pod_at_faulty:
  assumes "sys_client_step demo_pod b b'" and "conns b = [x, y]" and "conns b' = [x, y']"
    and "set (to_updater (comms y')) \<subseteq> insert v (set (to_updater (comms y)))" and "replica_id v \<noteq> 3"
  shows "system_step demo_pod (pod a b s la lb) (pod a b' s la lb)"
proof -
  have "unforged demo_pod srvs v" for srvs
    using assms(5) by (auto simp: unforged_def demo_pod_def pod_replicas_def less_Suc_eq numeral_2_eq_2)
  with assms(4) have "\<forall>v\<in>set (to_updater (comms y')) - set (to_updater (comms y)). unforged demo_pod (servers (pod a b s la lb)) v"
    by auto
  then show ?thesis
    using faulty [of 1 "pod a b s la lb" 1 demo_pod b'] assms(1-3) by (simp add: pod_def demo_pod_def less_Suc_eq)
qed

lemma pod_links [simp]:
  "clients (pod a b s la lb) = [a, b]" "servers (pod a b s la lb) = [s, server_start_state]" "links (pod a b s la lb) 0 = la" "links (pod a b s la lb) (Suc 0) = lb"
  "pod a b s la lb\<lparr>clients := [a', b'], servers := [s', server_start_state], links := (links (pod a b s la lb))(0 := la')\<rparr> = pod a' b' s' la' lb"
  "pod a b s la lb\<lparr>clients := [a', b'], servers := [s', server_start_state], links := (links (pod a b s la lb))(Suc 0 := lb')\<rparr> = pod a' b' s' la lb'"
  "pod a b s la lb\<lparr>servers := [s', server_start_state], links := (links (pod a b s la lb))(0 := la')\<rparr> = pod a b s' la' lb"
  "pod a b s la lb\<lparr>clients := [a', b'], links := (links (pod a b s la lb))(0 := la')\<rparr> = pod a' b' s la' lb"
  "pod a b s la lb\<lparr>clients := [a', b'], links := (links (pod a b s la lb))(Suc 0 := lb')\<rparr> = pod a' b' s la lb'"
  by (simp_all add: pod_def fun_eq_iff)

lemma pod_connects:
  "system_step demo_pod (pod (pod_client new_conn [] [] []) b (pod_server race_start [] [] xs) Map.empty lb)
     (pod (pod_client (open_conn 0 [] []) [] [] []) b (pod_server race_start [] [] (xs @ [new_server_conn 0])) (link_at (length xs) 0 0) lb)"
  "system_step demo_pod (pod a (pod_client new_conn [] [] []) (pod_server race_start [] [] xs) la Map.empty)
     (pod a (pod_client (open_conn 0 [] []) [] [] []) (pod_server race_start [] [] (xs @ [new_server_conn 0])) la (link_at (length xs) 0 0))"
proof -
  note defs = open_conn_def new_conn_def connected_def race_start_def
  have cl: "(pod_client new_conn [] [] [])\<lparr>conns := (conns (pod_client new_conn [] [] []))[0 :=
      connected [] Stream new_conn]\<rparr> = pod_client (open_conn 0 [] []) [] [] []" by (simp add: defs)
  show "system_step demo_pod (pod (pod_client new_conn [] [] []) b (pod_server race_start [] [] xs) Map.empty lb)
     (pod (pod_client (open_conn 0 [] []) [] [] []) b (pod_server race_start [] [] (xs @ [new_server_conn 0])) (link_at (length xs) 0 0) lb)"
    using connect [of 0 "pod (pod_client new_conn [] [] []) b (pod_server race_start [] [] xs) Map.empty lb" 0
        "pod_client (open_conn 0 [] []) [] [] []" demo_pod "pod_server race_start [] [] (xs @ [new_server_conn 0])"]
      cl pod_client_steps(1) pod_server_steps(1) [of xs]
    by (simp add: defs)
  show "system_step demo_pod (pod a (pod_client new_conn [] [] []) (pod_server race_start [] [] xs) la Map.empty)
     (pod a (pod_client (open_conn 0 [] []) [] [] []) (pod_server race_start [] [] (xs @ [new_server_conn 0])) la (link_at (length xs) 0 0))"
    using connect [of 1 "pod a (pod_client new_conn [] [] []) (pod_server race_start [] [] xs) la Map.empty" 0
        "pod_client (open_conn 0 [] []) [] [] []" demo_pod "pod_server race_start [] [] (xs @ [new_server_conn 0])"]
      cl pod_client_steps(1) pod_server_steps(1) [of xs]
    by (simp add: defs)
qed

lemma pod_messages:
  "system_step demo_pod (pod (pod_client (open_conn n [[1]] vs) ws q h) b (pod_server race_start [] [] (new_server_conn 0 # xs)) (link_at 0 0 0) lb)
     (pod (pod_client (open_conn n [[1]] vs) ws q h) b (pod_server race_start [\<lparr>data = [1]\<rparr>] [\<lparr>data = [1]\<rparr>] (new_server_conn 0 # xs)) (link_at 0 1 0) lb)"
  "system_step demo_pod (pod (pod_client (open_conn n msgs []) ws [] []) b (pod_server node_voted [] acc [conn_sent, x]) (link_at 0 u 0) lb)
     (pod (pod_client (open_conn n msgs [served_vote]) ws [served_vote] []) b (pod_server node_voted [] acc [conn_sent, x]) (link_at 0 u 1) lb)"
  "system_step demo_pod (pod a (pod_client (open_conn n msgs []) ws [] []) (pod_server node_voted [] acc [x, conn_sent]) la (link_at 1 u 0))
     (pod a (pod_client (open_conn n msgs [served_vote]) ws [served_vote] []) (pod_server node_voted [] acc [x, conn_sent]) la (link_at 1 u 1))"
proof -
  have x: "conn_event pod_vote_message (Incoming (WsMessage (Binary (bytes_of served_vote))) True)
      (arrives (WsMessage (Binary (bytes_of served_vote))) (open_conn n msgs [])) = open_conn n msgs [served_vote]"
    "forwarded (open_conn n msgs []) (open_conn n msgs [served_vote]) = [served_vote]" "su_PV demo_pod = pod_vote_message"
    by (simp_all add: open_conn_def conn_event_def comms_body_def forwarded_def arrives_def demo_pod_def)
  show "system_step demo_pod (pod (pod_client (open_conn n [[1]] vs) ws q h) b (pod_server race_start [] [] (new_server_conn 0 # xs)) (link_at 0 0 0) lb)
     (pod (pod_client (open_conn n [[1]] vs) ws q h) b (pod_server race_start [\<lparr>data = [1]\<rparr>] [\<lparr>data = [1]\<rparr>] (new_server_conn 0 # xs)) (link_at 0 1 0) lb)"
    using message_up [of 0 "pod (pod_client (open_conn n [[1]] vs) ws q h) b (pod_server race_start [] [] (new_server_conn 0 # xs)) (link_at 0 0 0) lb" 0
        "\<lparr>far_end = 0, up = 0, down = 0\<rparr>" "\<lparr>data = [1]\<rparr>"
        "pod_server race_start [\<lparr>data = [1]\<rparr>] [\<lparr>data = [1]\<rparr>] (new_server_conn 0 # xs)" demo_pod]
      pod_server_steps(2) [OF refl, of xs]
    by (simp add: open_conn_def new_server_conn_def)
  show "system_step demo_pod (pod (pod_client (open_conn n msgs []) ws [] []) b (pod_server node_voted [] acc [conn_sent, x]) (link_at 0 u 0) lb)
     (pod (pod_client (open_conn n msgs [served_vote]) ws [served_vote] []) b (pod_server node_voted [] acc [conn_sent, x]) (link_at 0 u 1) lb)"
    using message_down [of 0 "pod (pod_client (open_conn n msgs []) ws [] []) b (pod_server node_voted [] acc [conn_sent, x]) (link_at 0 u 0) lb" 0
        "\<lparr>far_end = 0, up = u, down = 0\<rparr>" "open_conn n msgs [served_vote]" demo_pod
        "pod_client (open_conn n msgs [served_vote]) ws [served_vote] []"]
      pod_client_steps(4) [where n = n and up_msgs = msgs and ws = ws] x by simp
  show "system_step demo_pod (pod a (pod_client (open_conn n msgs []) ws [] []) (pod_server node_voted [] acc [x, conn_sent]) la (link_at 1 u 0))
     (pod a (pod_client (open_conn n msgs [served_vote]) ws [served_vote] []) (pod_server node_voted [] acc [x, conn_sent]) la (link_at 1 u 1))"
    using message_down [of 1 "pod a (pod_client (open_conn n msgs []) ws [] []) (pod_server node_voted [] acc [x, conn_sent]) la (link_at 1 u 0)" 0
        "\<lparr>far_end = 1, up = u, down = 0\<rparr>" "open_conn n msgs [served_vote]" demo_pod
        "pod_client (open_conn n msgs [served_vote]) ws [served_vote] []"]
      pod_client_steps(4) [where n = n and up_msgs = msgs and ws = ws] x by simp
qed

abbreviation pod_start :: "u8 pod_system" where
  "pod_start \<equiv> init_system demo_pod [server_start_state, server_start_state] 2"

definition pod_joined :: "u8 pod_system" where
  "pod_joined = pod (pod_client (open_conn 0 [] []) [] [] []) (pod_client (open_conn 0 [] []) [] [] [])
     (pod_server race_start [] [] [new_server_conn 0, new_server_conn 0]) (link_at 0 0 0) (link_at 1 0 0)"

lemma demo_pod_joins: "system_run demo_pod pod_start (Suc (Suc 0)) pod_joined"
proof -
  let ?x = "new_server_conn 0" and ?A = "pod_client (open_conn 0 [] []) [] [] []"
  have init: "pod_start = pod (pod_client new_conn [] [] []) (pod_client new_conn [] [] []) (pod_server race_start [] [] []) Map.empty Map.empty"
    by (simp add: init_system_def pod_def init_pod_network_client_def demo_pod_def pod_replicas_def server_start_state_def
        numeral_2_eq_2 init_start fun_eq_iff)
  have 1: "system_step demo_pod pod_start
      (pod ?A (pod_client new_conn [] [] []) (pod_server race_start [] [] [?x]) (link_at 0 0 0) Map.empty)"
    unfolding init using pod_connects(1) [where xs = "[]"] by simp
  have 2: "system_step demo_pod (pod ?A (pod_client new_conn [] [] []) (pod_server race_start [] [] [?x]) (link_at 0 0 0) Map.empty)
      pod_joined"
    unfolding pod_joined_def using pod_connects(2) [where xs = "[?x]"] by simp
  show ?thesis by (rule system_more [OF system_more [OF system_start 1] 2])
qed

lemma demo_pod_run: "\<exists>m<2 ^ 63. system_run demo_pod pod_start m pod_end"
proof -
  let ?t = "\<lparr>data = [1]\<rparr> :: transaction" and ?x = "new_server_conn 0"
  let ?A = "\<lambda>n msgs ws. pod_client (open_conn n msgs []) ws [] []"
  let ?L = "link_at 0 1 0" and ?R = "link_at 1 0 0"
  let ?S = "\<lambda>n q xs. pod (?A 1 [[1]] [?t]) (?A 0 [] []) (pod_server n q [?t] xs) ?L ?R"
  note c = pod_client_steps
  have 3: "system_step demo_pod (pod (?A 0 [] []) (?A 0 [] []) (pod_server race_start [] [] [?x, ?x]) (link_at 0 0 0) ?R)
      (pod (?A 0 [] [?t]) (?A 0 [] []) (pod_server race_start [] [] [?x, ?x]) (link_at 0 0 0) ?R)"
    by (rule pod_at_client(1) [OF c(2)]) simp_all
  have 4: "system_step demo_pod (pod (?A 0 [] [?t]) (?A 0 [] []) (pod_server race_start [] [] [?x, ?x]) (link_at 0 0 0) ?R)
      (pod (?A 1 [[1]] [?t]) (?A 0 [] []) (pod_server race_start [] [] [?x, ?x]) (link_at 0 0 0) ?R)"
    by (rule pod_at_client(1) [OF c(3)]) (simp_all add: open_conn_def)
  note 5 = pod_messages(1) [where n = 1 and vs = "[]" and ws = "[?t]" and q = "[]" and h = "[]" and b = "?A 0 [] []" and xs = "[?x]" and lb = ?R]
  have 6: "system_step demo_pod (?S race_start [?t] [?x, ?x]) (?S (node_at (LvTaken ?t 0)) [] [?x, ?x])"
    by (rule pod_at_server [OF pod_server_steps(3)]) simp
  have 7: "system_step demo_pod (?S (node_at (LvTaken ?t 0)) [] [?x, ?x]) (?S (node_at (LvStamped ?t 0 10)) [] [?x, ?x])"
    by (rule pod_at_server [OF pod_server_steps(4)]) simp
  have 8: "system_step demo_pod (?S (node_at (LvStamped ?t 0 10)) [] [?x, ?x]) (?S node_logged [] [?x, ?x])"
    by (rule pod_at_server [OF pod_server_steps(5)]) simp
  have vote: "system_step demo_pod (?S node_logged [] [?x, ?x]) (?S node_voted [] [?x, ?x])"
    by (rule pod_at_server [OF pod_server_steps(6)]) simp
  have 9: "system_step demo_pod (?S node_voted [] [?x, ?x]) (?S node_voted [] [conn_holds, ?x])"
    using pod_at_server [OF pod_server_steps(7) [of 0 "[?x, ?x]"]] by simp
  have put: "system_step demo_pod (?S node_voted [] [conn_holds, ?x]) (?S node_voted [] [conn_got, ?x])"
    using pod_at_server [OF pod_server_steps(8) [of 0 "[conn_holds, ?x]"]] by simp
  have 10: "system_step demo_pod (?S node_voted [] [conn_got, ?x]) (?S node_voted [] [conn_got, conn_holds])"
    using pod_at_server [OF pod_server_steps(7) [of 1 "[conn_got, ?x]"]] by simp
  have put': "system_step demo_pod (?S node_voted [] [conn_got, conn_holds]) (?S node_voted [] [conn_got, conn_got])"
    using pod_at_server [OF pod_server_steps(8) [of 1 "[conn_got, conn_holds]"]] by simp
  have 11: "system_step demo_pod (?S node_voted [] [conn_got, conn_got]) (?S node_voted [] [conn_sent, conn_got])"
    using pod_at_server [OF pod_server_steps(9) [of 0 "[conn_got, conn_got]"]] by simp
  have 12: "system_step demo_pod (?S node_voted [] [conn_sent, conn_got]) (?S node_voted [] [conn_sent, conn_sent])"
    using pod_at_server [OF pod_server_steps(9) [of 1 "[conn_sent, conn_got]"]] by simp
  note 13 = pod_messages(2) [where n = 1 and msgs = "[[1]]" and ws = "[?t]" and b = "?A 0 [] []" and acc = "[?t]" and x = conn_sent and u = 1 and lb = ?R]
  let ?a = "pod_client (open_conn 1 [[1]] [served_vote]) [?t] [served_vote] []"
  note 14 = pod_messages(3) [where a = ?a and n = 0 and msgs = "[]" and ws = "[]" and acc = "[?t]" and x = conn_sent and la = "link_at 0 1 1" and u = 0]
  let ?b = "\<lambda>q h. pod_client (open_conn 0 [] [served_vote]) [] q h"
  let ?a' = "pod_client (open_conn 1 [[1]] [served_vote]) [?t] [] [served_vote]"
  let ?s = "pod_server node_voted [] [?t] [conn_sent, conn_sent]"
  have 15: "system_step demo_pod (pod ?a (?b [served_vote] []) ?s (link_at 0 1 1) (link_at 1 0 1))
      (pod ?a' (?b [served_vote] []) ?s (link_at 0 1 1) (link_at 1 0 1))"
    by (rule pod_at_client(1) [OF c(5)]) simp_all
  have 16: "system_step demo_pod (pod ?a' (?b [served_vote] []) ?s (link_at 0 1 1) (link_at 1 0 1))
      (pod ?a' (?b [] [served_vote]) ?s (link_at 0 1 1) (link_at 1 0 1))"
    by (rule pod_at_client(2) [OF c(5)]) simp_all
  let ?p = "\<lambda>b. pod ?a' b ?s (link_at 0 1 1) (link_at 1 0 1)"
  let ?b' = "\<lambda>vs q h. pod_client' (open_conn 0 [] [served_vote]) (open_conn 0 [] vs) [] q h"
  have 17: "system_step demo_pod (?p (?b [] [served_vote])) (?p (?b' [] [] [served_vote]))"
    by (rule pod_at_faulty [OF c(6), where y = new_conn and y' = "open_conn 0 [] []" and v = faulty_vote])
      (simp_all add: open_conn_def new_conn_def pod_vote_ids)
  have 18: "system_step demo_pod (?p (?b' [] [] [served_vote])) (?p (?b' [faulty_vote] [faulty_vote] [served_vote]))"
    by (rule pod_at_faulty [OF c(7), where y = "open_conn 0 [] []" and y' = "open_conn 0 [] [faulty_vote]" and v = faulty_vote])
      (simp_all add: open_conn_def pod_vote_ids)
  have 19: "system_step demo_pod (?p (?b' [faulty_vote] [faulty_vote] [served_vote])) (?p (?b' [faulty_vote] [] [served_vote, faulty_vote]))"
    by (rule pod_at_client(2) [OF c(8)]) simp_all
  note run = system_more [OF system_more [OF system_more [OF system_more [OF system_more [OF system_more [OF system_more [OF system_more
    [OF system_more [OF system_more [OF system_more [OF system_more [OF system_more [OF system_more [OF system_more [OF system_more
      [OF system_more [OF system_more [OF system_more [OF system_more [OF demo_pod_joins [unfolded pod_joined_def] 3] 4] 5] 6] 7] 8]
        vote] 9] put] 10] put'] 11] 12] 13] 14] 15] 16] 17] 18] 19]
  show ?thesis unfolding pod_end_def by (rule exI, rule conjI [OF _ run]) simp
qed

lemma demo_pod_run': "\<exists>m<2 ^ 64. system_run demo_pod pod_start m pod_end"
proof -
  obtain m where m: "m < 2 ^ 63" "system_run demo_pod pod_start m pod_end" using demo_pod_run by blast
  then have "m < 2 ^ 64" by simp
  with m(2) show ?thesis by blast
qed

lemma demo_pod_ok: "replicas_started demo_pod [server_start_state, server_start_state]"
  "within_limits demo_pod pod_end" "within_limits demo_pod pod_joined"
proof -
  show "replicas_started demo_pod [server_start_state, server_start_state]"
    unfolding replicas_started_def using demo_server_start
    by (auto simp: demo_pod_def pod_replicas_def less_Suc_eq
        intro!: exI [of _ demo_hex] exI [of _ demo_keys] exI [of _ demo_private_key] exI [of _ True])
  have "frame_ok demo_record_message (signed_record demo_ed25519 k \<lparr>data = [1]\<rparr> t n)" for k t n
    by (rule demo_record_frame_ok [where t = "\<lparr>data = [1]\<rparr>"]) (simp_all add: signed_record_def demo_ed25519_def)
  then show "within_limits demo_pod pod_end" "within_limits demo_pod pod_joined"
    using served_log_facts(2) pod_vote_ok
    by (simp_all add: within_limits_def pod_end_def pod_joined_def all_writes_def demo_pod_def server_start_state_def race_start_def
        votes_issued_def unsent_def less_Suc_eq)
qed

lemma demo_pod_facts:
  "tsps (view (clients pod_end ! 0)) \<lparr>data = [1]\<rparr> = Some [3 \<mapsto> 10]"
  "tsps (view (clients pod_end ! 1)) \<lparr>data = [1]\<rparr> = Some [3 \<mapsto> 10, 4 \<mapsto> 99]"
  "ended (clients pod_end ! 0) = None" "ended (clients pod_end ! 1) = None"
  "clients pod_end ! 0 \<in> set (clients pod_end)" "clients pod_end ! 1 \<in> set (clients pod_end)"
  "rp_id (su_rs demo_pod ! 0) = 3" "su_faulty demo_pod = {1}"
  using pod_votes_handled(3,4) by (simp_all add: pod_end_def pod_view_def demo_pod_def pod_replicas_def)

theorem recorded_transactions_were_written_witness:
  "\<lparr>data = [1]\<rparr> \<in> all_writes (clients pod_end)"
proof -
  obtain m where "system_run demo_pod pod_start m pod_end" using demo_pod_run by blast
  from recorded_transactions_were_written [OF demo_pod_ok(1) this demo_pod_ok(2) demo_pod_facts(6,4,2), of 0 10]
  show ?thesis using demo_pod_facts(7,8) by simp
qed

theorem clients_of_pod_agree_witness:
  "the (the (tsps (view (clients pod_end ! 0)) \<lparr>data = [1]\<rparr>) 3) = the (the (tsps (view (clients pod_end ! 1)) \<lparr>data = [1]\<rparr>) 3)"
proof -
  obtain m where m: "m < 2 ^ 64" "system_run demo_pod pod_start m pod_end" using demo_pod_run' by blast
  show ?thesis
    by (rule clients_of_pod_agree [OF demo_pod_ok(1) m(2) demo_pod_ok(2) m(1) demo_pod_facts(5,6,3,4) _ _ demo_pod_facts(1) _ demo_pod_facts(2),
          where j = 0]) (use demo_pod_facts in simp_all)
qed

text \<open>The faulty replica sends a vote under an id that nobody has.\<close>

definition pod_stopped :: "u8 pod_system" where
  "pod_stopped = pod (clients pod_end ! 0)
     ((pod_client' (open_conn 0 [] [served_vote]) (open_conn 0 [] [faulty_vote, stranger_vote]) [] [] [served_vote, faulty_vote, stranger_vote])
        \<lparr>ended := Some (UpdaterEnded NoReplica)\<rparr>)
     (servers pod_end ! 0) (links pod_end 0) (links pod_end 1)"

lemma stranger_handled:
  "handle_vote demo_ed25519 (pod_view [served_vote, faulty_vote]) stranger_vote = (pod_view [served_vote, faulty_vote], Some NoReplica)"
  "pod_view [served_vote, faulty_vote, stranger_vote] = pod_view [served_vote, faulty_vote]"
proof -
  show *: "handle_vote demo_ed25519 (pod_view [served_vote, faulty_vote]) stranger_vote = (pod_view [served_vote, faulty_vote], Some NoReplica)"
  proof -
    have "replicas (pod_view [served_vote, faulty_vote]) = replicas (init_client_state pod_replicas)"
      using updater.loop_fwd [OF init_client_inv [of demo_ed25519 pod_replicas], of "[served_vote, faulty_vote]"] pod_votes_handled(2)
      by (simp add: init_start client_fwd_def)
    then have "replicas (pod_view [served_vote, faulty_vote]) (replica_id stranger_vote) = None" by (simp add: pod_init pod_vote_ids)
    moreover have "transaction stranger_vote = Some \<lparr>data = [1]\<rparr>"
      by (simp add: stranger_vote_def first_vote_def)
    ultimately show ?thesis by (simp add: handle_vote_def)
  qed
  show "pod_view [served_vote, faulty_vote, stranger_vote] = pod_view [served_vote, faulty_vote]"
  proof -
    have run: "service_loop (handle_vote demo_ed25519) (init_client_state pod_replicas) [served_vote, faulty_vote] =
        (pod_view [served_vote, faulty_vote], None)" using pod_votes_handled(2) unfolding init_start .
    have "start_pod_data_updater demo_ed25519 (init_client_state pod_replicas) ([served_vote, faulty_vote] @ [stranger_vote]) =
        (pod_view [served_vote, faulty_vote], Some NoReplica)"
      unfolding init_start service_loop_append run using * by simp
    then show ?thesis unfolding pod_view_def by simp
  qed
qed

lemma demo_pod_stops: "\<exists>m<2 ^ 64. system_run demo_pod pod_start m pod_stopped"
proof -
  let ?b = "\<lambda>vs q h. pod_client' (open_conn 0 [] [served_vote]) (open_conn 0 [] (faulty_vote # vs)) [] q ([served_vote, faulty_vote] @ h)"
  let ?p = "\<lambda>b. pod (pod_client (open_conn 1 [[1]] [served_vote]) [\<lparr>data = [1]\<rparr>] [] [served_vote]) b
      (pod_server node_voted [] [\<lparr>data = [1]\<rparr>] [conn_sent, conn_sent]) (link_at 0 1 1) (link_at 1 0 1)"
  have e: "pod_end = ?p (?b [] [] [])" "pod_stopped = ?p ((?b [stranger_vote] [] [stranger_vote])\<lparr>ended := Some (UpdaterEnded NoReplica)\<rparr>)"
    by (simp_all add: pod_end_def pod_stopped_def)
  have c1: "sys_client_step demo_pod (?b [] [] []) (?b [stranger_vote] [stranger_vote] [])"
    using conn_incoming [of "?b [] [] []" 1 "open_conn 0 [] [faulty_vote, stranger_vote]" pod_vote_message
        "WsMessage (Binary (bytes_of stranger_vote))" demo_ed25519 128]
    by (simp add: open_conn_def conn_event_def comms_body_def forwarded_def arrives_def CHANNEL_SIZE_def demo_pod_def)
  have c2: "sys_client_step demo_pod (?b [stranger_vote] [stranger_vote] [])
      ((?b [stranger_vote] [] [stranger_vote])\<lparr>ended := Some (UpdaterEnded NoReplica)\<rparr>)"
    using updater [of "?b [stranger_vote] [stranger_vote] []" stranger_vote "[]" demo_ed25519
        "pod_view [served_vote, faulty_vote]" "Some NoReplica" pod_vote_message 128] stranger_handled
    by (simp add: demo_pod_def pod_view_def)
  have 1: "system_step demo_pod pod_end (?p (?b [stranger_vote] [stranger_vote] []))"
    unfolding e(1)
    by (rule pod_at_faulty [OF c1, where y = "open_conn 0 [] [faulty_vote]" and y' = "open_conn 0 [] [faulty_vote, stranger_vote]"
          and v = stranger_vote]) (simp_all add: open_conn_def pod_vote_ids)
  have 2: "system_step demo_pod (?p (?b [stranger_vote] [stranger_vote] [])) pod_stopped"
    unfolding e(2) by (rule pod_at_client(2) [OF c2]) simp_all
  obtain m where m: "m < 2 ^ 63" "system_run demo_pod pod_start m pod_end" using demo_pod_run by blast
  show ?thesis by (rule exI, rule conjI [OF _ system_more [OF system_more [OF m(2) 1] 2]]) (use m(1) in simp)
qed

theorem only_faulty_replica_stops_client_witness:
  "\<exists>v\<in>set (to_updater (comms (conns (clients pod_stopped ! 1) ! 1))). replica_id v \<notin> {3, 4}"
proof -
  obtain m where m: "m < 2 ^ 64" "system_run demo_pod pod_start m pod_stopped" using demo_pod_stops by blast
  have "within_limits demo_pod pod_stopped"
    using demo_pod_ok(2) by (simp add: within_limits_def pod_stopped_def pod_end_def all_writes_def less_Suc_eq)
  from only_faulty_replica_stops_client [OF demo_pod_ok(1) m(2) this m(1), of "clients pod_stopped ! 1" NoReplica]
  show ?thesis by (auto simp: pod_stopped_def demo_pod_def pod_replicas_def)
qed

theorem faulty_replica_can_stop_client_witness:
  "\<exists>st e. (system_step demo_pod)\<^sup>*\<^sup>* pod_end st \<and> ended (clients st ! 1) = Some (UpdaterEnded e)"
proof -
  obtain m where "system_run demo_pod pod_start m pod_end" using demo_pod_run by blast
  moreover have "1 < length (clients pod_end)" "1 \<in> su_faulty demo_pod" "1 < length (conns (clients pod_end ! 1))"
    "phase (conns (clients pod_end ! 1) ! 1) = Open" "length (queue (clients pod_end ! 1)) < CHANNEL_SIZE"
    "decode (su_PV demo_pod) (bytes_of stranger_vote) = Some stranger_vote" "transaction stranger_vote \<noteq> None"
    "replica_id stranger_vote \<notin> rp_id ` set (su_rs demo_pod)"
    by (simp_all add: pod_end_def demo_pod_def pod_replicas_def open_conn_def CHANNEL_SIZE_def pod_vote_ids)
      (simp add: stranger_vote_def first_vote_def)
  ultimately show ?thesis
    using faulty_replica_can_stop_client [OF demo_pod_ok(1) _ _ demo_pod_facts(4)] by blast
qed

text \<open>What the first client reads.\<close>

definition pod_order :: hash_order where
  "pod_order = \<lparr>replicas_keys = [3, 4], tsps_keys = [\<lparr>data = [1]\<rparr>], tspstx_keys = (\<lambda>_. [3]), mrt_keys = [3, 4]\<rparr>"

definition pod_read :: pod_data where
  "pod_read = projr (read 2 1 pod_order (pod_view [served_vote]))"

lemma pod_read:
  "hash_order_ok pod_order (pod_view [served_vote])" "read 2 1 pod_order (pod_view [served_vote]) = Inr pod_read"
  "rmin (hd (pd_t pod_read)) = 10" "tr_transaction (hd (pd_t pod_read)) = Some \<lparr>data = [1]\<rparr>" "hd (pd_t pod_read) \<in> set (pd_t pod_read)"
  by (auto simp: hash_order_ok_def lists_keys_def pod_order_def pod_votes_handled pod_read_def read_def read_tx_def max_possible_ts_def
      min_possible_ts_def List.map_filter_def median_or_default_def split: if_splits)

theorem bounds_hold_across_pod_witness:
  "10 \<le> sort (votes_of [3 \<mapsto> 10, 4 \<mapsto> 99]) ! 1 \<and> sort (votes_of [3 \<mapsto> 10, 4 \<mapsto> 99]) ! 1 \<le> rmax (hd (pd_t pod_read))"
proof -
  let ?m = "[3 \<mapsto> 10, 4 \<mapsto> 99] :: u64 \<rightharpoonup> u64"
  have dom: "dom ?m = {3, 4}" "{r :: u64. (r = 4 \<or> r = 3) \<and> r \<noteq> 3} = {4}" by auto
  have view: "view (clients pod_end ! 0) = pod_view [served_vote]" by (simp add: pod_end_def pod_view_def)
  obtain m where m: "m < 2 ^ 64" "system_run demo_pod pod_start m pod_end" using demo_pod_run' by blast
  from bounds_hold_across_pod [OF demo_pod_ok(1) m(2) demo_pod_ok(2) m(1) demo_pod_facts(5,6,3,4), unfolded view,
      OF pod_read(1,2,5,4) _ demo_pod_facts(2)] demo_pod_facts(1) [unfolded view]
  show ?thesis by (simp add: pod_read(3) dom demo_pod_facts(7,8) demo_pod_def pod_replicas_def)
qed

theorem write_can_reach_other_client_witness:
  "\<exists>st v. (system_step demo_pod)\<^sup>*\<^sup>* pod_joined st \<and> transaction v = Some \<lparr>data = [1]\<rparr> \<and> v \<in> set (handled (clients st ! 1))"
proof -
  have frames: "frame_ok demo_record_message (signed_record demo_ed25519 9 \<lparr>data = [1]\<rparr> t n) \<and>
      length (frame demo_record_message (signed_record demo_ed25519 9 \<lparr>data = [1]\<rparr> t n)) \<le> 85" for t n
    by (rule conjI, rule demo_record_frame_ok [where t = "\<lparr>data = [1]\<rparr>"])
      (simp_all add: signed_record_def demo_ed25519_def frame_def demo_record_message_def)
  note defs = pod_joined_def demo_pod_def
  have "can_write demo_pod pod_joined 0 0" "can_receive demo_pod pod_joined 1 0" "running (servers pod_joined ! 0)"
    by (simp_all add: defs can_write_def can_receive_def open_conn_def new_server_conn_def race_start_def running_def)
  moreover have "log_has_room demo_pod pod_joined 0 0 \<lparr>data = [1]\<rparr> 85"
    using frames by (simp add: defs log_has_room_def all_writes_def race_start_def)
  moreover have "0 < su_cap demo_pod" "\<forall>v. wire_ok (su_PV demo_pod) v" by (simp_all add: demo_pod_def pod_vote_ok)
  ultimately show ?thesis
    using write_can_reach_other_client [OF demo_pod_ok(1) demo_pod_joins demo_pod_ok(3), of 0 0 1 "\<lparr>data = [1]\<rparr>" 85] by auto
qed

end
