(* ===== verification/SharedMaps.thy ===== *)
theory SharedMaps
  imports ApiTheorems
begin

text \<open>
  The vote handler and the API requests run as separate tasks over the same maps, each map behind
  a read-write lock of its own. Here both are cut at every lock they take
  (\<open>client/src/pod_data_updater.rs\<close>, \<open>client/src/client_api_service.rs\<close>). Which locks a task holds
  is a function of its program point. The locks are \<open>tokio::sync::RwLock\<close>s, which are fair: whoever
  has to wait is served in the order of asking. The handler is the only task that writes, so the
  queue of a lock matters in one way: while the handler waits in it, no further read lock is given
  out. \<open>queued\<close> is the lock whose queue the handler stands in; a step that takes a write lock needs
  no task to hold that lock, a step that takes a read lock needs the handler neither to hold it for
  writing nor to stand in its queue. The locks on \<open>replicas\<close> and \<open>nextsn\<close> never conflict (the
  first is only read, the second only used by the handler).
\<close>

section \<open>Program points\<close>

datatype lock = Tsps | Mrt | TsVoteMsg

datatype updater_pc =
    UIdle
  | UWantMrt u64 transaction vote    \<comment> \<open>number advanced; \<open>mrt.write()\<close> comes next\<close>
  | UWantMsg u64 transaction vote    \<comment> \<open>in \<open>process_vote\<close>, before \<open>ts_vote_msg.write()\<close>\<close>
  | UEntry u64 transaction vote      \<comment> \<open>message stored, its lock released\<close>
  | UWantTsps u64 transaction vote   \<comment> \<open>\<open>mrt\<close> entry written; \<open>tsps.write()\<close> comes next\<close>
  | UDrain u64                       \<comment> \<open>the loop over the backlog\<close>
  | UStopped updater_error

datatype reader_pc =
    RIdle
  | RTsps hash_order                                             \<comment> \<open>holds \<open>tsps\<close>\<close>
  | RLoop hash_order "transaction list" "tx_record list"         \<comment> \<open>holds \<open>tsps\<close> and \<open>ts_vote_msg\<close>\<close>
  | RMin hash_order transaction "transaction list" "tx_record list"   \<comment> \<open>in \<open>min_possible_ts\<close>: \<open>mrt\<close> too\<close>
  | RMax hash_order transaction u64 "transaction list" "tx_record list"
  | RPerf hash_order "tx_record list"      \<comment> \<open>in \<open>min_possible_ts_for_new_tx\<close>: \<open>mrt\<close> too\<close>
  | RCpp hash_order "tx_record list" u64
  | RMrt hash_order "tx_record list" u64   \<comment> \<open>the loop for \<open>cpp\<close>: \<open>mrt\<close> too\<close>
  | RDone hash_order "api_error + pod_data"

record 'pk shared_state =
  maps :: "'pk client_state"
  inbox :: "vote list"
  upd :: updater_pc
  readers :: "nat \<Rightarrow> reader_pc"
  queued :: "lock option"

fun write_holds :: "updater_pc \<Rightarrow> lock \<Rightarrow> bool" where
  "write_holds (UWantMsg _ _ _) l \<longleftrightarrow> l = Mrt"
| "write_holds (UEntry _ _ _) l \<longleftrightarrow> l = Mrt"
| "write_holds (UWantTsps _ _ _) l \<longleftrightarrow> l = Mrt"
| "write_holds _ _ \<longleftrightarrow> False"

fun read_holds :: "reader_pc \<Rightarrow> lock \<Rightarrow> bool" where
  "read_holds (RTsps _) l \<longleftrightarrow> l = Tsps"
| "read_holds (RLoop _ _ _) l \<longleftrightarrow> l = Tsps \<or> l = TsVoteMsg"
| "read_holds (RMin _ _ _ _) l \<longleftrightarrow> True"
| "read_holds (RMax _ _ _ _ _) l \<longleftrightarrow> l = Tsps \<or> l = TsVoteMsg"
| "read_holds (RPerf _ _) l \<longleftrightarrow> True"
| "read_holds (RCpp _ _ _) l \<longleftrightarrow> l = Tsps \<or> l = TsVoteMsg"
| "read_holds (RMrt _ _ _) l \<longleftrightarrow> True"
| "read_holds _ _ \<longleftrightarrow> False"

text \<open>The lock the handler asks for next.\<close>

fun wants :: "updater_pc \<Rightarrow> lock option" where
  "wants (UWantMrt _ _ _) = Some Mrt"
| "wants (UWantMsg _ _ _) = Some TsVoteMsg"
| "wants (UWantTsps _ _ _) = Some Tsps"
| "wants _ = None"

definition can_write :: "'pk shared_state \<Rightarrow> lock \<Rightarrow> bool" where
  "can_write st l \<longleftrightarrow> (\<forall>i. \<not> read_holds (readers st i) l)"

definition can_read :: "'pk shared_state \<Rightarrow> lock \<Rightarrow> bool" where
  "can_read st l \<longleftrightarrow> \<not> write_holds (upd st) l \<and> queued st \<noteq> Some l"

section \<open>The handler in steps\<close>

text \<open>The vote at hand is valid and the expected one, and its number can be advanced.\<close>

definition takes :: "('sk, 'pk, 'sig) ed25519 \<Rightarrow> 'pk client_state \<Rightarrow> vote \<Rightarrow> transaction \<Rightarrow> u64 \<Rightarrow> bool" where
  "takes E s v txn n1 \<longleftrightarrow> accepts E (replicas s) v \<and> transaction v = Some txn \<and>
     next_sn s (replica_id v) = Some (sequence_number v) \<and> checked_add (sequence_number v) 1 = Some n1"

definition store_msg :: "vote \<Rightarrow> 'pk client_state \<Rightarrow> 'pk client_state" where
  "store_msg v s = (if ts_vote_msg s (timestamp v) = None
     then s\<lparr>ts_vote_msg := (ts_vote_msg s)(timestamp v \<mapsto> v)\<rparr> else s)"

definition store_tsps :: "u64 \<Rightarrow> transaction \<Rightarrow> u64 \<Rightarrow> 'pk client_state \<Rightarrow> 'pk client_state" where
  "store_tsps rid txn t s =
     (let s3 = (if tsps s txn = None then s\<lparr>tsps := (tsps s)(txn \<mapsto> Map.empty)\<rparr> else s); m = the (tsps s3 txn) in
      if m rid \<noteq> None \<and> m rid \<noteq> Some t then s3
      else s3\<lparr>tsps := (tsps s3)(txn \<mapsto> m(rid \<mapsto> t))\<rparr>)"

text \<open>One turn of the backlog loop: it ends, or hands out the next vote.\<close>

definition drain_once ::
  "u64 \<Rightarrow> 'pk client_state \<Rightarrow> ('pk client_state \<times> updater_error option) + ('pk client_state \<times> vote)" where
  "drain_once rid s =
     (case backlog s rid of
        None \<Rightarrow> Inl (s, None)
      | Some b \<Rightarrow>
          (case bt_first b of
             None \<Rightarrow> Inl (s, None)
           | Some (next_seq, v) \<Rightarrow>
               (case next_sn s rid of
                  None \<Rightarrow> Inl (s, Some NoNextSn)
                | Some n \<Rightarrow>
                    if next_seq = n then
                      let s1 = s\<lparr>backlog := (backlog s)(rid \<mapsto> bt_remove next_seq b)\<rparr> in
                      (case checked_add n 1 of
                         None \<Rightarrow> Inl (s1, Some OverflowPanic)
                       | Some n1 \<Rightarrow> Inr (s1\<lparr>next_sn := (next_sn s1)(rid \<mapsto> n1)\<rparr>, v))
                    else Inl (s, None))))"

fun stop_or_idle :: "updater_error option \<Rightarrow> updater_pc" where
  "stop_or_idle None = UIdle"
| "stop_or_idle (Some e) = UStopped e"

inductive shared_step ::
  "('sk, 'pk, 'sig) ed25519 \<Rightarrow> nat \<Rightarrow> nat \<Rightarrow> 'pk shared_state \<Rightarrow> 'pk shared_state \<Rightarrow> bool"
  for E \<alpha> \<beta> where
  u_other: "upd st = UIdle \<Longrightarrow> inbox st = v # vs \<Longrightarrow> \<nexists>txn n1. takes E (maps st) v txn n1 \<Longrightarrow>
    handle_vote E (maps st) v = (s', e) \<Longrightarrow>
    shared_step E \<alpha> \<beta> st (st\<lparr>maps := s', inbox := vs, upd := stop_or_idle e\<rparr>)"
| u_take: "upd st = UIdle \<Longrightarrow> inbox st = v # vs \<Longrightarrow> takes E (maps st) v txn n1 \<Longrightarrow>
    shared_step E \<alpha> \<beta> st (st\<lparr>maps := (maps st)\<lparr>next_sn := (next_sn (maps st))(replica_id v \<mapsto> n1)\<rparr>,
      inbox := vs, upd := UWantMrt (replica_id v) txn v\<rparr>)"
| u_queue: "wants (upd st) = Some l \<Longrightarrow> \<not> can_write st l \<Longrightarrow> queued st = None \<Longrightarrow>
    shared_step E \<alpha> \<beta> st (st\<lparr>queued := Some l\<rparr>)"
| u_mrt: "upd st = UWantMrt rid txn v \<Longrightarrow> can_write st Mrt \<Longrightarrow>
    shared_step E \<alpha> \<beta> st (st\<lparr>upd := UWantMsg rid txn v, queued := None\<rparr>)"
| u_msg: "upd st = UWantMsg rid txn v \<Longrightarrow> can_write st TsVoteMsg \<Longrightarrow>
    shared_step E \<alpha> \<beta> st (st\<lparr>maps := store_msg v (maps st), upd := UEntry rid txn v, queued := None\<rparr>)"
| u_no_mrt: "upd st = UEntry rid txn v \<Longrightarrow> mrt (maps st) rid = None \<Longrightarrow>
    shared_step E \<alpha> \<beta> st (st\<lparr>upd := UStopped NoMrt\<rparr>)"
| u_old: "upd st = UEntry rid txn v \<Longrightarrow> mrt (maps st) rid = Some x \<Longrightarrow> timestamp v < x \<Longrightarrow>
    shared_step E \<alpha> \<beta> st (st\<lparr>upd := UDrain rid\<rparr>)"
| u_entry: "upd st = UEntry rid txn v \<Longrightarrow> mrt (maps st) rid = Some x \<Longrightarrow> \<not> timestamp v < x \<Longrightarrow>
    shared_step E \<alpha> \<beta> st (st\<lparr>maps := (maps st)\<lparr>mrt := (mrt (maps st))(rid \<mapsto> timestamp v)\<rparr>,
      upd := (if is_heartbeat txn then UDrain rid else UWantTsps rid txn v)\<rparr>)"
| u_tsps: "upd st = UWantTsps rid txn v \<Longrightarrow> can_write st Tsps \<Longrightarrow>
    shared_step E \<alpha> \<beta> st
      (st\<lparr>maps := store_tsps rid txn (timestamp v) (maps st), upd := UDrain rid, queued := None\<rparr>)"
| u_drained: "upd st = UDrain rid \<Longrightarrow> drain_once rid (maps st) = Inl (s', e) \<Longrightarrow>
    shared_step E \<alpha> \<beta> st (st\<lparr>maps := s', upd := stop_or_idle e\<rparr>)"
| u_pop: "upd st = UDrain rid \<Longrightarrow> drain_once rid (maps st) = Inr (s', v) \<Longrightarrow>
    shared_step E \<alpha> \<beta> st (st\<lparr>maps := s',
      upd := (case transaction v of None \<Rightarrow> UDrain rid | Some txn \<Rightarrow> UWantMrt rid txn v)\<rparr>)"
| r_tsps: "readers st i = RIdle \<Longrightarrow> can_read st Tsps \<Longrightarrow> hash_order_ok ho (maps st) \<Longrightarrow>
    shared_step E \<alpha> \<beta> st (st\<lparr>readers := (readers st)(i := RTsps ho)\<rparr>)"
| r_msg: "readers st i = RTsps ho \<Longrightarrow> can_read st TsVoteMsg \<Longrightarrow>
    shared_step E \<alpha> \<beta> st (st\<lparr>readers := (readers st)(i := RLoop ho (tsps_keys ho) [])\<rparr>)"
| r_lock: "readers st i = RLoop ho (txn # todo) acc \<Longrightarrow> can_read st Tsps \<Longrightarrow> can_read st Mrt \<Longrightarrow>
    shared_step E \<alpha> \<beta> st (st\<lparr>readers := (readers st)(i := RMin ho txn todo acc)\<rparr>)"
| r_min: "readers st i = RMin ho txn todo acc \<Longrightarrow>
    shared_step E \<alpha> \<beta> st (st\<lparr>readers := (readers st)(i :=
      RMax ho txn (min_possible_ts \<alpha> \<beta> ho (maps st) txn) todo acc)\<rparr>)"
| r_max: "readers st i = RMax ho txn r_min todo acc \<Longrightarrow> can_read st Tsps \<Longrightarrow>
    read_tx \<alpha> \<beta> ho (maps st) txn = Some rec \<Longrightarrow>
    shared_step E \<alpha> \<beta> st (st\<lparr>readers := (readers st)(i := RLoop ho todo (acc @ [rec\<lparr>rmin := r_min\<rparr>]))\<rparr>)"
| r_panic: "readers st i = RMax ho txn r_min todo acc \<Longrightarrow> can_read st Tsps \<Longrightarrow>
    read_tx \<alpha> \<beta> ho (maps st) txn = None \<Longrightarrow>
    shared_step E \<alpha> \<beta> st (st\<lparr>readers := (readers st)(i := RDone ho (Inl Panic))\<rparr>)"
| r_last: "readers st i = RLoop ho [] acc \<Longrightarrow> can_read st Mrt \<Longrightarrow>
    shared_step E \<alpha> \<beta> st (st\<lparr>readers := (readers st)(i := RPerf ho acc)\<rparr>)"
| r_perf: "readers st i = RPerf ho acc \<Longrightarrow>
    shared_step E \<alpha> \<beta> st (st\<lparr>readers := (readers st)(i :=
      RCpp ho acc (min_possible_ts_for_new_tx \<alpha> \<beta> ho (maps st)))\<rparr>)"
| r_mrt: "readers st i = RCpp ho acc p \<Longrightarrow> can_read st Mrt \<Longrightarrow>
    shared_step E \<alpha> \<beta> st (st\<lparr>readers := (readers st)(i := RMrt ho acc p)\<rparr>)"
| r_cpp: "readers st i = RMrt ho acc p \<Longrightarrow>
    shared_step E \<alpha> \<beta> st (st\<lparr>readers := (readers st)(i := RDone ho (Inr \<lparr>pd_t = acc, rperf = p,
      cpp = map (\<lambda>rid. vote_msg_or_default (maps st) (the (mrt (maps st) rid))) (mrt_keys ho)\<rparr>))\<rparr>)"

inductive shared_run ::
  "('sk, 'pk, 'sig) ed25519 \<Rightarrow> nat \<Rightarrow> nat \<Rightarrow> 'pk shared_state \<Rightarrow> 'pk shared_state \<Rightarrow> bool"
  for E \<alpha> \<beta> st where
  start: "shared_run E \<alpha> \<beta> st st"
| step: "shared_run E \<alpha> \<beta> st st1 \<Longrightarrow> shared_step E \<alpha> \<beta> st1 st2 \<Longrightarrow> shared_run E \<alpha> \<beta> st st2"

definition init_shared :: "'pk replica list \<Rightarrow> vote list \<Rightarrow> 'pk shared_state" where
  "init_shared rs vs = \<lparr>maps = init_client_state rs, inbox = vs, upd = UIdle, readers = (\<lambda>_. RIdle), queued = None\<rparr>"

section \<open>The steps add up to the handler\<close>

definition process_entry ::
  "u64 \<Rightarrow> transaction \<Rightarrow> u64 \<Rightarrow> 'pk client_state \<Rightarrow> 'pk client_state \<times> updater_error option" where
  "process_entry rid txn t s =
     (case mrt s rid of
        None \<Rightarrow> (s, Some NoMrt)
      | Some x \<Rightarrow>
          if t < x then (s, None)
          else
            let s2 = s\<lparr>mrt := (mrt s)(rid \<mapsto> t)\<rparr> in
            (if is_heartbeat txn then s2 else store_tsps rid txn t s2, None))"

lemma process_vote_split: "process_vote rid txn (timestamp v) v s = process_entry rid txn (timestamp v) (store_msg v s)"
  by (auto simp: process_vote_def process_entry_def store_msg_def store_tsps_def Let_def split: option.splits)

fun then_drain :: "u64 \<Rightarrow> 'pk client_state \<times> updater_error option \<Rightarrow> 'pk client_state \<times> updater_error option" where
  "then_drain rid (s, None) = drain_backlog rid s"
| "then_drain rid (s, Some e) = (s, Some e)"

text \<open>What the handler still does from a program point when nothing interferes.\<close>

fun finish :: "updater_pc \<Rightarrow> 'pk client_state \<Rightarrow> 'pk client_state \<times> updater_error option" where
  "finish UIdle s = (s, None)"
| "finish (UWantMrt rid txn v) s = then_drain rid (process_vote rid txn (timestamp v) v s)"
| "finish (UWantMsg rid txn v) s = then_drain rid (process_vote rid txn (timestamp v) v s)"
| "finish (UEntry rid txn v) s = then_drain rid (process_entry rid txn (timestamp v) s)"
| "finish (UWantTsps rid txn v) s = drain_backlog rid (store_tsps rid txn (timestamp v) s)"
| "finish (UDrain rid) s = drain_backlog rid s"
| "finish (UStopped e) s = (s, Some e)"

lemma drain_once:
  "drain_backlog rid s =
     (case drain_once rid s of
        Inl r \<Rightarrow> r
      | Inr (s', v) \<Rightarrow>
          (case transaction v of
             None \<Rightarrow> drain_backlog rid s'
           | Some txn \<Rightarrow> then_drain rid (process_vote rid txn (timestamp v) v s')))"
  by (subst drain_backlog.simps)
    (auto simp: drain_once_def Let_def split: option.splits prod.splits if_splits)

lemma handle_vote_takes:
  assumes "takes E s v txn n1"
  shows "handle_vote E s v = finish (UWantMrt (replica_id v) txn v) (s\<lparr>next_sn := (next_sn s)(replica_id v \<mapsto> n1)\<rparr>)"
  using assms
  by (auto simp: takes_def accepts_def handle_vote_def Let_def split: option.splits prod.splits)

lemma finish_stop_or_idle [simp]: "finish (stop_or_idle e) s = (s, e)"
  by (cases e) simp_all

lemma shared_step_finish:
  assumes "shared_step E \<alpha> \<beta> st st'"
  shows "(inbox st' = inbox st \<and> finish (upd st') (maps st') = finish (upd st) (maps st)) \<or>
    (\<exists>v. upd st = UIdle \<and> inbox st = v # inbox st' \<and> finish (upd st') (maps st') = handle_vote E (maps st) v)"
  using assms
proof cases
  case (u_take v vs txn n1)
  then show ?thesis using handle_vote_takes by fastforce
next
  case (u_drained rid s' e)
  then show ?thesis using drain_once [of rid "maps st"] by simp
next
  case (u_pop rid s' v)
  then show ?thesis using drain_once [of rid "maps st"] by (simp split: option.splits)
qed (simp_all add: process_vote_split process_entry_def Let_def)

lemma shared_run_finish:
  assumes "shared_run E \<alpha> \<beta> (init_shared rs vs) st"
  shows "\<exists>us. vs = us @ inbox st \<and> start_pod_data_updater E (init_client_state rs) us = finish (upd st) (maps st)"
  using assms
proof induction
  case start
  then show ?case by (simp add: init_shared_def init_start)
next
  case (step st1 st2)
  then obtain us where us: "vs = us @ inbox st1"
    "start_pod_data_updater E (init_client_state rs) us = finish (upd st1) (maps st1)" by blast
  from shared_step_finish [OF step.hyps(2)] show ?case
  proof (elim disjE exE conjE)
    fix v assume "upd st1 = UIdle" "inbox st1 = v # inbox st2"
      "finish (upd st2) (maps st2) = handle_vote E (maps st1) v"
    with us show ?case
      by (intro exI [of _ "us @ [v]"]) (simp add: init_start service_loop_append split: prod.splits option.splits)
  qed (use us in auto)
qed

section \<open>What a reader relies on\<close>

lemma untaken_vote_keeps_maps:
  assumes "handle_vote E s v = (s', e)" and "\<nexists>txn n1. takes E s v txn n1"
  shows "tsps s' = tsps s \<and> mrt s' = mrt s \<and> ts_vote_msg s' = ts_vote_msg s"
  using assms
  by (auto simp: takes_def accepts_def handle_vote_def Let_def split: option.splits if_splits prod.splits)

lemma drain_once_keeps_maps:
  "drain_once rid s = Inl (s', e) \<Longrightarrow> tsps s' = tsps s \<and> mrt s' = mrt s \<and> ts_vote_msg s' = ts_vote_msg s"
  "drain_once rid s = Inr (s', v) \<Longrightarrow> tsps s' = tsps s \<and> mrt s' = mrt s \<and> ts_vote_msg s' = ts_vote_msg s"
  by (auto simp: drain_once_def Let_def split: option.splits if_splits prod.splits)

lemma store_keeps:
  "mrt (store_msg v s) = mrt s" "tsps (store_msg v s) = tsps s"
  "mrt (store_tsps rid txn t s) = mrt s" "ts_vote_msg (store_tsps rid txn t s) = ts_vote_msg s"
  by (simp_all add: store_msg_def store_tsps_def Let_def)

lemma step_keeps_locked:
  assumes "shared_step E \<alpha> \<beta> st st'"
  shows "read_holds (readers st i) Tsps \<Longrightarrow> tsps (maps st') = tsps (maps st)"
    and "read_holds (readers st i) TsVoteMsg \<Longrightarrow> ts_vote_msg (maps st') = ts_vote_msg (maps st)"
    and "\<nexists>rid txn v. upd st = UEntry rid txn v \<Longrightarrow> mrt (maps st') = mrt (maps st)"
    and "read_holds (readers st i) TsVoteMsg \<Longrightarrow> upd st' = UEntry rid txn v \<Longrightarrow> upd st = UEntry rid txn v"
    and "read_holds (readers st i) Mrt \<Longrightarrow> \<not> write_holds (upd st) Mrt \<Longrightarrow> \<not> write_holds (upd st') Mrt"
proof -
  show "tsps (maps st') = tsps (maps st)" if "read_holds (readers st i) Tsps"
    using assms that
    by cases (auto simp: can_write_def store_keeps dest: untaken_vote_keeps_maps drain_once_keeps_maps)
  show "ts_vote_msg (maps st') = ts_vote_msg (maps st)" if "read_holds (readers st i) TsVoteMsg"
    using assms that
    by cases (auto simp: can_write_def store_keeps dest: untaken_vote_keeps_maps drain_once_keeps_maps)
  show "mrt (maps st') = mrt (maps st)" if "\<nexists>rid txn v. upd st = UEntry rid txn v"
    using assms that
    by cases (auto simp: store_keeps dest: untaken_vote_keeps_maps drain_once_keeps_maps)
  have ne: "stop_or_idle e \<noteq> UEntry rid txn v" for e rid txn v by (cases e) simp_all
  show "upd st = UEntry rid txn v" if "read_holds (readers st i) TsVoteMsg" "upd st' = UEntry rid txn v"
    using assms that ne by cases (auto simp: can_write_def split: if_splits option.splits)
  have free: "\<not> write_holds (stop_or_idle e) Mrt" for e by (cases e) simp_all
  show "\<not> write_holds (upd st') Mrt" if "read_holds (readers st i) Mrt" "\<not> write_holds (upd st) Mrt"
    using assms that free by cases (auto simp: can_write_def split: option.splits)
qed

definition reader_ok :: "nat \<Rightarrow> nat \<Rightarrow> 'pk shared_state \<Rightarrow> reader_pc \<Rightarrow> bool" where
  "reader_ok \<alpha> \<beta> st r \<longleftrightarrow>
     (case r of
        RIdle \<Rightarrow> True
      | RTsps ho \<Rightarrow> set (tsps_keys ho) \<subseteq> dom (tsps (maps st))
      | RLoop ho todo acc \<Rightarrow> set (tsps_keys ho) \<subseteq> dom (tsps (maps st)) \<and>
          (\<exists>seen. tsps_keys ho = seen @ todo \<and> map (read_tx \<alpha> \<beta> ho (maps st)) seen = map Some acc)
      | RMin ho txn todo acc \<Rightarrow> set (tsps_keys ho) \<subseteq> dom (tsps (maps st)) \<and>
          (\<exists>seen. tsps_keys ho = seen @ txn # todo \<and> map (read_tx \<alpha> \<beta> ho (maps st)) seen = map Some acc) \<and>
          \<not> write_holds (upd st) Mrt
      | RMax ho txn r_min todo acc \<Rightarrow> set (tsps_keys ho) \<subseteq> dom (tsps (maps st)) \<and>
          (\<exists>seen. tsps_keys ho = seen @ txn # todo \<and> map (read_tx \<alpha> \<beta> ho (maps st)) seen = map Some acc) \<and>
          r_min = min_possible_ts \<alpha> \<beta> ho (maps st) txn
      | RPerf ho acc \<Rightarrow> set (tsps_keys ho) \<subseteq> dom (tsps (maps st)) \<and>
          map (read_tx \<alpha> \<beta> ho (maps st)) (tsps_keys ho) = map Some acc \<and> \<not> write_holds (upd st) Mrt
      | RCpp ho acc p \<Rightarrow> set (tsps_keys ho) \<subseteq> dom (tsps (maps st)) \<and>
          map (read_tx \<alpha> \<beta> ho (maps st)) (tsps_keys ho) = map Some acc \<and>
          p = min_possible_ts_for_new_tx \<alpha> \<beta> ho (maps st) \<and> (\<nexists>rid txn v. upd st = UEntry rid txn v)
      | RMrt ho acc p \<Rightarrow> set (tsps_keys ho) \<subseteq> dom (tsps (maps st)) \<and>
          map (read_tx \<alpha> \<beta> ho (maps st)) (tsps_keys ho) = map Some acc \<and>
          p = min_possible_ts_for_new_tx \<alpha> \<beta> ho (maps st) \<and> \<not> write_holds (upd st) Mrt
      | RDone ho res \<Rightarrow> True)"

lemma min_possible_ts_cong:
  "txn \<in> dom (tsps s) \<Longrightarrow> tsps s' = tsps s \<Longrightarrow> min_possible_ts \<alpha> \<beta> ho s' txn = min_possible_ts \<alpha> \<beta> ho s txn"
  by (auto simp: min_possible_ts_def)

lemma read_tx_cong:
  "txn \<in> dom (tsps s) \<Longrightarrow> tsps s' = tsps s \<Longrightarrow> ts_vote_msg s' = ts_vote_msg s \<Longrightarrow>
     read_tx \<alpha> \<beta> ho s' txn = read_tx \<alpha> \<beta> ho s txn"
  using min_possible_ts_cong [of txn s s' \<alpha> \<beta> ho]
  by (auto simp: read_tx_def max_possible_ts_def vote_msg_or_default_def [abs_def] cong: option.case_cong)

lemma read_tx_rmin: "read_tx \<alpha> \<beta> ho s txn = Some rec \<Longrightarrow> rec\<lparr>rmin := min_possible_ts \<alpha> \<beta> ho s txn\<rparr> = rec"
  by (auto simp: read_tx_def Let_def split: option.splits)

text \<open>Whatever another task does, what a reader has seen stays so while it holds its locks.\<close>

lemma reader_ok_step:
  assumes "shared_step E \<alpha> \<beta> st st'" and "reader_ok \<alpha> \<beta> st (readers st i)"
  shows "reader_ok \<alpha> \<beta> st' (readers st i)"
proof -
  note keep = step_keeps_locked(1) [OF assms(1), of i] step_keeps_locked(2) [OF assms(1), of i]
    step_keeps_locked(3) [OF assms(1)] step_keeps_locked(4) [OF assms(1), of i]
    step_keeps_locked(5) [OF assms(1), of i]
  have maps: "map (read_tx \<alpha> \<beta> ho (maps st')) ks = map (read_tx \<alpha> \<beta> ho (maps st)) ks"
    if "set ks \<subseteq> dom (tsps (maps st))" "read_holds (readers st i) Tsps" "read_holds (readers st i) TsVoteMsg" for ho ks
    using that keep(1,2) by (auto intro!: read_tx_cong)
  have new_tx: "min_possible_ts_for_new_tx \<alpha> \<beta> ho (maps st') = min_possible_ts_for_new_tx \<alpha> \<beta> ho (maps st)"
    if "\<nexists>rid txn v. upd st = UEntry rid txn v" for ho
    using keep(3) [OF that] by (simp add: min_possible_ts_for_new_tx_def)
  show ?thesis
  proof (cases "readers st i")
    case (RTsps ho)
    then show ?thesis using assms(2) keep(1) by (simp add: reader_ok_def)
  next
    case (RLoop ho todo acc)
    then obtain seen where seen: "tsps_keys ho = seen @ todo" "map (read_tx \<alpha> \<beta> ho (maps st)) seen = map Some acc"
      "set (tsps_keys ho) \<subseteq> dom (tsps (maps st))" using assms(2) by (auto simp: reader_ok_def)
    with RLoop maps [of seen ho] have "map (read_tx \<alpha> \<beta> ho (maps st')) seen = map Some acc" by simp
    with RLoop seen keep(1) show ?thesis by (auto simp: reader_ok_def)
  next
    case (RMin ho txn todo acc)
    then obtain seen where seen: "tsps_keys ho = seen @ txn # todo"
      "map (read_tx \<alpha> \<beta> ho (maps st)) seen = map Some acc" "set (tsps_keys ho) \<subseteq> dom (tsps (maps st))"
      "\<not> write_holds (upd st) Mrt" using assms(2) by (auto simp: reader_ok_def)
    with RMin maps [of seen ho] have "map (read_tx \<alpha> \<beta> ho (maps st')) seen = map Some acc" by simp
    with RMin seen keep(1,5) show ?thesis by (auto simp: reader_ok_def)
  next
    case (RMax ho txn r_min todo acc)
    then obtain seen where seen: "tsps_keys ho = seen @ txn # todo"
      "map (read_tx \<alpha> \<beta> ho (maps st)) seen = map Some acc" "set (tsps_keys ho) \<subseteq> dom (tsps (maps st))"
      "r_min = min_possible_ts \<alpha> \<beta> ho (maps st) txn" using assms(2) by (auto simp: reader_ok_def)
    with RMax maps [of seen ho] have "map (read_tx \<alpha> \<beta> ho (maps st')) seen = map Some acc" by simp
    moreover have "r_min = min_possible_ts \<alpha> \<beta> ho (maps st') txn"
      using RMax seen keep(1) min_possible_ts_cong [of txn "maps st" "maps st'" \<alpha> \<beta> ho] by simp
    ultimately show ?thesis using RMax seen keep(1) by (auto simp: reader_ok_def)
  next
    case (RCpp ho acc p)
    have "map (read_tx \<alpha> \<beta> ho (maps st')) (tsps_keys ho) = map Some acc"
      using RCpp assms(2) by (intro trans [OF maps]) (simp_all add: reader_ok_def)
    then show ?thesis using RCpp assms(2) keep(1,4) new_tx by (auto simp: reader_ok_def)
  next
    case (RPerf ho acc)
    have "map (read_tx \<alpha> \<beta> ho (maps st')) (tsps_keys ho) = map Some acc"
      using RPerf assms(2) by (intro trans [OF maps]) (simp_all add: reader_ok_def)
    then show ?thesis using RPerf assms(2) keep(1,5) by (auto simp: reader_ok_def)
  next
    case (RMrt ho acc p)
    then have "\<nexists>rid txn v. upd st = UEntry rid txn v" using assms(2) by (auto simp: reader_ok_def)
    moreover have "map (read_tx \<alpha> \<beta> ho (maps st')) (tsps_keys ho) = map Some acc"
      using RMrt assms(2) by (intro trans [OF maps]) (simp_all add: reader_ok_def)
    ultimately show ?thesis using RMrt assms(2) keep(1,5) new_tx by (auto simp: reader_ok_def)
  qed (simp_all add: reader_ok_def)
qed

lemma shared_step_readers:
  assumes "shared_step E \<alpha> \<beta> st st'" and "readers st' i \<noteq> readers st i" and "reader_ok \<alpha> \<beta> st (readers st i)"
  shows "maps st' = maps st \<and> upd st' = upd st \<and> reader_ok \<alpha> \<beta> st' (readers st' i) \<and>
    (\<forall>ho res. readers st' i = RDone ho res \<longrightarrow> read \<alpha> \<beta> ho (maps st') = res)"
  using assms(1)
proof cases
  case (r_tsps j ho)
  with assms(2) show ?thesis by (auto simp: reader_ok_def hash_order_ok_def lists_keys_def split: if_splits)
next
  case (r_msg j ho)
  with assms(2,3) show ?thesis by (auto simp: reader_ok_def split: if_splits)
next
  case (r_lock j ho txn todo acc)
  with assms(2,3) show ?thesis by (auto simp: reader_ok_def can_read_def split: if_splits)
next
  case (r_min j ho txn todo acc)
  with assms(2,3) show ?thesis by (auto simp: reader_ok_def split: if_splits)
next
  case (r_max j ho txn r_min todo acc rec)
  with assms(2) have "j = i" by (auto split: if_splits)
  with r_max assms(3) obtain seen where "tsps_keys ho = seen @ txn # todo"
    "map (read_tx \<alpha> \<beta> ho (maps st)) seen = map Some acc" "r_min = min_possible_ts \<alpha> \<beta> ho (maps st) txn"
    by (auto simp: reader_ok_def)
  with r_max \<open>j = i\<close> assms(3) read_tx_rmin [of \<alpha> \<beta> ho "maps st" txn rec] show ?thesis
    by (auto simp: reader_ok_def intro!: exI [of _ "seen @ [txn]"])
next
  case (r_panic j ho txn r_min todo acc)
  with assms(2) have "j = i" by (auto split: if_splits)
  with r_panic assms(3) have "None \<in> set (map (read_tx \<alpha> \<beta> ho (maps st)) (tsps_keys ho))"
    by (auto simp: reader_ok_def image_iff)
  then have "read \<alpha> \<beta> ho (maps st) = Inl Panic" unfolding read_def by (simp add: those_eq_None [THEN iffD2])
  with r_panic \<open>j = i\<close> show ?thesis by (simp add: reader_ok_def)
next
  case (r_last j ho acc)
  with assms(2,3) show ?thesis by (auto simp: reader_ok_def can_read_def split: if_splits)
next
  case (r_perf j ho acc)
  with assms(2,3) show ?thesis by (auto simp: reader_ok_def split: if_splits)
next
  case (r_mrt j ho acc p)
  with assms(2,3) show ?thesis by (auto simp: reader_ok_def can_read_def split: if_splits)
next
  case (r_cpp j ho acc p)
  with assms(2) have "j = i" by (auto split: if_splits)
  with r_cpp assms(3) have "those (map (read_tx \<alpha> \<beta> ho (maps st)) (tsps_keys ho)) = Some acc"
    "p = min_possible_ts_for_new_tx \<alpha> \<beta> ho (maps st)"
    by (simp_all add: reader_ok_def those_eq_Some)
  with r_cpp \<open>j = i\<close> show ?thesis by (simp add: reader_ok_def read_def)
qed (use assms(2) in simp_all)

lemma readers_ok:
  assumes "shared_run E \<alpha> \<beta> (init_shared rs vs) st"
  shows "reader_ok \<alpha> \<beta> st (readers st i)"
  using assms
proof induction
  case start
  then show ?case by (simp add: init_shared_def reader_ok_def)
next
  case (step st1 st2)
  then show ?case
    using shared_step_readers [OF step.hyps(2) _ step.IH] reader_ok_step [OF step.hyps(2) step.IH] by metis
qed

text \<open>A single request and a single vote.\<close>

definition no_order :: hash_order where
  "no_order = \<lparr>replicas_keys = [1, 2, 3], tsps_keys = [], tspstx_keys = (\<lambda>_. []), mrt_keys = [1, 2, 3]\<rparr>"

definition waiting_state :: "u8 shared_state" where
  "waiting_state =
     \<lparr>maps = (init_client_state three_replicas)\<lparr>next_sn := (next_sn (init_client_state three_replicas))(1 \<mapsto> 1)\<rparr>,
      inbox = [], upd = UWantMsg 1 \<lparr>data = [7]\<rparr> (first_vote 1 1 7 10),
      readers = (\<lambda>_. RIdle)(0 := RLoop no_order [] []), queued = None\<rparr>"

lemma no_order_ok: "hash_order_ok no_order (init_client_state three_replicas)"
  by (auto simp: hash_order_ok_def lists_keys_def no_order_def three_init)

lemma takes_first_vote: "takes demo_ed25519 (init_client_state three_replicas) (first_vote 1 1 7 10) \<lparr>data = [7]\<rparr> 1"
  using first_vote_verify [of 1 7 10 1] by (simp add: takes_def accepts_def three_init checked_add_def)

section \<open>Properties\<close>

lemma waiting_reached: "shared_run demo_ed25519 1 0 (init_shared three_replicas a_votes) waiting_state"
proof -
  let ?i = "init_shared three_replicas a_votes"
  let ?s1 = "?i\<lparr>readers := (readers ?i)(0 := RTsps no_order)\<rparr>"
  let ?s2 = "?s1\<lparr>readers := (readers ?s1)(0 := RLoop no_order (tsps_keys no_order) [])\<rparr>"
  let ?s3 = "?s2\<lparr>maps := (maps ?s2)\<lparr>next_sn := (next_sn (maps ?s2))(replica_id (first_vote 1 1 7 10) \<mapsto> 1)\<rparr>,
    inbox := [], upd := UWantMrt (replica_id (first_vote 1 1 7 10)) \<lparr>data = [7]\<rparr> (first_vote 1 1 7 10)\<rparr>"
  let ?s4 = "?s3\<lparr>upd := UWantMsg 1 \<lparr>data = [7]\<rparr> (first_vote 1 1 7 10), queued := None\<rparr>"
  have "shared_run demo_ed25519 1 0 ?i ?s1"
    by (rule shared_run.step [OF start r_tsps]) (simp_all add: init_shared_def can_read_def no_order_ok)
  then have "shared_run demo_ed25519 1 0 ?i ?s2"
    by (rule shared_run.step [OF _ r_msg]) (simp_all add: init_shared_def can_read_def)
  then have "shared_run demo_ed25519 1 0 ?i ?s3"
    by (rule shared_run.step [OF _ u_take]) (simp_all add: init_shared_def a_votes_def takes_first_vote)
  then have "shared_run demo_ed25519 1 0 ?i ?s4"
    by (rule shared_run.step [OF _ u_mrt]) (simp_all add: init_shared_def can_write_def)
  moreover have "?s4 = waiting_state" by (simp add: init_shared_def waiting_state_def no_order_def)
  ultimately show ?thesis by simp
qed

lemma deadlock_step:
  assumes "shared_step E \<alpha> \<beta> st st'" and "upd st = UWantMsg rid txn v" and "readers st i = RLoop ho todo acc"
  shows "upd st' = upd st \<and> readers st' i = readers st i"
  using assms(1)
proof cases
  case u_msg
  then have False using assms(2,3) unfolding can_write_def by (metis read_holds.simps(2))
  then show ?thesis ..
qed (use assms(2,3) in \<open>auto simp: can_read_def\<close>)

lemma deadlock_run:
  assumes "shared_run E \<alpha> \<beta> st st'" and "upd st = UWantMsg rid txn v" and "readers st i = RLoop ho todo acc"
  shows "upd st' = upd st \<and> readers st' i = readers st i"
  using assms
proof induction
  case (step st1 st2)
  then show ?case using deadlock_step [OF step.hyps(2)] by metis
qed simp

text \<open>
  C38. A read and the handler can block each other for good. The handler takes the lock on
  \<open>mrt\<close> and then wants the one on \<open>ts_vote_msg\<close>; a read holds \<open>ts_vote_msg\<close> and then wants
  \<open>mrt\<close>. From the initial state, one request and one vote reach a state after which, whatever
  happens, neither moves again.
\<close>

theorem read_and_handler_may_deadlock:
  "\<exists>st txn v ho. shared_run demo_ed25519 1 0 (init_shared three_replicas a_votes) st \<and>
     upd st = UWantMsg 1 txn v \<and> readers st 0 = RLoop ho [] [] \<and>
     \<not> (\<exists>st'. shared_run demo_ed25519 1 0 st st' \<and> (upd st', readers st' 0) \<noteq> (upd st, readers st 0))"
proof -
  have w: "upd waiting_state = UWantMsg 1 \<lparr>data = [7]\<rparr> (first_vote 1 1 7 10)"
    "readers waiting_state 0 = RLoop no_order [] []" by (simp_all add: waiting_state_def)
  then show ?thesis using waiting_reached deadlock_run [OF _ w] by blast
qed

end
