(* ===== verification/ReadAtomic.thy ===== *)
theory ReadAtomic
  imports SharedMaps
begin

text \<open>
  What a read sees of a handler at work. The maps a completed read was computed on are maps the
  sequential handler reaches on whole votes: at every program point at which the handler does not
  hold \<open>mrt\<close> the maps are those of the votes it has finished, whatever part of the vote at hand
  is already in the maps at the other points. Votes of the backlog count one by one.
\<close>

section \<open>The votes finished so far\<close>

text \<open>\<open>s\<close> is reached by the sequential handler on some of the votes \<open>us\<close>, none left waiting.\<close>

definition reached ::
  "('sk, 'pk, 'sig) ed25519 \<Rightarrow> 'pk replica list \<Rightarrow> vote list \<Rightarrow> 'pk client_state \<Rightarrow> bool" where
  "reached E rs us s \<longleftrightarrow> backlog s = Map.empty \<and>
     (\<exists>ws. set ws \<subseteq> set us \<and> start_pod_data_updater E (init_client_state rs) ws = (s, None))"

definition advanced :: "u64 \<Rightarrow> u64 \<Rightarrow> 'pk client_state \<Rightarrow> 'pk client_state" where
  "advanced rid n s = s\<lparr>next_sn := (next_sn s)(rid \<mapsto> n)\<rparr>"

lemma advanced_fields [simp]:
  "replicas (advanced r n s) = replicas s" "tsps (advanced r n s) = tsps s" "mrt (advanced r n s) = mrt s"
  "ts_vote_msg (advanced r n s) = ts_vote_msg s" "backlog (advanced r n s) = backlog s"
  "next_sn (advanced r n s) = (next_sn s)(r \<mapsto> n)"
  by (simp_all add: advanced_def)

lemma store_msg_fields [simp]:
  "replicas (store_msg v s) = replicas s" "mrt (store_msg v s) = mrt s" "tsps (store_msg v s) = tsps s"
  "next_sn (store_msg v s) = next_sn s" "backlog (store_msg v s) = backlog s"
  by (simp_all add: store_msg_def)

lemma reached_extend: "reached E rs us s \<Longrightarrow> reached E rs (us @ ws) s"
  by (auto simp: reached_def)

lemma reached_inv': "reached E rs us s \<Longrightarrow> dom (mrt s) = dom (replicas s)"
  using reached_inv by (fastforce simp: reached_def client_inv_at_def)

text \<open>Finishing one more vote.\<close>

lemma reached_process:
  assumes "reached E rs us s" and "takes E s v txn n1" and "v \<in> set us"
    and "process_entry (replica_id v) txn (timestamp v) (store_msg v (advanced (replica_id v) n1 s)) = (s', None)"
  shows "reached E rs us s'"
proof -
  let ?s1 = "advanced (replica_id v) n1 s"
  have pv: "process_vote (replica_id v) txn (timestamp v) v ?s1 = (s', None)"
    using assms(4) by (simp add: process_vote_split)
  then have empty: "backlog s' = Map.empty"
    using process_vote_frame [OF pv] assms(1) by (simp add: reached_def)
  then have "drain_backlog (replica_id v) s' = (s', None)" by (simp add: drain_backlog.simps)
  then have "handle_vote E s v = (s', None)"
    using handle_vote_takes [OF assms(2)] pv by (simp add: advanced_def)
  moreover obtain ws where "set ws \<subseteq> set us" "start_pod_data_updater E (init_client_state rs) ws = (s, None)"
    using assms(1) by (auto simp: reached_def)
  ultimately have "set (ws @ [v]) \<subseteq> set us" "start_pod_data_updater E (init_client_state rs) (ws @ [v]) = (s', None)"
    using assms(3) by (simp_all add: init_start service_loop_append)
  with empty show ?thesis unfolding reached_def by blast
qed

section \<open>The vote at hand\<close>

text \<open>
  How the maps \<open>m\<close>, less the backlog, differ from those of the finished votes at each program point.
\<close>

fun at_hand ::
  "('sk, 'pk, 'sig) ed25519 \<Rightarrow> vote list \<Rightarrow> updater_pc \<Rightarrow> 'pk client_state \<Rightarrow> 'pk client_state \<Rightarrow> bool" where
  "at_hand E us (UWantMrt rid txn v) s m \<longleftrightarrow> v \<in> set us \<and> rid = replica_id v \<and>
     (\<exists>n1. takes E s v txn n1 \<and> m = advanced rid n1 s)"
| "at_hand E us (UWantMsg rid txn v) s m \<longleftrightarrow> v \<in> set us \<and> rid = replica_id v \<and>
     (\<exists>n1. takes E s v txn n1 \<and> m = advanced rid n1 s)"
| "at_hand E us (UEntry rid txn v) s m \<longleftrightarrow> v \<in> set us \<and> rid = replica_id v \<and>
     (\<exists>n1. takes E s v txn n1 \<and> m = store_msg v (advanced rid n1 s))"
| "at_hand E us (UWantTsps rid txn v) s m \<longleftrightarrow> v \<in> set us \<and> rid = replica_id v \<and> \<not> is_heartbeat txn \<and>
     (\<exists>n1 x. takes E s v txn n1 \<and> mrt s rid = Some x \<and> \<not> timestamp v < x \<and>
        m = (store_msg v (advanced rid n1 s))\<lparr>mrt := (mrt s)(rid \<mapsto> timestamp v)\<rparr>)"
| "at_hand E us _ s m \<longleftrightarrow> m = s"

lemma at_hand_stop_or_idle [simp]: "at_hand E us (stop_or_idle e) s m \<longleftrightarrow> m = s"
  by (cases e) simp_all

lemma at_hand_extend: "at_hand E us u s m \<Longrightarrow> at_hand E (us @ ws) u s m"
  by (cases u) auto

lemma at_hand_tsps: "at_hand E us u s m \<Longrightarrow> tsps m = tsps s"
  by (cases u) auto

lemma at_hand_unlocked:
  "at_hand E us u s m \<Longrightarrow> \<not> write_holds u Mrt \<Longrightarrow> mrt m = mrt s \<and> ts_vote_msg m = ts_vote_msg s"
  by (cases u) auto

section \<open>The invariant\<close>

definition waiting_votes :: "('sk, 'pk, 'sig) ed25519 \<Rightarrow> vote list \<Rightarrow> 'pk client_state \<Rightarrow> bool" where
  "waiting_votes E us s \<longleftrightarrow> (\<forall>rid b k v. backlog s rid = Some b \<longrightarrow> (k, v) \<in> set b \<longrightarrow>
     v \<in> set us \<and> replica_id v = rid \<and> sequence_number v = k \<and> accepts E (replicas s) v)"

definition no_backlog :: "'pk client_state \<Rightarrow> 'pk client_state" where
  "no_backlog s = s\<lparr>backlog := Map.empty\<rparr>"

lemma no_backlog_fields [simp]:
  "replicas (no_backlog s) = replicas s" "tsps (no_backlog s) = tsps s" "mrt (no_backlog s) = mrt s"
  "ts_vote_msg (no_backlog s) = ts_vote_msg s" "next_sn (no_backlog s) = next_sn s" "backlog (no_backlog s) = Map.empty"
  "no_backlog (s\<lparr>backlog := b\<rparr>) = no_backlog s"
  "no_backlog (store_msg v s) = store_msg v (no_backlog s)"
  "no_backlog (s\<lparr>mrt := m\<rparr>) = (no_backlog s)\<lparr>mrt := m\<rparr>"
  "no_backlog (store_tsps rid txn t s) = store_tsps rid txn t (no_backlog s)"
  "no_backlog (s\<lparr>next_sn := (next_sn s)(rid \<mapsto> n)\<rparr>) = advanced rid n (no_backlog s)"
  by (auto simp: no_backlog_def store_msg_def store_tsps_def advanced_def Let_def)

definition shared_inv ::
  "('sk, 'pk, 'sig) ed25519 \<Rightarrow> 'pk replica list \<Rightarrow> vote list \<Rightarrow> updater_pc \<Rightarrow> 'pk client_state \<Rightarrow> bool" where
  "shared_inv E rs us u m \<longleftrightarrow> waiting_votes E us m \<and> (\<exists>s. reached E rs us s \<and> at_hand E us u s (no_backlog m))"

lemma takes_no_backlog [simp]: "takes E (no_backlog s) v txn n1 = takes E s v txn n1"
  by (simp add: takes_def)

lemma waiting_votes_cong:
  "waiting_votes E us m \<Longrightarrow> backlog m' = backlog m \<Longrightarrow> replicas m' = replicas m \<Longrightarrow> waiting_votes E us m'"
  by (simp add: waiting_votes_def)

lemma bt_insert_set: "set (bt_insert k v b) \<subseteq> insert (k, v) (set b)"
  by (induction k v b rule: bt_insert.induct) auto

lemma untaken_vote_inv:
  assumes "handle_vote E m v = (m', e)" and "\<nexists>txn n1. takes E m v txn n1" and "waiting_votes E us m" and "v \<in> set us"
  shows "waiting_votes E us m' \<and> no_backlog m' = no_backlog m"
proof -
  define b where "b = (case backlog m (replica_id v) of None \<Rightarrow> [] | Some b \<Rightarrow> b)"
  consider "m' = m" | "m' = m\<lparr>backlog := (backlog m)(replica_id v \<mapsto> bt_insert (sequence_number v) v b)\<rparr>"
      "accepts E (replicas m) v"
    using assms(1,2) unfolding b_def
    by (auto simp: takes_def accepts_def handle_vote_def Let_def split: option.splits if_splits prod.splits)
  then show ?thesis
  proof cases
    case 2
    have "set b \<subseteq> {(k, w). w \<in> set us \<and> replica_id w = replica_id v \<and> sequence_number w = k \<and> accepts E (replicas m) w}"
      using assms(3) by (cases "backlog m (replica_id v)") (auto simp: b_def waiting_votes_def)
    with 2 assms(3,4) show ?thesis using bt_insert_set [of "sequence_number v" v b]
      by (auto simp: waiting_votes_def split: if_splits)
  qed (use assms(3) in simp)
qed

lemma drain_once_inv:
  assumes "waiting_votes E us m"
  shows "drain_once rid m = Inl (m', e) \<Longrightarrow> waiting_votes E us m' \<and> no_backlog m' = no_backlog m"
    and "drain_once rid m = Inr (m', v) \<Longrightarrow>
      waiting_votes E us m' \<and> v \<in> set us \<and> replica_id v = rid \<and>
      (\<exists>txn n1. transaction v = Some txn \<and> takes E m v txn n1 \<and> no_backlog m' = advanced rid n1 (no_backlog m))"
proof -
  have removed: "waiting_votes E us (m\<lparr>backlog := (backlog m)(rid \<mapsto> bt_remove k b)\<rparr>)" if "backlog m rid = Some b" for k b
    using assms that set_bt_remove [of k b] by (auto simp: waiting_votes_def split: if_splits)
  show "waiting_votes E us m' \<and> no_backlog m' = no_backlog m" if "drain_once rid m = Inl (m', e)"
    using that removed assms by (auto simp: drain_once_def Let_def split: option.splits if_splits)
  show "waiting_votes E us m' \<and> v \<in> set us \<and> replica_id v = rid \<and>
      (\<exists>txn n1. transaction v = Some txn \<and> takes E m v txn n1 \<and> no_backlog m' = advanced rid n1 (no_backlog m))"
    if pop: "drain_once rid m = Inr (m', v)"
  proof -
    from pop obtain b n n1 where b: "backlog m rid = Some b" "bt_first b = Some (n, v)" "next_sn m rid = Some n"
      "checked_add n 1 = Some n1"
      "m' = m\<lparr>backlog := (backlog m)(rid \<mapsto> bt_remove n b), next_sn := (next_sn m)(rid \<mapsto> n1)\<rparr>"
      by (auto simp: drain_once_def Let_def split: option.splits if_splits)
    then have "(n, v) \<in> set b" by (auto elim: bt_first_cases)
    then have v: "v \<in> set us" "replica_id v = rid" "sequence_number v = n" "accepts E (replicas m) v"
      using assms b(1) unfolding waiting_votes_def by blast+
    then obtain txn where "transaction v = Some txn" by (auto simp: accepts_def split: option.splits)
    moreover have "waiting_votes E us m'"
      using removed [OF b(1), of n] by (rule waiting_votes_cong) (simp_all add: b(5))
    ultimately show ?thesis using v b by (auto simp: takes_def no_backlog_def advanced_def)
  qed
qed

lemma shared_inv_finish:
  assumes "reached E rs us s" and "takes E s v txn n1" and "v \<in> set us" and "waiting_votes E us m"
    and "process_entry (replica_id v) txn (timestamp v) (store_msg v (advanced (replica_id v) n1 s)) = (no_backlog m, None)"
  shows "shared_inv E rs us (UDrain (replica_id v)) m"
  using reached_process [OF assms(1-3,5)] assms(4) by (auto simp: shared_inv_def)

lemma shared_step_inv:
  assumes "shared_step E \<alpha> \<beta> st st'" and "shared_inv E rs us (upd st) (maps st)"
  shows "\<exists>us'. us @ inbox st = us' @ inbox st' \<and> shared_inv E rs us' (upd st') (maps st')"
proof -
  from assms(2) obtain s where wait: "waiting_votes E us (maps st)" and s: "reached E rs us s"
    and hand: "at_hand E us (upd st) s (no_backlog (maps st))" by (auto simp: shared_inv_def)
  have more: "waiting_votes E (us @ [v]) (maps st)" for v using wait by (auto simp: waiting_votes_def)
  from assms(1) show ?thesis
  proof cases
    case (u_other v vs m' e)
    with untaken_vote_inv [OF u_other(5,4) more [of v]] reached_extend [OF s, of "[v]"] hand show ?thesis
      by (intro exI [of _ "us @ [v]"]) (auto simp: shared_inv_def)
  next
    case (u_take v vs txn n1)
    then have "takes E s v txn n1" using hand by (metis at_hand.simps(5) takes_no_backlog)
    with u_take more [of v] reached_extend [OF s] hand show ?thesis
      by (intro exI [of _ "us @ [v]"]) (auto simp: shared_inv_def intro: waiting_votes_cong)
  next
    case (u_msg rid txn v)
    moreover have "waiting_votes E us (store_msg v (maps st))" using wait by (rule waiting_votes_cong) simp_all
    ultimately show ?thesis using hand s
      by (intro exI [of _ us]) (auto simp: shared_inv_def intro!: exI [of _ s])
  next
    case (u_no_mrt rid txn v)
    then have "mrt s rid = None" "rid = replica_id v" "accepts E (replicas s) v"
      using hand by (auto simp: takes_def dest: arg_cong [where f = mrt])
    then have False using domIff [of rid "mrt s"] reached_inv' [OF s] by (auto simp: accepts_def split: option.splits)
    then show ?thesis ..
  next
    case (u_old rid txn v x)
    then obtain n1 where n1: "takes E s v txn n1" "v \<in> set us" "rid = replica_id v"
      "no_backlog (maps st) = store_msg v (advanced rid n1 s)" using hand by auto
    then have "mrt s rid = Some x" using u_old(3) by (auto dest: arg_cong [where f = mrt])
    with u_old n1 shared_inv_finish [OF s n1(1,2) wait] show ?thesis
      by (intro exI [of _ us]) (simp add: process_entry_def)
  next
    case (u_entry rid txn v x)
    then obtain n1 where n1: "takes E s v txn n1" "v \<in> set us" "rid = replica_id v"
      "no_backlog (maps st) = store_msg v (advanced rid n1 s)" using hand by auto
    then have mrt: "mrt (maps st) = mrt s" by (auto dest: arg_cong [where f = mrt])
    let ?m = "(maps st)\<lparr>mrt := (mrt (maps st))(rid \<mapsto> timestamp v)\<rparr>"
    have wait': "waiting_votes E us ?m" using wait by (rule waiting_votes_cong) simp_all
    show ?thesis
    proof (cases "is_heartbeat txn")
      case True
      with u_entry n1 mrt shared_inv_finish [OF s n1(1,2) wait'] show ?thesis
        by (intro exI [of _ us]) (simp add: process_entry_def)
    next
      case False
      with u_entry n1 mrt s wait' show ?thesis
        by (intro exI [of _ us]) (auto simp: shared_inv_def)
    qed
  next
    case (u_tsps rid txn v)
    then obtain n1 x where n1: "takes E s v txn n1" "v \<in> set us" "rid = replica_id v" "\<not> is_heartbeat txn"
      "mrt s rid = Some x" "\<not> timestamp v < x"
      "no_backlog (maps st) = (store_msg v (advanced rid n1 s))\<lparr>mrt := (mrt s)(rid \<mapsto> timestamp v)\<rparr>" using hand by auto
    let ?m = "store_tsps rid txn (timestamp v) (maps st)"
    have "waiting_votes E us ?m" using wait by (rule waiting_votes_cong) (simp_all add: store_tsps_def Let_def)
    with u_tsps n1 shared_inv_finish [OF s n1(1,2), of ?m] show ?thesis
      by (intro exI [of _ us]) (simp add: process_entry_def)
  next
    case (u_drained rid m' e)
    with drain_once_inv(1) [OF wait u_drained(3)] s hand show ?thesis
      by (intro exI [of _ us]) (auto simp: shared_inv_def)
  next
    case (u_pop rid m' v)
    from drain_once_inv(2) [OF wait u_pop(3)] obtain txn n1 where
      "waiting_votes E us m'" "v \<in> set us" "replica_id v = rid" "transaction v = Some txn" "takes E (maps st) v txn n1"
      "no_backlog m' = advanced rid n1 (no_backlog (maps st))" by blast
    moreover from this have "takes E s v txn n1" using hand u_pop(2) by (metis at_hand.simps(6) takes_no_backlog)
    ultimately show ?thesis using u_pop hand s by (intro exI [of _ us]) (auto simp: shared_inv_def)
  qed (use assms(2) in \<open>auto simp: shared_inv_def intro!: exI [of _ us]\<close>)
qed

lemma shared_run_inv:
  assumes "shared_run E \<alpha> \<beta> (init_shared rs vs) st"
  shows "\<exists>us. vs = us @ inbox st \<and> shared_inv E rs us (upd st) (maps st)"
  using assms
proof induction
  case start
  have "reached E rs [] (init_client_state rs)" by (simp add: reached_def init_start) (simp add: init_client_state_def)
  moreover have "no_backlog (init_client_state rs) = init_client_state rs"
    by (simp add: no_backlog_def init_client_state_def)
  moreover have "waiting_votes E [] (init_client_state rs)" by (simp add: waiting_votes_def init_client_state_def)
  ultimately have "shared_inv E rs [] UIdle (init_client_state rs)" by (simp add: shared_inv_def)
  then show ?case by (simp add: init_shared_def)
next
  case (step st1 st2)
  then show ?case using shared_step_inv [OF step.hyps(2)] by metis
qed

section \<open>What a read depends on\<close>

lemma read_cong:
  assumes "tsps s' = tsps s" and "mrt s' = mrt s" and "ts_vote_msg s' = ts_vote_msg s"
  shows "read \<alpha> \<beta> ho s' = read \<alpha> \<beta> ho s"
proof -
  have eqs: "min_possible_ts \<alpha> \<beta> ho s' = min_possible_ts \<alpha> \<beta> ho s"
    "max_possible_ts \<alpha> \<beta> ho s' = max_possible_ts \<alpha> \<beta> ho s"
    "min_possible_ts_for_new_tx \<alpha> \<beta> ho s' = min_possible_ts_for_new_tx \<alpha> \<beta> ho s"
    "vote_msg_or_default s' = vote_msg_or_default s"
    unfolding min_possible_ts_def [abs_def] max_possible_ts_def [abs_def]
      min_possible_ts_for_new_tx_def vote_msg_or_default_def [abs_def] assms by (rule refl)+
  have "read_tx \<alpha> \<beta> ho s' = read_tx \<alpha> \<beta> ho s" unfolding read_tx_def [abs_def] eqs assms ..
  then show ?thesis unfolding read_def eqs assms by simp
qed

lemma read_panic_cong: "tsps s' = tsps s \<Longrightarrow> read \<alpha> \<beta> ho s = Inl Panic \<Longrightarrow> read \<alpha> \<beta> ho s' = Inl Panic"
proof -
  assume eq: "tsps s' = tsps s" and "read \<alpha> \<beta> ho s = Inl Panic"
  then have "None \<in> set (map (read_tx \<alpha> \<beta> ho s) (tsps_keys ho))"
    by (auto simp: read_def those_eq_None split: option.splits)
  moreover have "read_tx \<alpha> \<beta> ho s' txn = None \<longleftrightarrow> read_tx \<alpha> \<beta> ho s txn = None" for txn
    using eq by (simp add: read_tx_def max_possible_ts_def Let_def split: option.splits prod.splits)
  ultimately have "None \<in> set (map (read_tx \<alpha> \<beta> ho s') (tsps_keys ho))" by (simp add: image_iff) metis
  then show ?thesis unfolding read_def by (simp add: those_eq_None [THEN iffD2])
qed

text \<open>A read that completes without a panic completes while the handler does not hold \<open>mrt\<close>.\<close>

lemma completes_unlocked:
  assumes "shared_step E \<alpha> \<beta> st st'" and "readers st' i \<noteq> readers st i" and "readers st' i = RDone ho res"
    and "reader_ok \<alpha> \<beta> st (readers st i)"
  shows "res = Inl Panic \<or> \<not> write_holds (upd st') Mrt"
  using assms(1)
proof cases
  case (r_cpp j ho' acc p)
  with assms(2) have "j = i" by (auto split: if_splits)
  with r_cpp assms(4) show ?thesis by (simp add: reader_ok_def)
qed (use assms(2,3) in \<open>auto split: if_splits\<close>)

section \<open>Property\<close>

text \<open>
  C2. Requests and handler do not tear each other's work, however their steps interleave. A read that
  completes returns what the whole read computes on the maps as they are at that moment; and
  that is also what it computes on the maps the sequential handler reaches by handling some of
  the votes taken so far, one after the other and each of them whole: no read ever sees one map
  with a vote and another without it. Whenever the handler is idle, the maps are those it reaches
  by handling all votes it has taken.
\<close>

theorem reads_are_atomic:
  assumes "shared_run E \<alpha> \<beta> (init_shared rs vs) st"
  shows "(\<forall>st' i ho res. shared_step E \<alpha> \<beta> st st' \<longrightarrow> readers st' i \<noteq> readers st i \<longrightarrow>
      readers st' i = RDone ho res \<longrightarrow> read \<alpha> \<beta> ho (maps st') = res \<and>
      (\<exists>us ws s. vs = us @ inbox st' \<and> set ws \<subseteq> set us \<and>
         start_pod_data_updater E (init_client_state rs) ws = (s, None) \<and> read \<alpha> \<beta> ho s = res)) \<and>
    (upd st = UIdle \<longrightarrow> (\<exists>us. vs = us @ inbox st \<and>
       start_pod_data_updater E (init_client_state rs) us = (maps st, None)))"
proof (intro conjI allI impI)
  fix st' i ho res
  assume step: "shared_step E \<alpha> \<beta> st st'" and fin: "readers st' i \<noteq> readers st i" "readers st' i = RDone ho res"
  show now: "read \<alpha> \<beta> ho (maps st') = res"
    using shared_step_readers [OF step fin(1) readers_ok [OF assms]] fin(2) by blast
  obtain us s where us: "vs = us @ inbox st'" "reached E rs us s" "at_hand E us (upd st') s (no_backlog (maps st'))"
    using shared_run_inv [OF shared_run.step [OF assms step]] by (auto simp: shared_inv_def)
  have "read \<alpha> \<beta> ho s = res"
    using completes_unlocked [OF step fin readers_ok [OF assms]]
  proof
    assume "res = Inl Panic"
    then show ?thesis using now read_panic_cong [of s "maps st'"] at_hand_tsps [OF us(3)] by simp
  next
    assume "\<not> write_holds (upd st') Mrt"
    then show ?thesis using now at_hand_unlocked [OF us(3)] at_hand_tsps [OF us(3)] read_cong [of s "maps st'"] by simp
  qed
  with us show "\<exists>us ws s. vs = us @ inbox st' \<and> set ws \<subseteq> set us \<and>
      start_pod_data_updater E (init_client_state rs) ws = (s, None) \<and> read \<alpha> \<beta> ho s = res"
    unfolding reached_def by blast
qed (use shared_run_finish [OF assms] in fastforce)

lemma reader_run:
  "shared_run demo_ed25519 1 0 (init_shared three_replicas a_votes)
     ((init_shared three_replicas a_votes)\<lparr>readers := (\<lambda>_. RIdle)(0 := RMrt no_order []
        (min_possible_ts_for_new_tx 1 0 no_order (init_client_state three_replicas)))\<rparr>)"
proof -
  let ?i = "init_shared three_replicas a_votes" and ?p = "min_possible_ts_for_new_tx 1 0 no_order (init_client_state three_replicas)"
  let ?r = "\<lambda>r. ?i\<lparr>readers := (\<lambda>_. RIdle)(0 := r)\<rparr>"
  note defs = init_shared_def can_read_def no_order_def
  have "shared_run demo_ed25519 1 0 ?i (?r (RTsps no_order))"
    using shared_run.step [OF start r_tsps [of ?i 0 no_order demo_ed25519 1 0]] no_order_ok by (simp add: init_shared_def can_read_def)
  then have "shared_run demo_ed25519 1 0 ?i (?r (RLoop no_order [] []))"
    by (rule shared_run.step) (use r_msg [of "?r (RTsps no_order)" 0 no_order demo_ed25519 1 0] in \<open>simp add: defs\<close>)
  then have "shared_run demo_ed25519 1 0 ?i (?r (RPerf no_order []))"
    by (rule shared_run.step) (use r_last [of "?r (RLoop no_order [] [])" 0 no_order "[]" demo_ed25519 1 0] in \<open>simp add: defs\<close>)
  then have "shared_run demo_ed25519 1 0 ?i (?r (RCpp no_order [] ?p))"
    by (rule shared_run.step) (use r_perf [of "?r (RPerf no_order [])" 0 no_order "[]" demo_ed25519 1 0] in \<open>simp add: defs\<close>)
  then show ?thesis
    by (rule shared_run.step) (use r_mrt [of "?r (RCpp no_order [] ?p)" 0 no_order "[]" ?p demo_ed25519 1 0] in \<open>simp add: defs\<close>)
qed

theorem reads_are_atomic_witness:
  "\<exists>res. read 1 0 no_order (init_client_state three_replicas) = Inr res \<and> pd_t res = [] \<and> length (cpp res) = 3"
proof -
  let ?p = "min_possible_ts_for_new_tx 1 0 no_order (init_client_state three_replicas)"
  let ?st = "(init_shared three_replicas a_votes)\<lparr>readers := (\<lambda>_. RIdle)(0 := RMrt no_order [] ?p)\<rparr>"
  have r: "readers ?st 0 = RMrt no_order [] ?p" by simp
  from r_cpp [OF r, of demo_ed25519 1 0] obtain st' pd where
    st': "shared_step demo_ed25519 1 0 ?st st'" "readers st' 0 = RDone no_order (Inr pd)" "maps st' = init_client_state three_replicas"
    "pd_t pd = []" "length (cpp pd) = 3"
    by (fastforce simp: init_shared_def no_order_def)
  have "readers st' 0 \<noteq> readers ?st 0" using st'(2) r by simp
  with reads_are_atomic [OF reader_run] st' have "read 1 0 no_order (maps st') = Inr pd" by blast
  with st' show ?thesis by auto
qed

end
