(* ===== verification/LockProgress.thy ===== *)
theory LockProgress
  imports SharedMaps
begin

text \<open>
  Progress of the handler and of reads under the locks of \<^verbatim>\<open>SharedMaps\<close>: each of them alone always
  comes to an end, with the result of the sequential code; and when the handler has to wait for
  a read that is on its way to \<open>mrt\<close>, it waits for good.
\<close>

section \<open>Steps of one task\<close>

text \<open>A step of the handler leaves all requests where they are.\<close>

definition handler_step ::
  "('sk, 'pk, 'sig) ed25519 \<Rightarrow> nat \<Rightarrow> nat \<Rightarrow> 'pk shared_state \<Rightarrow> 'pk shared_state \<Rightarrow> bool" where
  "handler_step E \<alpha> \<beta> st st' \<longleftrightarrow> shared_step E \<alpha> \<beta> st st' \<and> readers st' = readers st"

text \<open>Nothing left to do: the inbox is empty, or an error ended the handler.\<close>

definition handler_rests :: "'pk shared_state \<Rightarrow> bool" where
  "handler_rests st \<longleftrightarrow>
     (case upd st of UIdle \<Rightarrow> inbox st = [] | UStopped _ \<Rightarrow> True | _ \<Rightarrow> False)"

text \<open>A step of request \<open>i\<close> leaves the handler, the maps and the other requests where they are.\<close>

definition request_step ::
  "('sk, 'pk, 'sig) ed25519 \<Rightarrow> nat \<Rightarrow> nat \<Rightarrow> nat \<Rightarrow> 'pk shared_state \<Rightarrow> 'pk shared_state \<Rightarrow> bool" where
  "request_step E \<alpha> \<beta> i st st' \<longleftrightarrow> shared_step E \<alpha> \<beta> st st' \<and> (\<exists>r. st' = st\<lparr>readers := (readers st)(i := r)\<rparr>)"

lemma shared_run_trans:
  "shared_run E \<alpha> \<beta> st st1 \<Longrightarrow> shared_run E \<alpha> \<beta> st1 st2 \<Longrightarrow> shared_run E \<alpha> \<beta> st st2"
  by (rotate_tac, induction rule: shared_run.induct) (auto intro: shared_run.step)

section \<open>The handler's measure\<close>

definition backlog_size :: "'pk client_state \<Rightarrow> nat" where
  "backlog_size s = (\<Sum>r\<in>UNIV. length (case backlog s r of None \<Rightarrow> [] | Some b \<Rightarrow> b))"

fun pc_rank :: "updater_pc \<Rightarrow> nat" where
  "pc_rank UIdle = 0"
| "pc_rank (UStopped _) = 0"
| "pc_rank (UDrain _) = 1"
| "pc_rank (UWantTsps _ _ _) = 2"
| "pc_rank (UEntry _ _ _) = 3"
| "pc_rank (UWantMsg _ _ _) = 4"
| "pc_rank (UWantMrt _ _ _) = 5"

definition handler_measure :: "'pk shared_state \<Rightarrow> nat" where
  "handler_measure st = 24 * length (inbox st) + 12 * backlog_size (maps st) + 2 * pc_rank (upd st) +
     (if queued st = None then 1 else 0)"

lemma backlog_size_cong: "backlog s' = backlog s \<Longrightarrow> backlog_size s' = backlog_size s"
  by (simp add: backlog_size_def)

lemma backlog_size_other [simp]:
  "backlog_size (s\<lparr>next_sn := x\<rparr>) = backlog_size s" "backlog_size (s\<lparr>mrt := y\<rparr>) = backlog_size s"
  "backlog_size (store_msg v s) = backlog_size s" "backlog_size (store_tsps rid txn t s) = backlog_size s"
  by (rule backlog_size_cong, simp add: store_msg_def store_tsps_def Let_def)+

lemma backlog_size_upd:
  "backlog_size (s\<lparr>backlog := (backlog s)(r \<mapsto> b)\<rparr>) + length (case backlog s r of None \<Rightarrow> [] | Some b \<Rightarrow> b) =
     backlog_size s + length b"
proof -
  let ?f = "\<lambda>r. length (case backlog s r of None \<Rightarrow> [] | Some b \<Rightarrow> b)"
  have "backlog_size (s\<lparr>backlog := (backlog s)(r \<mapsto> b)\<rparr>) = length b + sum ?f (UNIV - {r})"
    unfolding backlog_size_def by (subst sum.remove [of UNIV r]) (auto intro!: sum.cong)
  moreover have "backlog_size s = ?f r + sum ?f (UNIV - {r})"
    unfolding backlog_size_def by (rule sum.remove) auto
  ultimately show ?thesis by simp
qed

lemma length_bt_insert: "length (bt_insert k v b) \<le> Suc (length b)"
  by (induction k v b rule: bt_insert.induct) auto

lemma untaken_backlog_size:
  assumes "handle_vote E s v = (s', e)" and "\<nexists>txn n1. takes E s v txn n1"
  shows "backlog_size s' \<le> Suc (backlog_size s)"
proof -
  define b where "b = (case backlog s (replica_id v) of None \<Rightarrow> [] | Some b \<Rightarrow> b)"
  consider "s' = s" | "s' = s\<lparr>backlog := (backlog s)(replica_id v \<mapsto> bt_insert (sequence_number v) v b)\<rparr>"
    using assms unfolding b_def
    by (auto simp: takes_def accepts_def handle_vote_def Let_def split: option.splits if_splits prod.splits)
  then show ?thesis
  proof cases
    case 2
    with backlog_size_upd [of s "replica_id v" "bt_insert (sequence_number v) v b"]
    have "backlog_size s' + length b = backlog_size s + length (bt_insert (sequence_number v) v b)"
      by (simp add: b_def)
    with length_bt_insert [of "sequence_number v" v b] show ?thesis by linarith
  qed simp
qed

lemma drain_once_backlog_size:
  "drain_once rid s = Inl (s', e) \<Longrightarrow> backlog_size s' \<le> backlog_size s"
  "drain_once rid s = Inr (s', v) \<Longrightarrow> backlog_size s' < backlog_size s"
proof -
  have pop: "backlog_size (s\<lparr>backlog := (backlog s)(rid \<mapsto> bt_remove k b)\<rparr>) < backlog_size s"
    if "backlog s rid = Some b" "bt_first b = Some (k, w)" for b k w
    using backlog_size_upd [of s rid "bt_remove k b"] length_bt_remove_first [OF that(2)] that(1) by simp
  have keep: "backlog_size (s\<lparr>backlog := f, next_sn := g\<rparr>) = backlog_size (s\<lparr>backlog := f\<rparr>)" for f g
    by (rule backlog_size_cong) simp
  show "drain_once rid s = Inl (s', e) \<Longrightarrow> backlog_size s' \<le> backlog_size s"
    using pop by (auto simp: drain_once_def Let_def less_imp_le split: option.splits if_splits)
  show "drain_once rid s = Inr (s', v) \<Longrightarrow> backlog_size s' < backlog_size s"
    using pop by (auto simp: drain_once_def Let_def keep split: option.splits if_splits)
qed

lemma pc_rank_stop_or_idle [simp]: "pc_rank (stop_or_idle e) = 0"
  by (cases e) simp_all

lemma handler_step_decreases:
  assumes "handler_step E \<alpha> \<beta> st st'"
  shows "handler_measure st' < handler_measure st"
proof -
  have step: "shared_step E \<alpha> \<beta> st st'" and same: "readers st' = readers st"
    using assms by (simp_all add: handler_step_def)
  from step show ?thesis
  proof cases
    case (u_other v vs s' e)
    with untaken_backlog_size [OF u_other(5,4)] show ?thesis by (simp add: handler_measure_def)
  next
    case (u_take v vs txn n1)
    then show ?thesis by (simp add: handler_measure_def)
  next
    case (u_msg rid txn v)
    then show ?thesis by (simp add: handler_measure_def)
  next
    case (u_entry rid txn v x)
    then show ?thesis by (simp add: handler_measure_def)
  next
    case (u_tsps rid txn v)
    then show ?thesis by (simp add: handler_measure_def)
  next
    case (u_drained rid s' e)
    with drain_once_backlog_size(1) [OF u_drained(3)] show ?thesis by (simp add: handler_measure_def)
  next
    case (u_pop rid s' v)
    with drain_once_backlog_size(2) [OF u_pop(3)] show ?thesis
      by (simp add: handler_measure_def split: option.splits)
  qed (use same in \<open>auto simp: handler_measure_def fun_upd_idem_iff\<close>)
qed

section \<open>When the handler can step\<close>

text \<open>The handler waits only where it asks for a lock that some read holds.\<close>

definition handler_waits :: "'pk shared_state \<Rightarrow> bool" where
  "handler_waits st \<longleftrightarrow>
     (case upd st of
        UWantMrt _ _ _ \<Rightarrow> \<not> can_write st Mrt
      | UWantMsg _ _ _ \<Rightarrow> \<not> can_write st TsVoteMsg
      | UWantTsps _ _ _ \<Rightarrow> \<not> can_write st Tsps
      | _ \<Rightarrow> False)"

lemma handler_enabled:
  assumes "\<not> handler_rests st" and "\<not> handler_waits st"
  shows "\<exists>st'. handler_step E \<alpha> \<beta> st st'"
proof (cases "upd st")
  case UIdle
  then obtain v vs where in': "inbox st = v # vs" using assms(1) by (cases "inbox st") (auto simp: handler_rests_def)
  show ?thesis
  proof (cases "\<exists>txn n1. takes E (maps st) v txn n1")
    case True
    then show ?thesis using u_take [OF UIdle in'] unfolding handler_step_def by fastforce
  next
    case False
    obtain s' e where "handle_vote E (maps st) v = (s', e)" by fastforce
    from u_other [OF UIdle in' False this] show ?thesis unfolding handler_step_def by fastforce
  qed
next
  case (UWantMrt rid txn v)
  then have "can_write st Mrt" using assms(2) by (simp add: handler_waits_def)
  from u_mrt [OF UWantMrt this] show ?thesis unfolding handler_step_def by fastforce
next
  case (UWantMsg rid txn v)
  then have "can_write st TsVoteMsg" using assms(2) by (simp add: handler_waits_def)
  from u_msg [OF UWantMsg this] show ?thesis unfolding handler_step_def by fastforce
next
  case (UEntry rid txn v)
  show ?thesis
  proof (cases "mrt (maps st) rid")
    case None
    from u_no_mrt [OF UEntry this] show ?thesis unfolding handler_step_def by fastforce
  next
    case (Some x)
    then show ?thesis using u_old [OF UEntry Some] u_entry [OF UEntry Some] unfolding handler_step_def by fastforce
  qed
next
  case (UWantTsps rid txn v)
  then have "can_write st Tsps" using assms(2) by (simp add: handler_waits_def)
  from u_tsps [OF UWantTsps this] show ?thesis unfolding handler_step_def by fastforce
next
  case (UDrain rid)
  show ?thesis
  proof (cases "drain_once rid (maps st)")
    case (Inl r)
    obtain s' e where "r = (s', e)" by fastforce
    with u_drained [OF UDrain] Inl show ?thesis unfolding handler_step_def by fastforce
  next
    case (Inr r)
    obtain s' v where "r = (s', v)" by fastforce
    with u_pop [OF UDrain] Inr show ?thesis unfolding handler_step_def by fastforce
  qed
next
  case (UStopped e)
  with assms(1) show ?thesis by (simp add: handler_rests_def)
qed

lemma handler_runs_to_rest:
  assumes "\<forall>i l. \<not> read_holds (readers st i) l"
  shows "\<exists>st'. (handler_step E \<alpha> \<beta>)\<^sup>*\<^sup>* st st' \<and> handler_rests st' \<and> readers st' = readers st"
  using assms
proof (induction "handler_measure st" arbitrary: st rule: less_induct)
  case less
  show ?case
  proof (cases "handler_rests st")
    case False
    have "\<not> handler_waits st"
      using less.prems by (simp add: handler_waits_def can_write_def split: updater_pc.split)
    then obtain st1 where st1: "handler_step E \<alpha> \<beta> st st1" using handler_enabled [OF False] by blast
    then have "readers st1 = readers st" by (simp add: handler_step_def)
    with less.hyps [OF handler_step_decreases [OF st1]] less.prems obtain st' where
      "(handler_step E \<alpha> \<beta>)\<^sup>*\<^sup>* st1 st'" "handler_rests st'" "readers st' = readers st" by metis
    with st1 show ?thesis by (meson converse_rtranclp_into_rtranclp)
  qed blast
qed

lemma handler_steps_run: "(handler_step E \<alpha> \<beta>)\<^sup>*\<^sup>* st st' \<Longrightarrow> shared_run E \<alpha> \<beta> st st'"
  by (induction rule: rtranclp_induct) (auto intro: shared_run.intros simp: handler_step_def)

lemma no_infinite_handler_run: "\<not> (\<forall>n. handler_step E \<alpha> \<beta> (f n) (f (Suc n)))"
proof
  assume "\<forall>n. handler_step E \<alpha> \<beta> (f n) (f (Suc n))"
  then have dec: "handler_measure (f (Suc n)) < handler_measure (f n)" for n using handler_step_decreases by blast
  have "handler_measure (f n) + n \<le> handler_measure (f 0)" for n
  proof (induction n)
    case (Suc n)
    then show ?case using dec [of n] by simp
  qed simp
  from this [of "Suc (handler_measure (f 0))"] show False by simp
qed

section \<open>A read alone\<close>

abbreviation reader_at :: "'pk shared_state \<Rightarrow> nat \<Rightarrow> reader_pc \<Rightarrow> 'pk shared_state" where
  "reader_at st i r \<equiv> st\<lparr>readers := (readers st)(i := r)\<rparr>"

lemma request_stepI:
  "shared_step E \<alpha> \<beta> (reader_at st i r) (reader_at st i r') \<Longrightarrow> request_step E \<alpha> \<beta> i (reader_at st i r) (reader_at st i r')"
  unfolding request_step_def by (auto intro!: exI [of _ r'])

lemma read_loop_completes:
  assumes "\<forall>l. can_read st l"
    and "tsps_keys ho = seen @ todo" and "map (read_tx \<alpha> \<beta> ho (maps st)) seen = map Some acc"
  shows "(request_step E \<alpha> \<beta> i)\<^sup>*\<^sup>* (reader_at st i (RLoop ho todo acc))
    (reader_at st i (RDone ho (read \<alpha> \<beta> ho (maps st))))"
  using assms
proof (induction todo arbitrary: acc seen)
  case Nil
  let ?p = "min_possible_ts_for_new_tx \<alpha> \<beta> ho (maps st)"
  have ok: "can_read (reader_at st i r) l" for r l using Nil.prems(1) by (simp add: can_read_def)
  have "those (map (read_tx \<alpha> \<beta> ho (maps st)) (tsps_keys ho)) = Some acc" using Nil.prems(2,3) by simp
  then have "request_step E \<alpha> \<beta> i (reader_at st i (RMrt ho acc ?p)) (reader_at st i (RDone ho (read \<alpha> \<beta> ho (maps st))))"
    using r_cpp [of "reader_at st i (RMrt ho acc ?p)" i ho acc ?p] by (intro request_stepI) (simp add: read_def)
  moreover have "request_step E \<alpha> \<beta> i (reader_at st i (RLoop ho [] acc)) (reader_at st i (RPerf ho acc))"
    using r_last [of "reader_at st i (RLoop ho [] acc)" i ho acc, OF _ ok] by (intro request_stepI) simp
  moreover have "request_step E \<alpha> \<beta> i (reader_at st i (RPerf ho acc)) (reader_at st i (RCpp ho acc ?p))"
    using r_perf [of "reader_at st i (RPerf ho acc)" i ho acc] by (intro request_stepI) simp
  moreover have "request_step E \<alpha> \<beta> i (reader_at st i (RCpp ho acc ?p)) (reader_at st i (RMrt ho acc ?p))"
    using r_mrt [of "reader_at st i (RCpp ho acc ?p)" i ho acc ?p, OF _ ok] by (intro request_stepI) simp
  ultimately show ?case by (meson converse_rtranclp_into_rtranclp rtranclp.rtrancl_refl)
next
  case (Cons txn todo)
  let ?m = "min_possible_ts \<alpha> \<beta> ho (maps st) txn"
  have ok: "can_read (reader_at st i r) l" for r l using Cons.prems(1) by (simp add: can_read_def)
  have "request_step E \<alpha> \<beta> i (reader_at st i (RLoop ho (txn # todo) acc)) (reader_at st i (RMin ho txn todo acc))"
    using r_lock [of "reader_at st i (RLoop ho (txn # todo) acc)" i ho txn todo acc, OF _ ok ok] by (intro request_stepI) simp
  moreover have "request_step E \<alpha> \<beta> i (reader_at st i (RMin ho txn todo acc)) (reader_at st i (RMax ho txn ?m todo acc))"
    using r_min [of "reader_at st i (RMin ho txn todo acc)" i ho txn todo acc] by (intro request_stepI) simp
  ultimately have first: "(request_step E \<alpha> \<beta> i)\<^sup>*\<^sup>* (reader_at st i (RLoop ho (txn # todo) acc))
      (reader_at st i (RMax ho txn ?m todo acc))" by (meson converse_rtranclp_into_rtranclp rtranclp.rtrancl_refl)
  show ?case
  proof (cases "read_tx \<alpha> \<beta> ho (maps st) txn")
    case None
    have "None \<in> set (map (read_tx \<alpha> \<beta> ho (maps st)) (tsps_keys ho))"
      using None Cons.prems(2) by (auto simp: image_iff intro: bexI [of _ txn])
    then have "read \<alpha> \<beta> ho (maps st) = Inl Panic" unfolding read_def by (simp add: those_eq_None [THEN iffD2])
    then have "request_step E \<alpha> \<beta> i (reader_at st i (RMax ho txn ?m todo acc)) (reader_at st i (RDone ho (read \<alpha> \<beta> ho (maps st))))"
      using r_panic [of "reader_at st i (RMax ho txn ?m todo acc)" i ho txn ?m todo acc, OF _ ok] None
      by (intro request_stepI) simp
    with first show ?thesis by (rule rtranclp.rtrancl_into_rtrancl)
  next
    case (Some rec)
    have "request_step E \<alpha> \<beta> i (reader_at st i (RMax ho txn ?m todo acc)) (reader_at st i (RLoop ho todo (acc @ [rec])))"
      using r_max [of "reader_at st i (RMax ho txn ?m todo acc)" i ho txn ?m todo acc \<alpha> \<beta> rec E, OF _ ok] Some read_tx_rmin [OF Some]
      by (intro request_stepI) simp
    with first have "(request_step E \<alpha> \<beta> i)\<^sup>*\<^sup>* (reader_at st i (RLoop ho (txn # todo) acc)) (reader_at st i (RLoop ho todo (acc @ [rec])))"
      by (rule rtranclp.rtrancl_into_rtrancl)
    also have "(request_step E \<alpha> \<beta> i)\<^sup>*\<^sup>* \<dots> (reader_at st i (RDone ho (read \<alpha> \<beta> ho (maps st))))"
      by (rule Cons.IH [where seen = "seen @ [txn]"]) (use Cons.prems Some in simp_all)
    finally show ?thesis .
  qed
qed

section \<open>Waiting for good\<close>

text \<open>The request holds a lock the handler asks for, and its next lock is the handler's.\<close>

fun on_the_way :: "updater_pc \<Rightarrow> reader_pc \<Rightarrow> bool" where
  "on_the_way (UWantMsg _ _ _) (RLoop _ _ _) \<longleftrightarrow> True"
| "on_the_way (UWantMsg _ _ _) (RCpp _ _ _) \<longleftrightarrow> True"
| "on_the_way (UWantTsps _ _ _) (RTsps _) \<longleftrightarrow> True"
| "on_the_way (UWantTsps _ _ _) (RLoop _ _ _) \<longleftrightarrow> True"
| "on_the_way (UWantTsps _ _ _) (RCpp _ _ _) \<longleftrightarrow> True"
| "on_the_way _ _ \<longleftrightarrow> False"

lemma on_the_way_cases:
  assumes "on_the_way u r"
  obtains rid txn v where "u = UWantMsg rid txn v" "read_holds r TsVoteMsg"
    | rid txn v where "u = UWantTsps rid txn v" "read_holds r Tsps"
  using assms by (cases "(u, r)" rule: on_the_way.cases) auto

lemma on_the_way_step:
  assumes "shared_step E \<alpha> \<beta> st st'" and "on_the_way (upd st) (readers st i)"
  shows "upd st' = upd st \<and> on_the_way (upd st') (readers st' i)"
proof -
  have blocked: "\<not> can_write st TsVoteMsg" if "upd st = UWantMsg rid txn v" for rid txn v
    using assms(2) that by (cases rule: on_the_way_cases) (auto simp: can_write_def)
  have blocked': "\<not> can_write st Tsps" if "upd st = UWantTsps rid txn v" for rid txn v
    using assms(2) that by (cases rule: on_the_way_cases) (auto simp: can_write_def)
  have mrt: "\<not> can_read st Mrt"
    using assms(2) by (cases rule: on_the_way_cases) (simp_all add: can_read_def)
  have pc: "(\<exists>rid txn v. upd st = UWantMsg rid txn v) \<or> (\<exists>rid txn v. upd st = UWantTsps rid txn v)"
    using assms(2) by (cases rule: on_the_way_cases) simp_all
  from assms(1) show ?thesis
  proof cases
    case (r_max j ho txn r_min todo acc rec)
    then show ?thesis using assms(2) pc by (cases "j = i") auto
  next
    case (r_panic j ho txn r_min todo acc)
    then show ?thesis using assms(2) pc by (cases "j = i") auto
  next
    case (r_msg j ho)
    then show ?thesis using assms(2) pc by (cases "j = i") auto
  next
    case (r_tsps j ho)
    then show ?thesis using assms(2) pc by (cases "j = i") auto
  next
    case (r_min j ho txn todo acc)
    then show ?thesis using assms(2) pc by (cases "j = i") auto
  next
    case (r_perf j ho acc)
    then show ?thesis using assms(2) pc by (cases "j = i") auto
  next
    case (r_cpp j ho acc p)
    then show ?thesis using assms(2) pc by (cases "j = i") auto
  qed (use assms(2) mrt pc blocked blocked' in auto)
qed

lemma on_the_way_run:
  assumes "shared_run E \<alpha> \<beta> st st'" and "on_the_way (upd st) (readers st i)"
  shows "upd st' = upd st \<and> on_the_way (upd st') (readers st' i)"
  using assms
proof induction
  case (step st1 st2)
  then show ?case using on_the_way_step [OF step.hyps(2)] by metis
qed simp

section \<open>Properties\<close>

text \<open>
  C20. The handler makes progress. From any reachable state in which no request holds a lock, it
  reaches by its own steps a state with nothing left to do, in which the maps are those of the
  sequential handler on the votes taken, all of them unless an error ended it; and there is no
  infinite sequence of its steps.
\<close>

theorem handler_finishes:
  assumes "shared_run E \<alpha> \<beta> (init_shared rs vs) st" and "\<forall>i l. \<not> read_holds (readers st i) l"
  shows "(\<exists>st' us. (handler_step E \<alpha> \<beta>)\<^sup>*\<^sup>* st st' \<and> vs = us @ inbox st' \<and>
      ((upd st' = UIdle \<and> us = vs \<and> start_pod_data_updater E (init_client_state rs) vs = (maps st', None)) \<or>
       (\<exists>e. upd st' = UStopped e \<and> start_pod_data_updater E (init_client_state rs) us = (maps st', Some e)))) \<and>
    (\<nexists>f. f 0 = st \<and> (\<forall>n. handler_step E \<alpha> \<beta> (f n) (f (Suc n))))"
proof -
  obtain st' where st': "(handler_step E \<alpha> \<beta>)\<^sup>*\<^sup>* st st'" "handler_rests st'"
    using handler_runs_to_rest [OF assms(2)] by blast
  have "shared_run E \<alpha> \<beta> (init_shared rs vs) st'"
    using assms(1) handler_steps_run [OF st'(1)] by (rule shared_run_trans)
  then obtain us where us: "vs = us @ inbox st'"
    "start_pod_data_updater E (init_client_state rs) us = finish (upd st') (maps st')"
    using shared_run_finish by blast
  from st'(2) have "(upd st' = UIdle \<and> inbox st' = []) \<or> (\<exists>e. upd st' = UStopped e)"
    by (auto simp: handler_rests_def split: updater_pc.splits)
  with us st'(1) no_infinite_handler_run [of E \<alpha> \<beta>] show ?thesis by fastforce
qed

theorem handler_finishes_witness:
  "\<exists>st'. (handler_step demo_ed25519 1 0)\<^sup>*\<^sup>* (init_shared demo_replicas demo_votes) st' \<and> maps st' = demo_final"
proof -
  have "\<forall>i l. \<not> read_holds (readers (init_shared demo_replicas demo_votes) i) l" by (simp add: init_shared_def)
  from handler_finishes [OF shared_run.start this, of demo_ed25519 1 0] obtain st' us where
    st': "(handler_step demo_ed25519 1 0)\<^sup>*\<^sup>* (init_shared demo_replicas demo_votes) st'" "demo_votes = us @ inbox st'"
    "(upd st' = UIdle \<and> us = demo_votes \<and>
       start_pod_data_updater demo_ed25519 (init_client_state demo_replicas) demo_votes = (maps st', None)) \<or>
     (\<exists>e. upd st' = UStopped e \<and>
       start_pod_data_updater demo_ed25519 (init_client_state demo_replicas) us = (maps st', Some e))" by blast
  have "snd (start_pod_data_updater demo_ed25519 (init_client_state demo_replicas) us) = None"
  proof (rule ccontr)
    assume "snd (start_pod_data_updater demo_ed25519 (init_client_state demo_replicas) us) \<noteq> None"
    then obtain s e where "start_pod_data_updater demo_ed25519 (init_client_state demo_replicas) us = (s, Some e)"
      by (cases "start_pod_data_updater demo_ed25519 (init_client_state demo_replicas) us") auto
    then have "start_pod_data_updater demo_ed25519 (init_client_state demo_replicas) (us @ inbox st') = (s, Some e)"
      by (simp add: init_start service_loop_append)
    then show False using demo_run(1) st'(2) by simp
  qed
  with st' demo_run(1) show ?thesis by auto
qed

text \<open>
  C21. A read makes progress. Whenever the handler holds no lock for writing and stands in the queue
  of none (it is idle, between two votes of its backlog, ended, or about to ask for \<open>mrt\<close>), a new
  request can run to its end by its own steps alone, whatever other requests are under way,
  and returns what the read computes on the maps. (Once the handler waits in a queue this is no
  longer so: the lock lets no new reader pass it.)
\<close>

theorem read_completes:
  assumes "readers st i = RIdle" and "hash_order_ok ho (maps st)"
    and "\<forall>l. \<not> write_holds (upd st) l" and "queued st = None"
  shows "(request_step E \<alpha> \<beta> i)\<^sup>*\<^sup>* st (st\<lparr>readers := (readers st)(i := RDone ho (read \<alpha> \<beta> ho (maps st)))\<rparr>)"
proof -
  have ok: "can_read (reader_at st i r) l" for r l using assms(3,4) by (simp add: can_read_def)
  have st: "reader_at st i RIdle = st" using assms(1) by (simp add: fun_upd_idem)
  have "request_step E \<alpha> \<beta> i (reader_at st i RIdle) (reader_at st i (RTsps ho))"
    using r_tsps [of "reader_at st i RIdle" i ho E \<alpha> \<beta>, OF _ ok] assms(2) by (intro request_stepI) simp
  moreover have "request_step E \<alpha> \<beta> i (reader_at st i (RTsps ho)) (reader_at st i (RLoop ho (tsps_keys ho) []))"
    using r_msg [of "reader_at st i (RTsps ho)" i ho E \<alpha> \<beta>, OF _ ok] by (intro request_stepI) simp
  moreover have "(request_step E \<alpha> \<beta> i)\<^sup>*\<^sup>* (reader_at st i (RLoop ho (tsps_keys ho) []))
      (reader_at st i (RDone ho (read \<alpha> \<beta> ho (maps st))))"
    by (rule read_loop_completes [where seen = "[]"]) (use assms(3,4) in \<open>simp_all add: can_read_def\<close>)
  ultimately show ?thesis unfolding st by (meson converse_rtranclp_into_rtranclp)
qed

theorem read_completes_witness:
  "\<exists>st'. (request_step demo_ed25519 1 0 0)\<^sup>*\<^sup>* (init_shared three_replicas a_votes) st' \<and>
     readers st' 0 = RDone no_order (read 1 0 no_order (init_client_state three_replicas))"
  using read_completes [of "init_shared three_replicas a_votes" 0 no_order demo_ed25519 1 0] no_order_ok
  by (fastforce simp: init_shared_def)

text \<open>
  C37. Once the handler has to wait for a request that is on its way to \<open>mrt\<close>, it waits for good:
  it holds \<open>mrt\<close> itself while it asks for \<open>ts_vote_msg\<close> or \<open>tsps\<close>, which the request holds until
  it has had \<open>mrt\<close>. Whatever happens afterwards, neither moves past its lock.
\<close>

theorem waiting_handler_never_resumes:
  assumes "on_the_way (upd st) (readers st i)" and "shared_run E \<alpha> \<beta> st st'"
  shows "upd st' = upd st \<and> handler_waits st' \<and> (\<nexists>ho res. readers st' i = RDone ho res)"
proof -
  have "upd st' = upd st \<and> on_the_way (upd st') (readers st' i)" by (rule on_the_way_run [OF assms(2,1)])
  then have same: "upd st' = upd st" and way: "on_the_way (upd st') (readers st' i)" by blast+
  from way have "handler_waits st'"
    by (cases rule: on_the_way_cases) (auto simp: handler_waits_def can_write_def)
  moreover from way have "\<nexists>ho res. readers st' i = RDone ho res" by (cases rule: on_the_way_cases) auto
  ultimately show ?thesis using same by blast
qed

theorem waiting_handler_never_resumes_witness:
  "upd waiting_state = UWantMsg 1 \<lparr>data = [7]\<rparr> (first_vote 1 1 7 10) \<and> handler_waits waiting_state"
  using waiting_handler_never_resumes [OF _ shared_run.start, of waiting_state 0]
  by (simp add: waiting_state_def)

end
