(* ===== verification/LogTests.thy ===== *)
theory LogTests
  imports ReplicaLog Config "HOL-Library.Monad_Syntax"
begin

text \<open>
  The unit tests of the replica log (\<open>mod tests\<close> of \<open>pod/src/replica_log.rs\<close>) as programs over the
  model of the log, on a disk without errors. A test is \<open>None\<close> when it panics, at an \<open>unwrap\<close> or an
  assertion. The encoding of the test message is generated by \<open>prost\<close> and a parameter.
\<close>

section \<open>What the tests use\<close>

record test_entry =
  te_id :: u64
  te_data :: string

definition entry :: "nat \<Rightarrow> string \<Rightarrow> test_entry" where
  "entry i s = \<lparr>te_id = word_of_nat i, te_data = s\<rparr>"

text \<open>The entries of a loop \<open>for i in a..b\<close> with data \<open>format!("...-{}", i)\<close>.\<close>

definition numbered :: "string \<Rightarrow> nat \<Rightarrow> nat \<Rightarrow> test_entry list" where
  "numbered s a b = map (\<lambda>i. entry i (s @ nat_to_string i)) [a..<b]"

definition check :: "bool \<Rightarrow> unit option" where
  "check b = (if b then Some () else None)"

definition open_unwrap :: "replica_log_appender option" where
  "open_unwrap = (case open_log True True None of Inl _ \<Rightarrow> None | Inr log \<Rightarrow> Some log)"

abbreviation append_each :: "'m prost_message \<Rightarrow> 'm list \<Rightarrow> replica_log_appender \<Rightarrow> replica_log_appender option" where
  "append_each P es \<equiv> try_all (\<lambda>(io, e). log_append P io e) (map (Pair good_io) es)"

definition file_at :: "string \<Rightarrow> bytes \<Rightarrow> disk" where
  "file_at p f = [p \<mapsto> f]"

text \<open>\<open>collect::<Result<Vec<_>, _>>().unwrap()\<close>, after \<open>take(n)\<close> or without; both by reference.\<close>

definition collect_unwrap :: "'m prost_message \<Rightarrow> mmap_log_iterator \<Rightarrow> ('m list \<times> mmap_log_iterator) option" where
  "collect_unwrap P it = (case collect_entries P it of (ms, None, it') \<Rightarrow> Some (ms, it') | (_, Some _, _) \<Rightarrow> None)"

fun take_unwrap :: "'m prost_message \<Rightarrow> nat \<Rightarrow> mmap_log_iterator \<Rightarrow> ('m list \<times> mmap_log_iterator) option" where
  "take_unwrap P 0 it = Some ([], it)"
| "take_unwrap P (Suc n) it =
     (case iter_next P it of
        (None, it') \<Rightarrow> Some ([], it')
      | (Some (Inl e), it') \<Rightarrow> None
      | (Some (Inr m), it') \<Rightarrow> do { (ms, it'') \<leftarrow> take_unwrap P n it'; Some (m # ms, it'') })"

text \<open>Reading everything; the file may be another one by the time it is mapped.\<close>

definition read_unwrap :: "'m prost_message \<Rightarrow> disk \<Rightarrow> disk \<Rightarrow> string \<Rightarrow> 'm list option" where
  "read_unwrap P d0 d1 p =
     (case get_replica_log_iterator d0 True d1 True p of
        Inl _ \<Rightarrow> None
      | Inr it \<Rightarrow> map_option fst (collect_unwrap P it))"

section \<open>The tests\<close>

definition test_basic_write_read :: "test_entry prost_message \<Rightarrow> unit option" where
  "test_basic_write_read P = do {
     log \<leftarrow> open_unwrap;
     log \<leftarrow> append_each P [entry 1 ''first'', entry 2 ''second'', entry 3 ''third''] log;
     let d = file_at ''test.log'' (log_file log);
     entries \<leftarrow> read_unwrap P d d ''test.log'';
     check (length entries = 3);
     check (te_id (entries ! 0) = 1);
     check (te_id (entries ! 1) = 2);
     check (te_id (entries ! 2) = 3)
   }"

definition test_concurrent_reads :: "test_entry prost_message \<Rightarrow> unit option" where
  "test_concurrent_reads P = do {
     log \<leftarrow> open_unwrap;
     log \<leftarrow> append_each P (numbered ''entry-'' 0 100) log;
     let d = file_at ''concurrent_reads.log'' (log_file log);
     results \<leftarrow> those (map (\<lambda>t. do {
         entries \<leftarrow> read_unwrap P d d ''concurrent_reads.log'';
         check (length entries = 100);
         check (te_id (entries ! 0) = 0);
         check (te_id (entries ! 50) = 50);
         check (te_id (entries ! 99) = 99);
         Some t
       }) [0..<10]);
     check (length results = 10)
   }"

definition test_refresh_iterator :: "test_entry prost_message \<Rightarrow> unit option" where
  "test_refresh_iterator P = do {
     log \<leftarrow> open_unwrap;
     log \<leftarrow> append_each P (numbered ''initial-'' 0 10) log;
     let d = file_at ''refresh.log'' (log_file log);
     iter \<leftarrow> (case get_replica_log_iterator d True d True ''refresh.log'' of Inl _ \<Rightarrow> None | Inr it \<Rightarrow> Some it);
     (initial_entries, iter) \<leftarrow> take_unwrap P 5 iter;
     check (length initial_entries = 5);
     log \<leftarrow> append_each P (numbered ''additional-'' 10 20) log;
     (more_entries, iter) \<leftarrow> collect_unwrap P iter;
     check (length more_entries = 5);
     iter \<leftarrow> (case refresh (file_at ''refresh.log'' (log_file log)) True (log_file log) True iter of
                (Some _, _) \<Rightarrow> None | (None, it) \<Rightarrow> Some it);
     (new_entries, iter) \<leftarrow> collect_unwrap P iter;
     check (length new_entries = 10);
     check (te_id (new_entries ! 0) = 10);
     check (te_id (new_entries ! 9) = 19)
   }"

text \<open>
  In the last test five readers read the log ten times each while the writer appends. An append
  writes twice, so the content of the file goes through these values, and \<open>look r k\<close> says at which
  of them reader \<open>r\<close> takes the size of the file and maps it in its \<open>k\<close>-th round.
\<close>

fun moments :: "'m prost_message \<Rightarrow> 'm list \<Rightarrow> bytes \<Rightarrow> bytes list" where
  "moments P [] f = [f]"
| "moments P (e # es) f =
     (case encode P e of
        None \<Rightarrow> [f]
      | Some serialized \<Rightarrow>
          let f1 = fst (write_all WriteOk (u32_to_le_bytes (word_of_nat (length serialized))) f);
              f2 = fst (write_all WriteOk serialized f1)
          in f # f1 # moments P es f2)"

definition test_reads_dont_block_writes ::
  "test_entry prost_message \<Rightarrow> (nat \<Rightarrow> nat \<Rightarrow> nat \<times> nat) \<Rightarrow> unit option" where
  "test_reads_dont_block_writes P look = do {
     log \<leftarrow> open_unwrap;
     log \<leftarrow> append_each P (numbered ''initial-'' 0 10) log;
     let seen = moments P (numbered ''concurrent-'' 10 60) (log_file log);
     let content = (\<lambda>i. file_at ''read_write.log'' (seen ! min i (length seen - 1)));
     _ \<leftarrow> those (map (\<lambda>r. those (map (\<lambda>k.
          read_unwrap P (content (fst (look r k))) (content (snd (look r k))) ''read_write.log'') [0..<10])) [0..<5]);
     log \<leftarrow> append_each P (numbered ''concurrent-'' 10 60) log;
     let d = file_at ''read_write.log'' (log_file log);
     final_entries \<leftarrow> read_unwrap P d d ''read_write.log'';
     check (length final_entries = 60);
     check (te_id (final_entries ! 0) = 0);
     check (te_id (final_entries ! 59) = 59)
   }"

section \<open>Facts\<close>

text \<open>
  What is used of the encoding: short entries come back from their encoding, which is not empty
  and takes a few bytes more than the data.
\<close>

definition test_codec :: "test_entry prost_message \<Rightarrow> bool" where
  "test_codec P \<longleftrightarrow> (\<forall>e. te_data e \<noteq> [] \<longrightarrow> length (te_data e) \<le> 20 \<longrightarrow>
     frame_ok P e \<and> 4 < length (frame P e) \<and> length (frame P e) \<le> 100)"

lemma check_simps [simp]: "(check b \<bind> f) = (if b then f () else None)" "check b = Some u \<longleftrightarrow> b"
  by (simp_all add: check_def)

lemma entry_sel [simp]: "te_id (entry i s) = word_of_nat i" "te_data (entry i s) = s"
  by (simp_all add: entry_def)

lemma short_number: "i < 100 \<Longrightarrow> length (nat_to_string i) \<le> 2"
  by (subst nat_to_string.simps, subst nat_to_string.simps) simp

lemma numbered_ok:
  assumes "test_codec P" and "0 < length s" and "length s \<le> 18" and "b \<le> 100"
  shows "\<forall>e\<in>set (numbered s a b). frame_ok P e \<and> 4 < length (frame P e) \<and> length (frame P e) \<le> 100"
proof
  fix e assume "e \<in> set (numbered s a b)"
  then obtain i where i: "e = entry i (s @ nat_to_string i)" "i < 100" using assms(4) by (auto simp: numbered_def)
  then have "te_data e \<noteq> []" "length (te_data e) \<le> 20" using assms(2,3) short_number [OF i(2)] by auto
  with assms(1) show "frame_ok P e \<and> 4 < length (frame P e) \<and> length (frame P e) \<le> 100"
    unfolding test_codec_def by blast
qed

lemma length_numbered [simp]: "length (numbered s a b) = b - a"
  by (simp add: numbered_def)

lemma numbered_id [simp]: "i < b - a \<Longrightarrow> te_id (numbered s a b ! i) = word_of_nat (a + i)"
  by (simp add: numbered_def)

lemma frames_bound: "\<forall>e\<in>set es. length (frame P e) \<le> n \<Longrightarrow> length (frames P es) \<le> n * length es"
  by (induction es) auto

definition log_of :: "'m prost_message \<Rightarrow> 'm list \<Rightarrow> replica_log_appender" where
  "log_of P es = \<lparr>log_file = frames P es, file_size = word_of_nat (length (frames P es)), poisoned = False\<rparr>"

lemma log_file_of [simp]: "log_file (log_of P es) = frames P es"
  by (simp add: log_of_def)

lemma open_unwrap_eq: "open_unwrap = Some (log_of P [])"
  by (simp add: open_unwrap_def open_log_def log_of_def)

lemma append_each_of:
  assumes "\<forall>e\<in>set es. frame_ok P e" and "length (frames P (old @ es)) < 2 ^ 64"
  shows "append_each P es (log_of P old) = Some (log_of P (old @ es))"
  using assms
proof (induction es arbitrary: old)
  case (Cons e es)
  have "append_entry P good_io e (log_of P old) = (Appended, log_of P (old @ [e]))"
    using Cons.prems by (subst append_entry_success) (simp_all add: log_of_def good_io_def unat_of_nat)
  then have "log_append P good_io e (log_of P old) = Some (log_of P (old @ [e]))" by (simp add: log_append_def)
  with Cons.IH [of "old @ [e]"] Cons.prems show ?case by simp
qed simp

lemma read_unwrap_frames:
  assumes "\<forall>m\<in>set ms. frame_ok P m"
  shows "read_unwrap P (file_at p f) (file_at p (frames P ms)) p = Some ms"
  by (simp add: read_unwrap_def get_replica_log_iterator_def file_at_def collect_unwrap_def
      collect_frames_end [OF assms, where pre = "[]"])

lemma read_unwrap_torn:
  assumes "\<forall>m\<in>set ms. frame_ok P m" and "frame_ok P m" and "strict_prefix t (frame P m)" and "t \<noteq> []"
  shows "read_unwrap P (file_at p f) (file_at p (frames P ms @ t)) p = None"
  by (simp add: read_unwrap_def get_replica_log_iterator_def file_at_def collect_unwrap_def
      collect_frames_torn [OF assms])

lemma take_unwrap_frames:
  assumes "\<forall>m\<in>set ms. frame_ok P m" and "mmap it = pre @ frames P ms @ t" and "position it = length pre"
  shows "take_unwrap P (length ms) it = Some (ms, it\<lparr>position := length (pre @ frames P ms)\<rparr>)"
  using assms
proof (induction ms arbitrary: it pre)
  case Nil
  then show ?case by (cases it) simp
next
  case (Cons m ms)
  let ?it = "it\<lparr>position := length pre + length (frame P m)\<rparr>"
  have "iter_next P it = (Some (Inr m), ?it)"
    by (rule iter_next_frame [where rest = "frames P ms @ t"]) (use Cons.prems in auto)
  with Cons.IH [of ?it "pre @ frame P m"] Cons.prems show ?case by (simp add: add.assoc)
qed

text \<open>At an even moment the file holds whole entries, at an odd one half of the next.\<close>

lemma length_moments: "\<forall>e\<in>set es. frame_ok P e \<Longrightarrow> length (moments P es f) = Suc (2 * length es)"
  by (induction es arbitrary: f) (auto simp: frame_ok_def split: option.splits)

lemma moments_even:
  assumes "\<forall>e\<in>set es. frame_ok P e" and "q \<le> length es"
  shows "moments P es f ! (2 * q) = f @ frames P (take q es)"
  using assms
proof (induction es arbitrary: f q)
  case (Cons e es)
  from Cons.prems(1) obtain bs where "encode P e = Some bs" "frame P e = u32_to_le_bytes (word_of_nat (length bs)) @ bs"
    by (auto elim: frame_okE)
  with Cons show ?case by (cases q) simp_all
qed simp

lemma moments_odd:
  assumes "\<forall>e\<in>set es. frame_ok P e" and "q < length es"
  shows "moments P es f ! Suc (2 * q) = f @ frames P (take q es) @ take 4 (frame P (es ! q))"
  using assms
proof (induction es arbitrary: f q)
  case (Cons e es)
  from Cons.prems(1) obtain bs where "encode P e = Some bs" "frame P e = u32_to_le_bytes (word_of_nat (length bs)) @ bs"
    by (auto elim: frame_okE)
  with Cons show ?case by (cases q) simp_all
qed simp

lemma numbered_frames:
  assumes "test_codec P" and "0 < length s" and "length s \<le> 18" and "b \<le> 100"
  shows "\<forall>e\<in>set (numbered s a b). frame_ok P e" "length (frames P (numbered s a b)) \<le> 10000"
proof -
  note ok = numbered_ok [OF assms, of a]
  then show "\<forall>e\<in>set (numbered s a b). frame_ok P e" by blast
  have "length (frames P (numbered s a b)) \<le> 100 * length (numbered s a b)" by (rule frames_bound) (use ok in blast)
  also have "\<dots> \<le> 10000" using assms(4) by simp
  finally show "length (frames P (numbered s a b)) \<le> 10000" .
qed

lemma append_numbered:
  assumes "test_codec P" and "0 < length s" and "length s \<le> 18" and "b \<le> 100" and "length (frames P old) \<le> 10000"
  shows "append_each P (numbered s a b) (log_of P old) = Some (log_of P (old @ numbered s a b))"
  by (rule append_each_of)
    (use numbered_frames [OF assms(1-4), of a] le_less_trans [OF add_mono [OF assms(5) numbered_frames(2) [OF assms(1-4), of a]]] in simp_all)

lemma basic_test_passes:
  assumes "test_codec P"
  shows "test_basic_write_read P = Some ()"
proof -
  let ?es = "[entry 1 ''first'', entry 2 ''second'', entry 3 ''third'']"
  have ok: "\<forall>e\<in>set ?es. frame_ok P e \<and> length (frame P e) \<le> 100" using assms by (simp add: test_codec_def)
  then have "length (frames P ?es) \<le> 100 * length ?es" by (intro frames_bound) blast
  then have "append_each P ?es (log_of P []) = Some (log_of P ?es)"
    using append_each_of [of ?es P "[]"] ok by simp
  moreover have "read_unwrap P (file_at p f) (file_at p (frames P ?es)) p = Some ?es" for p f
    by (rule read_unwrap_frames) (use ok in blast)
  ultimately show ?thesis
    unfolding test_basic_write_read_def open_unwrap_eq [of P] by (simp del: list.map frames_simps)
qed

lemma concurrent_test_passes:
  assumes "test_codec P"
  shows "test_concurrent_reads P = Some ()"
proof -
  let ?es = "numbered ''entry-'' 0 100"
  have log: "append_each P ?es (log_of P []) = Some (log_of P ?es)" using append_numbered [OF assms, of "''entry-''" 100 "[]" 0] by simp
  have reads: "read_unwrap P (file_at p f) (file_at p (frames P ?es)) p = Some ?es" for p f
    by (rule read_unwrap_frames, rule numbered_frames [OF assms]) simp_all
  have "those (map Some xs) = Some xs" for xs :: "nat list" by (induction xs) simp_all
  then show ?thesis
    unfolding test_concurrent_reads_def open_unwrap_eq [of P] by (simp add: log reads del: upt_rec_numeral)
qed

lemma refresh_test_passes:
  assumes "test_codec P"
  shows "test_refresh_iterator P = Some ()"
proof -
  let ?is = "numbered ''initial-'' 0 10" and ?as = "numbered ''additional-'' 10 20"
  let ?xs = "take 5 ?is" and ?ys = "drop 5 ?is"
  have ok: "\<forall>e\<in>set ?is. frame_ok P e" "\<forall>e\<in>set ?as. frame_ok P e"
    "length (frames P ?is) \<le> 10000" "length (frames P ?as) \<le> 10000"
    by (rule numbered_frames [OF assms]; simp)+
  have log: "append_each P ?is (log_of P []) = Some (log_of P ?is)" "append_each P ?as (log_of P ?is) = Some (log_of P (?is @ ?as))"
    using append_numbered [OF assms, of "''initial-''" 10 "[]" 0] append_numbered [OF assms, of "''additional-''" 20 ?is 10] ok(3) by simp_all
  let ?it = "\<lambda>p. \<lparr>mmap = frames P ?is, position = p, it_file_size = word_of_nat (length (frames P ?is)), path = ''refresh.log''\<rparr>"
  have split: "frames P ?xs @ frames P ?ys = frames P ?is" by (simp only: frames_simps(3) [symmetric] append_take_drop_id)
  have first: "take_unwrap P 5 (?it 0) = Some (?xs, ?it (length (frames P ?xs)))"
    using take_unwrap_frames [of ?xs P "?it 0" "[]" "frames P ?ys"] ok(1) split
    by (auto dest: in_set_takeD)
  have "collect_entries P (?it (length (frames P ?xs))) =
      (?ys, None, (?it (length (frames P ?xs)))\<lparr>position := length (mmap (?it (length (frames P ?xs))))\<rparr>)"
    by (rule collect_frames_end [where pre = "frames P ?xs"]) (use ok(1) split in \<open>auto dest: in_set_dropD\<close>)
  then have more: "collect_unwrap P (?it (length (frames P ?xs))) = Some (?ys, ?it (length (frames P ?is)))"
    by (simp add: collect_unwrap_def)
  obtain it' where "refresh (file_at ''refresh.log'' (frames P (?is @ ?as))) True (frames P (?is @ ?as)) True (?it (length (frames P ?is))) = (None, it')"
    "collect_entries P it' = ([] @ ?as, None, it'\<lparr>position := length (frames P (?is @ ?as))\<rparr>)"
    using refreshed [of ?is "[]" ?as P "?it (length (frames P ?is))" "frames P (?is @ ?as)" "file_at ''refresh.log'' (frames P (?is @ ?as))"] ok
    by (auto simp: file_at_def)
  then show ?thesis
    unfolding test_refresh_iterator_def open_unwrap_eq [of P]
    by (simp add: log first more get_replica_log_iterator_def file_at_def collect_unwrap_def [of P it'] del: frames_simps)
qed

lemma read_at_moment:
  assumes "test_codec P" and "es = numbered ''concurrent-'' 10 60" and "\<forall>e\<in>set old. frame_ok P e"
    and "seen = moments P es (frames P old)"
  shows "read_unwrap P (file_at p f) (file_at p (seen ! min i (length seen - 1))) p \<noteq> None \<longleftrightarrow> even (min i 100)"
proof -
  have es: "\<forall>e\<in>set es. frame_ok P e \<and> 4 < length (frame P e)" "length es = 50"
    using numbered_ok [OF assms(1), of "''concurrent-''" 60 10] assms(2) by auto
  then have len: "length seen - 1 = 100" using length_moments [of es P "frames P old"] assms(4) by simp
  show ?thesis
  proof (cases "even (min i 100)")
    case True
    then obtain q where q: "min i 100 = 2 * q" ..
    have "seen ! (2 * q) = frames P (old @ take q es)"
      using moments_even [of es P q "frames P old"] es q assms(4) by simp
    moreover have "\<forall>m\<in>set (old @ take q es). frame_ok P m" using assms(3) es(1) by (auto dest: in_set_takeD)
    ultimately show ?thesis using read_unwrap_frames True unfolding len q by (metis option.distinct(1) q)
  next
    case False
    then obtain q where q: "min i 100 = Suc (2 * q)" by (metis oddE Suc_eq_plus1)
    then have q50: "q < length es" using es(2) by (simp add: min_def split: if_splits)
    have "seen ! Suc (2 * q) = frames P (old @ take q es) @ take 4 (frame P (es ! q))"
      using moments_odd [of es P q "frames P old"] es q50 assms(4) by simp
    moreover have "\<forall>m\<in>set (old @ take q es). frame_ok P m" using assms(3) es(1) by (auto dest: in_set_takeD)
    moreover have "frame_ok P (es ! q)" "4 < length (frame P (es ! q))" using es(1) q50 by simp_all
    moreover from this have "strict_prefix (take 4 (frame P (es ! q))) (frame P (es ! q))" "take 4 (frame P (es ! q)) \<noteq> []"
      by (auto simp: strict_prefix_def take_is_prefix)
    ultimately have "read_unwrap P (file_at p f) (file_at p (seen ! Suc (2 * q))) p = None"
      using read_unwrap_torn by metis
    then show ?thesis using False unfolding len q by simp
  qed
qed

lemma those_not_None: "those xs \<noteq> None \<longleftrightarrow> None \<notin> set xs"
proof (induction xs)
  case (Cons x xs)
  then show ?case by (cases x) auto
qed simp

lemma those_upt: "those (map f [0..<n]) \<noteq> None \<longleftrightarrow> (\<forall>k<n. f k \<noteq> None)"
  unfolding those_not_None by force

text \<open>Eight bytes for the number, then a byte per character.\<close>

definition test_message :: "test_entry prost_message" where
  "test_message = \<lparr>encode = (\<lambda>e. Some (u64_to_le_bytes (te_id e) @ map (\<lambda>c. word_of_nat (of_char c)) (te_data e))),
     merge = (\<lambda>m bs. Some \<lparr>te_id = word_of_nat (of_le_bytes (take 8 bs)), te_data = map (\<lambda>b. char_of (unat b)) (drop 8 bs)\<rparr>),
     default_msg = entry 0 [], decode = (\<lambda>_. None)\<rparr>"

lemma test_message_codec: "test_codec test_message"
proof -
  have "map ((\<lambda>b :: u8. char_of (unat b)) \<circ> (\<lambda>c. word_of_nat (of_char c))) s = s" for s :: string
    by (rule map_idI) (simp add: unat_of_nat)
  then have "frame_ok test_message e \<and> 4 < length (frame test_message e) \<and> length (frame test_message e) \<le> 100"
    if "te_data e \<noteq> []" "length (te_data e) \<le> 20" for e
    using that by (cases e) (simp add: frame_ok_def frame_def test_message_def byte_simps)
  then show ?thesis by (simp add: test_codec_def)
qed

section \<open>Properties\<close>

text \<open>
  C35. Three of the four unit tests of the log pass on a disk without errors: what was written is
  read, by one reader and by ten at once, and an iterator sees later entries after a refresh and
  not before.
\<close>

theorem log_unit_tests_pass:
  assumes "test_codec P"
  shows "test_basic_write_read P = Some () \<and> test_concurrent_reads P = Some () \<and> test_refresh_iterator P = Some ()"
  using basic_test_passes [OF assms] concurrent_test_passes [OF assms] refresh_test_passes [OF assms] by blast

theorem log_unit_tests_pass_witness:
  "test_basic_write_read test_message = Some () \<and> test_refresh_iterator test_message = Some ()"
  using log_unit_tests_pass [OF test_message_codec] by blast

text \<open>
  C36. The fourth test, whose name says that reads do not block writes, expects more than the log
  gives: it passes exactly when no reader ever maps the file while an append has written the
  length of an entry and not yet the entry; otherwise the reader gets an error and panics.
\<close>

theorem read_write_test_passes_iff:
  assumes "test_codec P"
  shows "test_reads_dont_block_writes P look = Some () \<longleftrightarrow> (\<forall>r k. r < 5 \<and> k < 10 \<longrightarrow> even (min (snd (look r k)) 100))"
proof -
  let ?is = "numbered ''initial-'' 0 10" and ?cs = "numbered ''concurrent-'' 10 60"
  let ?seen = "moments P ?cs (frames P ?is)"
  let ?read = "\<lambda>r k. read_unwrap P (file_at ''read_write.log'' (?seen ! min (fst (look r k)) (length ?seen - 1)))
      (file_at ''read_write.log'' (?seen ! min (snd (look r k)) (length ?seen - 1))) ''read_write.log''"
  let ?reads = "those (map (\<lambda>r. those (map (?read r) [0..<10])) [0..<5])"
  have ok: "\<forall>e\<in>set ?is. frame_ok P e" "\<forall>e\<in>set ?cs. frame_ok P e" "length (frames P ?is) \<le> 10000"
    by (rule numbered_frames [OF assms]; simp)+
  have log: "append_each P ?is (log_of P []) = Some (log_of P ?is)" "append_each P ?cs (log_of P ?is) = Some (log_of P (?is @ ?cs))"
    using append_numbered [OF assms, of "''initial-''" 10 "[]" 0] append_numbered [OF assms, of "''concurrent-''" 60 ?is 10] ok(3) by simp_all
  have final: "read_unwrap P (file_at p f) (file_at p (frames P (?is @ ?cs))) p = Some (?is @ ?cs)" for p f
    by (rule read_unwrap_frames) (use ok in auto)
  have "?reads \<noteq> None \<longleftrightarrow> (\<forall>r k. r < 5 \<and> k < 10 \<longrightarrow> ?read r k \<noteq> None)"
    unfolding those_upt by blast
  also have "\<dots> \<longleftrightarrow> (\<forall>r k. r < 5 \<and> k < 10 \<longrightarrow> even (min (snd (look r k)) 100))"
    using read_at_moment [OF assms refl ok(1) refl] by simp
  finally have "?reads \<noteq> None \<longleftrightarrow> (\<forall>r k. r < 5 \<and> k < 10 \<longrightarrow> even (min (snd (look r k)) 100))" .
  moreover have "test_reads_dont_block_writes P look = Some () \<longleftrightarrow> ?reads \<noteq> None"
    unfolding test_reads_dont_block_writes_def open_unwrap_eq [of P]
    by (cases ?reads) (simp_all add: log final nth_append Let_def del: upt_rec_numeral frames_simps)
  ultimately show ?thesis by simp
qed

theorem read_write_test_passes_iff_witness:
  "test_reads_dont_block_writes test_message (\<lambda>_ k. (0, 2 * k)) = Some () \<and>
   test_reads_dont_block_writes test_message (\<lambda>_ k. (0, k)) \<noteq> Some ()"
proof -
  have "\<not> (\<forall>(r :: nat) (k :: nat). r < 5 \<and> k < 10 \<longrightarrow> even (min k 100))" by (auto intro!: exI [of _ 0] exI [of _ 1])
  moreover have "even (min (2 * k) 100)" for k :: nat by (simp add: min_def)
  ultimately show ?thesis
    using read_write_test_passes_iff [OF test_message_codec, of "\<lambda>_ k. (0, 2 * k)"]
      read_write_test_passes_iff [OF test_message_codec, of "\<lambda>_ k. (0, k)"] by auto
qed

end
