(* ===== verification/RpcCli.thy ===== *)
theory RpcCli
  imports ApiTheorems Config
begin

text \<open>
  The command line tool (\<open>client/src/bin/rpccli.rs\<close>): sending a text as a transaction and showing
  what a read returns. Text is a list of bytes in UTF-8, as in a Rust \<open>String\<close>; \<open>from_utf8_lossy\<close>
  of the standard library replaces each invalid sequence, as long as it could be the start of a
  valid one, by the replacement character. The remote call and its outcome are inputs.
\<close>

section \<open>UTF-8\<close>

definition char_width :: "u8 \<Rightarrow> nat" where
  "char_width b =
     (if b < 0x80 then 1 else if b < 0xC2 then 0 else if b < 0xE0 then 2 else if b < 0xF0 then 3
      else if b < 0xF5 then 4 else 0)"

definition continues :: "u8 \<Rightarrow> bool" where
  "continues b \<longleftrightarrow> 0x80 \<le> b \<and> b \<le> 0xBF"

definition second_ok :: "u8 \<Rightarrow> u8 \<Rightarrow> bool" where
  "second_ok b0 b1 \<longleftrightarrow> continues b1 \<and> (b0 = 0xE0 \<longrightarrow> 0xA0 \<le> b1) \<and> (b0 = 0xED \<longrightarrow> b1 \<le> 0x9F) \<and>
     (b0 = 0xF0 \<longrightarrow> 0x90 \<le> b1) \<and> (b0 = 0xF4 \<longrightarrow> b1 \<le> 0x8F)"

text \<open>The next character or invalid sequence of a text: whether it is valid, and its length.\<close>

fun utf8_next :: "bytes \<Rightarrow> bool \<times> nat" where
  "utf8_next [] = (True, 0)"
| "utf8_next (b0 # bs) =
     (let w = char_width b0 in
      if w = 0 then (False, 1)
      else if w = 1 then (True, 1)
      else if bs = [] \<or> \<not> second_ok b0 (bs ! 0) then (False, 1)
      else if w = 2 then (True, 2)
      else if length bs < 2 \<or> \<not> continues (bs ! 1) then (False, 2)
      else if w = 3 then (True, 3)
      else if length bs < 3 \<or> \<not> continues (bs ! 2) then (False, 3)
      else (True, 4))"

lemma utf8_next_pos: "bs \<noteq> [] \<Longrightarrow> 0 < snd (utf8_next bs)"
  by (cases bs) (simp_all add: Let_def)

declare utf8_next.simps [simp del]

definition REPLACEMENT :: bytes where
  "REPLACEMENT = [0xEF, 0xBF, 0xBD]"

function from_utf8_lossy :: "bytes \<Rightarrow> bytes" where
  "from_utf8_lossy bs =
     (if bs = [] then []
      else (let (ok, n) = utf8_next bs in
            (if ok then take n bs else REPLACEMENT) @ from_utf8_lossy (drop n bs)))"
  by pat_completeness auto
termination
proof (relation "measure length")
  fix bs :: bytes and x ok n
  assume "bs \<noteq> []" "x = utf8_next bs" "(ok, n) = x"
  then have "0 < n" using utf8_next_pos [of bs] by (metis snd_conv)
  with \<open>bs \<noteq> []\<close> show "(drop n bs, bs) \<in> measure length" by simp
qed simp

declare from_utf8_lossy.simps [simp del]

section \<open>The tool\<close>

datatype command = Read | Send bytes

datatype tonic_code = Cancelled | Internal | OtherCode nat

text \<open>The outcomes of the two calls: a status, or the reply.\<close>

type_synonym read_reply = "pod_data option"

datatype cli_result = CliOk | ConnectFailed | RpcFailed tonic_code

definition text_of :: "bytes \<Rightarrow> string" where
  "text_of bs = map (\<lambda>b. char_of (unat b)) bs"

definition show_u64 :: "u64 \<Rightarrow> string" where
  "show_u64 n = nat_to_string (unat n)"

definition record_data :: "tx_record \<Rightarrow> string" where
  "record_data r =
     (case tr_transaction r of Some txn \<Rightarrow> text_of (from_utf8_lossy (data txn)) | None \<Rightarrow> ''[No data]'')"

definition show_record :: "nat \<Rightarrow> tx_record \<Rightarrow> string list" where
  "show_record i r =
     [''Transaction #'' @ nat_to_string (i + 1),
      ''  Data: '' @ record_data r,
      ''  Min timestamp: '' @ show_u64 (rmin r),
      ''  Max timestamp: '' @ show_u64 (rmax r),
      ''  Confirmed timestamp: '' @ (case rconf r of None \<Rightarrow> ''Not confirmed'' | Some t \<Rightarrow> show_u64 t),
      '''']"

definition show_pod_data :: "pod_data \<Rightarrow> string list" where
  "show_pod_data pd =
     ['''', ''=== Pod Network State ==='', ''Past Perfect timestamp: '' @ show_u64 (rperf pd), '''', ''Transactions:''] @
     (if pd_t pd = [] then [''  No transactions found'']
      else concat (map (\<lambda>(i, r). show_record i r) (enumerate 0 (pd_t pd))))"

text \<open>What the two commands print and how they end; \<open>connects\<close> says whether \<open>create_client\<close> succeeds.\<close>

definition rpccli_read :: "bool \<Rightarrow> tonic_code + read_reply \<Rightarrow> string list \<times> cli_result" where
  "rpccli_read connects reply =
     (if \<not> connects then ([], ConnectFailed)
      else (case reply of
              Inl code \<Rightarrow>
                if code = Cancelled \<or> code = Internal
                then ([''The client is in an initialization state or recovering from errors.'',
                       ''Hint: The client node is likely still starting up or is missing data.'',
                       ''Wait a moment and try again, or check the client logs for errors.''], CliOk)
                else ([], RpcFailed code)
            | Inr None \<Rightarrow>
                ([''Successfully connected, but no pod data is available yet.'',
                  ''Try sending some data with: just rpccli-send \"Your transaction data\"''], CliOk)
            | Inr (Some pd) \<Rightarrow> (show_pod_data pd, CliOk)))"

text \<open>The request of \<open>Send\<close>, and what follows the call.\<close>

definition send_request :: "bytes \<Rightarrow> transaction option" where
  "send_request transaction_data = Some \<lparr>data = transaction_data\<rparr>"

definition rpccli_send :: "bool \<Rightarrow> tonic_code + bool \<Rightarrow> string list \<times> cli_result" where
  "rpccli_send connects reply =
     (if \<not> connects then ([], ConnectFailed)
      else (case reply of
              Inl code \<Rightarrow>
                if code = Cancelled \<or> code = Internal
                then ([''Unable to send transaction - client node appears to be in an initialization state.'',
                       ''Hint: The client node is likely still starting up or recovering from errors.'',
                       ''Wait a moment and try again, or check the client logs for errors.''], CliOk)
                else ([], RpcFailed code)
            | Inr success \<Rightarrow>
                ([if success then ''Transaction sent successfully'' else ''Transaction failed to send''], CliOk)))"

text \<open>The calls to the API server are functions of the request.\<close>

definition rpccli_main ::
  "bool \<Rightarrow> tonic_code + read_reply \<Rightarrow> (transaction option \<Rightarrow> tonic_code + bool) \<Rightarrow> command \<Rightarrow>
     string list \<times> cli_result" where
  "rpccli_main connects call_read call_write command =
     (case command of
        Read \<Rightarrow> rpccli_read connects call_read
      | Send transaction_data \<Rightarrow> rpccli_send connects (call_write (send_request transaction_data)))"

section \<open>Text as a sequence of characters\<close>

text \<open>The UTF-8 encoding of a Unicode scalar value, the reference for what a text is.\<close>

definition scalar_value :: "nat \<Rightarrow> bool" where
  "scalar_value c \<longleftrightarrow> c < 0xD800 \<or> (0xDFFF < c \<and> c < 0x110000)"

definition utf8_encode :: "nat \<Rightarrow> bytes" where
  "utf8_encode c = map word_of_nat
     (if c < 0x80 then [c]
      else if c < 0x800 then [0xC0 + c div 64, 0x80 + c mod 64]
      else if c < 0x10000 then [0xE0 + c div 4096, 0x80 + c div 64 mod 64, 0x80 + c mod 64]
      else [0xF0 + c div 262144, 0x80 + c div 4096 mod 64, 0x80 + c div 64 mod 64, 0x80 + c mod 64])"

definition encode_text :: "nat list \<Rightarrow> bytes" where
  "encode_text cs = concat (map utf8_encode cs)"

lemma unat_byte: "n < 256 \<Longrightarrow> unat (word_of_nat n :: u8) = n"
  by (simp add: unat_of_nat)

lemmas byte_order = word_less_nat_alt word_le_nat_alt word_unat_eq_iff

lemma char_width_unat:
  "char_width b =
     (if unat b < 0x80 then 1 else if unat b < 0xC2 then 0 else if unat b < 0xE0 then 2 else if unat b < 0xF0 then 3
      else if unat b < 0xF5 then 4 else 0)"
  by (simp add: char_width_def word_less_nat_alt)

lemma char_width_cases:
  "char_width b = 1 \<Longrightarrow> unat b < 0x80"
  "char_width b = 2 \<Longrightarrow> \<exists>x. 2 \<le> x \<and> x < 32 \<and> unat b = 0xC0 + x"
  "char_width b = 3 \<Longrightarrow> \<exists>x<16. unat b = 0xE0 + x"
  "char_width b = 4 \<Longrightarrow> \<exists>x<5. unat b = 0xF0 + x"
  unfolding char_width_unat
  by (force split: if_splits,
      intro exI [of _ "unat b - 0xC0"], force split: if_splits,
      intro exI [of _ "unat b - 0xE0"], force split: if_splits,
      intro exI [of _ "unat b - 0xF0"], force split: if_splits)

lemma utf8_next_valid:
  "unat b0 < 0x80 \<Longrightarrow> utf8_next (b0 # bs) = (True, 1)"
  "0xC2 \<le> unat b0 \<Longrightarrow> unat b0 < 0xE0 \<Longrightarrow> second_ok b0 b1 \<Longrightarrow> utf8_next (b0 # b1 # bs) = (True, 2)"
  "0xE0 \<le> unat b0 \<Longrightarrow> unat b0 < 0xF0 \<Longrightarrow> second_ok b0 b1 \<Longrightarrow> continues b2 \<Longrightarrow>
     utf8_next (b0 # b1 # b2 # bs) = (True, 3)"
  "0xF0 \<le> unat b0 \<Longrightarrow> unat b0 < 0xF5 \<Longrightarrow> second_ok b0 b1 \<Longrightarrow> continues b2 \<Longrightarrow> continues b3 \<Longrightarrow>
     utf8_next (b0 # b1 # b2 # b3 # bs) = (True, 4)"
  by (simp_all add: utf8_next.simps char_width_def byte_order)

lemma continues_unat: "unat b = 0x80 + n \<Longrightarrow> n < 64 \<Longrightarrow> continues b"
  by (simp add: continues_def byte_order)

lemma digits_of:
  fixes c :: nat
  shows "c = 4096 * (c div 4096) + 64 * (c div 64 mod 64) + c mod 64 \<and> c mod 64 < 64 \<and> c div 64 mod 64 < 64"
    and "c = 262144 * (c div 262144) + 4096 * (c div 4096 mod 64) + 64 * (c div 64 mod 64) + c mod 64 \<and>
      c mod 64 < 64 \<and> c div 64 mod 64 < 64 \<and> c div 4096 mod 64 < 64"
proof -
  have *: "c = 64 * (c div 64) + c mod 64" "c div 64 = 64 * (c div 4096) + c div 64 mod 64"
    "c div 4096 = 64 * (c div 262144) + c div 4096 mod 64"
    using div_mult2_eq [of c 64 64] div_mult2_eq [of c 4096 64]
      mult_div_mod_eq [of 64 c] mult_div_mod_eq [of 64 "c div 64"] mult_div_mod_eq [of 64 "c div 4096"] by simp_all
  then have "c = 64 * (64 * (c div 4096) + c div 64 mod 64) + c mod 64" by metis
  then show "c = 4096 * (c div 4096) + 64 * (c div 64 mod 64) + c mod 64 \<and> c mod 64 < 64 \<and> c div 64 mod 64 < 64" by simp
  then show "c = 262144 * (c div 262144) + 4096 * (c div 4096 mod 64) + 64 * (c div 64 mod 64) + c mod 64 \<and>
      c mod 64 < 64 \<and> c div 64 mod 64 < 64 \<and> c div 4096 mod 64 < 64" using *(3) by simp
qed

lemma utf8_next_encode:
  assumes "scalar_value c"
  shows "utf8_next (utf8_encode c @ bs) = (True, length (utf8_encode c))"
proof -
  have "c < 0x110000" using assms by (auto simp: scalar_value_def)
  then consider "c < 0x80" | "0x80 \<le> c" "c < 0x800" | "0x800 \<le> c" "c < 0x10000" | "0x10000 \<le> c" "c < 0x110000"
    by (meson not_le)
  then show ?thesis
  proof cases
    case 1
    then show ?thesis using unat_byte [of c] by (simp add: utf8_encode_def utf8_next_valid(1))
  next
    case 2
    define b0 b1 :: u8 where "b0 = word_of_nat (0xC0 + c div 64)" and "b1 = word_of_nat (0x80 + c mod 64)"
    have hi: "2 \<le> c div 64" "c div 64 < 32" using 2 by auto
    then have u: "unat b0 = 0xC0 + c div 64" "unat b1 = 0x80 + c mod 64"
      unfolding b0_def b1_def by (intro unat_byte; simp)+
    have "utf8_encode c = [b0, b1]" using 2 by (simp add: utf8_encode_def b0_def b1_def)
    with u hi continues_unat [OF u(2)] utf8_next_valid(2) [of b0 b1 bs] show ?thesis
      by (simp add: second_ok_def byte_order)
  next
    case 3
    define b0 b1 b2 :: u8 where "b0 = word_of_nat (0xE0 + c div 4096)"
      and "b1 = word_of_nat (0x80 + c div 64 mod 64)" and "b2 = word_of_nat (0x80 + c mod 64)"
    have hi: "c div 4096 < 16" using 3 by auto
    then have u: "unat b0 = 0xE0 + c div 4096" "unat b1 = 0x80 + c div 64 mod 64" "unat b2 = 0x80 + c mod 64"
      unfolding b0_def b1_def b2_def by (intro unat_byte; simp)+
    have "utf8_encode c = [b0, b1, b2]" using 3 by (simp add: utf8_encode_def b0_def b1_def b2_def)
    moreover have "c div 4096 = 0 \<longrightarrow> 32 \<le> c div 64 mod 64" "c div 4096 = 13 \<longrightarrow> c div 64 mod 64 < 32"
      using digits_of(1) [of c] 3 assms unfolding scalar_value_def by linarith+
    then have "second_ok b0 b1" using u hi continues_unat [OF u(2)] by (auto simp: second_ok_def byte_order)
    ultimately show ?thesis
      using u hi continues_unat [OF u(3)] utf8_next_valid(3) [of b0 b1 b2 bs] by simp
  next
    case 4
    define b0 b1 b2 b3 :: u8 where "b0 = word_of_nat (0xF0 + c div 262144)"
      and "b1 = word_of_nat (0x80 + c div 4096 mod 64)" and "b2 = word_of_nat (0x80 + c div 64 mod 64)"
      and "b3 = word_of_nat (0x80 + c mod 64)"
    have hi: "c div 262144 < 5" using 4 by auto
    then have u: "unat b0 = 0xF0 + c div 262144" "unat b1 = 0x80 + c div 4096 mod 64"
      "unat b2 = 0x80 + c div 64 mod 64" "unat b3 = 0x80 + c mod 64"
      unfolding b0_def b1_def b2_def b3_def by (intro unat_byte; simp)+
    have "utf8_encode c = [b0, b1, b2, b3]" using 4 by (simp add: utf8_encode_def b0_def b1_def b2_def b3_def)
    moreover have "c div 262144 = 0 \<longrightarrow> 16 \<le> c div 4096 mod 64" "c div 262144 = 4 \<longrightarrow> c div 4096 mod 64 < 16"
      using digits_of(2) [of c] 4 by linarith+
    then have "second_ok b0 b1" using u hi continues_unat [OF u(2)] by (auto simp: second_ok_def byte_order)
    ultimately show ?thesis
      using u hi continues_unat [OF u(3)] continues_unat [OF u(4)] utf8_next_valid(4) [of b0 b1 b2 b3 bs] by simp
  qed
qed

lemma utf8_encode_nonempty [simp]: "utf8_encode c \<noteq> []"
  by (simp add: utf8_encode_def)

lemma lossy_encode:
  "scalar_value c \<Longrightarrow> from_utf8_lossy (utf8_encode c @ bs) = utf8_encode c @ from_utf8_lossy bs"
  by (subst from_utf8_lossy.simps) (simp add: utf8_next_encode)

lemma lossy_text: "\<forall>c\<in>set cs. scalar_value c \<Longrightarrow> from_utf8_lossy (encode_text cs @ bs) = encode_text cs @ from_utf8_lossy bs"
  by (induction cs) (simp_all add: encode_text_def lossy_encode)

lemma lossy_nil [simp]: "from_utf8_lossy [] = []"
  by (simp add: from_utf8_lossy.simps)

section \<open>What the replacement leaves is text\<close>

lemma word_of_unat_byte: "unat b = n \<Longrightarrow> word_of_nat n = (b :: u8)"
  by auto

lemma encode_bytes:
  "unat b0 < 0x80 \<Longrightarrow> [b0] = utf8_encode (unat b0)"
  "2 \<le> x \<Longrightarrow> x < 32 \<Longrightarrow> y < 64 \<Longrightarrow> unat b0 = 0xC0 + x \<Longrightarrow> unat b1 = 0x80 + y \<Longrightarrow>
     [b0, b1] = utf8_encode (64 * x + y)"
  "x < 16 \<Longrightarrow> y < 64 \<Longrightarrow> z < 64 \<Longrightarrow> (x = 0 \<longrightarrow> 32 \<le> y) \<Longrightarrow> unat b0 = 0xE0 + x \<Longrightarrow> unat b1 = 0x80 + y \<Longrightarrow>
     unat b2 = 0x80 + z \<Longrightarrow> [b0, b1, b2] = utf8_encode (4096 * x + 64 * y + z)"
proof -
  show "unat b0 < 0x80 \<Longrightarrow> [b0] = utf8_encode (unat b0)" by (simp add: utf8_encode_def)
  show "[b0, b1] = utf8_encode (64 * x + y)"
    if "2 \<le> x" "x < 32" "y < 64" "unat b0 = 0xC0 + x" "unat b1 = 0x80 + y"
  proof -
    have "word_of_nat (0xC0 + x) = b0" "word_of_nat (0x80 + y) = b1" using that(4,5) by (metis word_of_unat_byte)+
    moreover have "(64 * x + y) div 64 = x" "(64 * x + y) mod 64 = y" "\<not> 64 * x + y < 0x80" "64 * x + y < 0x800"
      using that(1-3) by simp_all
    ultimately show ?thesis unfolding utf8_encode_def by (simp only: if_True if_False list.map)
  qed
  show "[b0, b1, b2] = utf8_encode (4096 * x + 64 * y + z)"
    if "x < 16" "y < 64" "z < 64" "x = 0 \<longrightarrow> 32 \<le> y" "unat b0 = 0xE0 + x" "unat b1 = 0x80 + y" "unat b2 = 0x80 + z"
  proof -
    let ?c = "4096 * x + 64 * y + z"
    have "word_of_nat (0xE0 + x) = b0" "word_of_nat (0x80 + y) = b1" "word_of_nat (0x80 + z) = b2"
      using that(5-7) by (metis word_of_unat_byte)+
    moreover have "?c div 4096 = x" "?c div 64 = 64 * x + y" using that(2,3) by simp_all
    moreover have "?c mod 64 = z" using mod_mult_self2 [of z 64 "64 * x + y"] that(3) by (simp add: algebra_simps)
    moreover from calculation have "?c div 64 mod 64 = y" using that(2) by simp
    moreover have "\<not> ?c < 0x80" "\<not> ?c < 0x800" "?c < 0x10000" using that(1-4) by (cases "x = 0"; simp)+
    ultimately show ?thesis unfolding utf8_encode_def by (simp only: if_True if_False list.map)
  qed
qed

lemma encode_four_bytes:
  assumes "x < 5" "w < 64" "y < 64" "z < 64" "x = 0 \<longrightarrow> 16 \<le> w"
    "unat b0 = 0xF0 + x" "unat b1 = 0x80 + w" "unat b2 = 0x80 + y" "unat b3 = 0x80 + z"
  shows "[b0, b1, b2, b3] = utf8_encode (262144 * x + 4096 * w + 64 * y + z)"
proof -
  let ?c = "262144 * x + 4096 * w + 64 * y + z"
  have "word_of_nat (0xF0 + x) = b0" "word_of_nat (0x80 + w) = b1" "word_of_nat (0x80 + y) = b2" "word_of_nat (0x80 + z) = b3"
    using assms(6-9) by (metis word_of_unat_byte)+
  moreover have "?c div 262144 = x" "?c div 4096 = 64 * x + w" "?c div 64 = 4096 * x + 64 * w + y"
    using assms(2-4) by simp_all
  moreover have "?c mod 64 = z" using mod_mult_self2 [of z 64 "4096 * x + 64 * w + y"] assms(4) by (simp add: algebra_simps)
  moreover from calculation have "?c div 4096 mod 64 = w" using assms(2) by simp
  moreover have "(4096 * x + 64 * w + y) mod 64 = y"
    using mod_mult_self2 [of y 64 "64 * x + w"] assms(3) by (simp add: algebra_simps)
  moreover from calculation have "?c div 64 mod 64 = y" by metis
  moreover have "\<not> ?c < 0x80" "\<not> ?c < 0x800" "\<not> ?c < 0x10000" using assms(1-5) by (cases "x = 0"; simp)+
  ultimately show ?thesis unfolding utf8_encode_def by (simp only: if_True if_False list.map)
qed

lemma utf8_next_scalar:
  assumes "utf8_next bs = (True, n)" and "bs \<noteq> []"
  shows "\<exists>c. scalar_value c \<and> take n bs = utf8_encode c"
proof -
  obtain b0 bs' where bs: "bs = b0 # bs'" using assms(2) by (cases bs) auto
  have cont: "\<exists>y<64. unat b = 0x80 + y" if "continues b" for b
    using that by (intro exI [of _ "unat b - 0x80"]) (auto simp: continues_def byte_order)
  have w: "char_width b0 \<noteq> 0" using assms(1) bs by (auto simp: utf8_next.simps Let_def split: if_splits)
  consider "char_width b0 = 1" "n = 1"
    | b1 ys where "char_width b0 = 2" "bs' = b1 # ys" "second_ok b0 b1" "n = 2"
    | b1 b2 ys where "char_width b0 = 3" "bs' = b1 # b2 # ys" "second_ok b0 b1" "continues b2" "n = 3"
    | b1 b2 b3 ys where "char_width b0 = 4" "bs' = b1 # b2 # b3 # ys" "second_ok b0 b1" "continues b2" "continues b3" "n = 4"
  proof -
    have "char_width b0 \<in> {1, 2, 3, 4}" using w by (auto simp: char_width_def split: if_splits)
    then show thesis
      using assms(1) bs that by (auto simp: utf8_next.simps Let_def neq_Nil_conv not_less Suc_le_length_iff numeral_eq_Suc split: if_splits)
  qed
  then show ?thesis
  proof cases
    case 1
    then have "unat b0 < 0x80" using char_width_cases(1) by blast
    with 1 bs encode_bytes(1) [of b0] show ?thesis
      by (intro exI [of _ "unat b0"]) (simp add: scalar_value_def)
  next
    case 2
    obtain y where y: "y < 64" "unat b1 = 0x80 + y" using cont 2(3) unfolding second_ok_def by blast
    obtain x where x: "2 \<le> x" "x < 32" "unat b0 = 0xC0 + x"
      using char_width_cases(2) [OF 2(1)] by blast
    with encode_bytes(2) [OF x(1,2) y(1) x(3) y(2)] 2 bs y show ?thesis
      by (intro exI [of _ "64 * x + y"]) (simp add: scalar_value_def)
  next
    case 3
    have "continues b1" using 3(3) by (simp add: second_ok_def)
    then obtain y where y: "y < 64" "unat b1 = 0x80 + y" using cont by blast
    obtain z where z: "z < 64" "unat b2 = 0x80 + z" using cont [OF 3(4)] by blast
    obtain x where x: "x < 16" "unat b0 = 0xE0 + x"
      using char_width_cases(3) [OF 3(1)] by blast
    have xy: "x = 0 \<longrightarrow> 32 \<le> y" "x = 13 \<longrightarrow> y < 32" using 3(3) x y by (auto simp: second_ok_def byte_order)
    have "x \<le> 12 \<or> x = 13 \<or> 14 \<le> x" by linarith
    then have "scalar_value (4096 * x + 64 * y + z)" unfolding scalar_value_def using xy(2) x(1) y(1) z(1) by linarith
    with encode_bytes(3) [OF x(1) y(1) z(1) xy(1) x(2) y(2) z(2)] 3 bs show ?thesis
      by (intro exI [of _ "4096 * x + 64 * y + z"]) simp
  next
    case 4
    have "continues b1" using 4(3) by (simp add: second_ok_def)
    then obtain w where v: "w < 64" "unat b1 = 0x80 + w" using cont by blast
    obtain y where y: "y < 64" "unat b2 = 0x80 + y" using cont [OF 4(4)] by blast
    obtain z where z: "z < 64" "unat b3 = 0x80 + z" using cont [OF 4(5)] by blast
    obtain x where x: "x < 5" "unat b0 = 0xF0 + x"
      using char_width_cases(4) [OF 4(1)] by blast
    have xw: "x = 0 \<longrightarrow> 16 \<le> w" "x = 4 \<longrightarrow> w < 16" using 4(3) x v by (auto simp: second_ok_def byte_order)
    have "x = 0 \<or> (1 \<le> x \<and> x \<le> 3) \<or> x = 4" using x(1) by linarith
    then have "scalar_value (262144 * x + 4096 * w + 64 * y + z)"
      unfolding scalar_value_def using xw v(1) y(1) z(1) by linarith
    with encode_four_bytes [OF x(1) v(1) y(1) z(1) xw(1) x(2) v(2) y(2) z(2)] 4 bs show ?thesis
      by (intro exI [of _ "262144 * x + 4096 * w + 64 * y + z"]) simp
  qed
qed

lemma replacement_char: "REPLACEMENT = utf8_encode 0xFFFD" "scalar_value 0xFFFD"
  by (simp_all add: REPLACEMENT_def utf8_encode_def scalar_value_def)

lemma lossy_is_text: "\<exists>cs. list_all scalar_value cs \<and> from_utf8_lossy bs = encode_text cs"
proof (induction bs rule: from_utf8_lossy.induct)
  case (1 bs)
  show ?case
  proof (cases "bs = []")
    case False
    obtain ok n where n: "utf8_next bs = (ok, n)" by fastforce
    obtain c where c: "scalar_value c" "(if ok then take n bs else REPLACEMENT) = utf8_encode c"
      using utf8_next_scalar [OF _ False, of n] n replacement_char by (cases ok) auto
    obtain cs where "list_all scalar_value cs" "from_utf8_lossy (drop n bs) = encode_text cs"
      using "1.IH" [OF False n [symmetric] refl] by blast
    with c False n show ?thesis
      by (intro exI [of _ "c # cs"]) (simp add: from_utf8_lossy.simps [of bs] encode_text_def)
  qed (auto simp: encode_text_def intro: exI [of _ "[]"])
qed

section \<open>Properties\<close>

text \<open>
  What the tool shows of a transaction's data is always well-formed text: the encoding of a
  sequence of Unicode scalar values; and it is the data itself exactly when that is such text.
\<close>

lemma shown_data_is_text:
  "(\<exists>cs. list_all scalar_value cs \<and> from_utf8_lossy bs = encode_text cs) \<and>
   (from_utf8_lossy bs = bs \<longleftrightarrow> (\<exists>cs. list_all scalar_value cs \<and> bs = encode_text cs))"
proof -
  have "from_utf8_lossy (encode_text cs) = encode_text cs" if "list_all scalar_value cs" for cs
    using lossy_text [of cs "[]"] that by (simp add: list_all_iff)
  then show ?thesis using lossy_is_text [of bs] by metis
qed

text \<open>
  C30. A text sent with the tool is shown as it was typed: \<open>send\<close> hands its bytes to the API as
  a transaction, which the API accepts whenever a connection task is there, and any later
  successful read of a state in which that transaction is on record shows it unchanged.
\<close>

theorem sent_text_is_shown:
  assumes "list_all scalar_value cs" and "typed = encode_text cs" and "0 < receivers ch"
    and "start_pod_data_updater E (init_client_state rs) vs = (s, e)" and "hash_order_ok ho s"
    and "read \<alpha> \<beta> ho s = Inr pd" and "the (send_request typed) \<in> dom (tsps s)"
  shows "write_tx (send_request typed) ch = (ch\<lparr>sent := sent ch @ [\<lparr>data = typed\<rparr>]\<rparr>, Inr True) \<and>
    rpccli_main True r (\<lambda>req. Inr (projr (snd (write_tx req ch)))) (Send typed) = ([''Transaction sent successfully''], CliOk) \<and>
    ''  Data: '' @ text_of typed \<in> set (fst (rpccli_main True (Inr (Some pd)) w Read))"
proof -
  have inv: "api_inv s" using reached_inv [OF assms(4)] by simp
  obtain m where m: "tsps s \<lparr>data = typed\<rparr> = Some m" using assms(7) by (auto simp: send_request_def)
  obtain rec where rec: "rec \<in> set (pd_t pd)" "read_tx \<alpha> \<beta> ho s \<lparr>data = typed\<rparr> = Some rec"
    using read_records(3) [OF assms(5) inv assms(6) m] by blast
  have "from_utf8_lossy typed = typed" using lossy_text [of cs "[]"] assms(1,2) by (simp add: list_all_iff)
  moreover have "tr_transaction rec = Some \<lparr>data = typed\<rparr>"
    using rec(2) by (auto simp: read_tx_def Let_def split: option.splits)
  ultimately have data: "record_data rec = text_of typed" by (simp add: record_data_def)
  obtain i where "i < length (pd_t pd)" "pd_t pd ! i = rec" using rec(1) by (auto simp: in_set_conv_nth)
  then have "(i, rec) \<in> set (enumerate 0 (pd_t pd))" by (auto simp: in_set_enumerate_eq)
  then have "''  Data: '' @ text_of typed \<in> set (show_pod_data pd)"
    unfolding show_pod_data_def using data rec(1) by (auto simp: show_record_def intro!: bexI [of _ "(i, rec)"])
  then show ?thesis using assms(3) 
    by (simp add: rpccli_main_def rpccli_read_def rpccli_send_def write_tx_def send_request_def)
qed

theorem sent_text_is_shown_witness:
  "''  Data: '' @ text_of [7] \<in> set (fst (rpccli_main True (Inr (Some three_read)) (\<lambda>_. Inr True) Read))"
proof -
  have typed: "list_all scalar_value [7]" "[7] = encode_text [7]"
    by (simp_all add: scalar_value_def encode_text_def utf8_encode_def)
  show ?thesis
    using sent_text_is_shown [OF typed _ abc_run(1) three_order_ok(2) three_read(1), of "\<lparr>receivers = 1, sent = []\<rparr>"]
    by (simp add: send_request_def abc_run(2))
qed

end
