(* ===== verification/Programs.thy ===== *)
theory Programs
  imports PodSystem RpcCli
begin

text \<open>
  The four programs from their command lines on: \<open>generate_replica_config\<close> and the files it writes,
  \<open>replica\<close>, \<open>client\<close> with the API server it starts, and \<open>rpccli\<close>. A configuration that was generated
  starts a pod. Parsing the command line, URLs and JSON is third-party code: the arguments are
  values, the other two are parameters.
\<close>

section \<open>Arguments\<close>

record generator_args =
  ga_count :: nat
  ga_base_url :: string
  ga_output :: string
  ga_privkey_output :: string

definition default_generator_args :: generator_args where
  "default_generator_args = \<lparr>ga_count = 3, ga_base_url = ''ws://localhost:12345'',
     ga_output = ''replicas_config.json'', ga_privkey_output = ''private_keys.json''\<rparr>"

record replica_args =
  ra_replica_id :: u64
  ra_replica_log_file :: string
  ra_port :: u16
  ra_private_key :: string

definition default_replica_args :: replica_args where
  "default_replica_args = \<lparr>ra_replica_id = 0, ra_replica_log_file = ''replica_wal'', ra_port = 12345,
     ra_private_key = ''e4f6cfdbd7503b2c27b8272362aa7200e92d82154e69f41402badb968e836e90''\<rparr>"

record client_args =
  ca_replicas_config_file :: string
  ca_alpha :: u64
  ca_beta :: u64
  ca_port :: u16

text \<open>The file has no default.\<close>

definition default_client_args :: "string \<Rightarrow> client_args" where
  "default_client_args config_file = \<lparr>ca_replicas_config_file = config_file, ca_alpha = 1, ca_beta = 0, ca_port = 50051\<rparr>"

record rpccli_args =
  cli_port :: u16
  cli_command :: command

definition default_rpccli_args :: "command \<Rightarrow> rpccli_args" where
  "default_rpccli_args c = \<lparr>cli_port = 50051, cli_command = c\<rparr>"

section \<open>The generator\<close>

type_synonym files = "string \<rightharpoonup> string"

text \<open>How creating and writing a file goes; a failing write leaves the first \<open>n\<close> characters.\<close>

datatype file_io = FileOk | CreateFails | WriteFails nat

definition write_file :: "(string \<Rightarrow> file_io) \<Rightarrow> string \<Rightarrow> string \<Rightarrow> files \<Rightarrow> files \<times> bool" where
  "write_file io p contents fs =
     (case io p of
        FileOk \<Rightarrow> (fs(p \<mapsto> contents), True)
      | CreateFails \<Rightarrow> (fs, False)
      | WriteFails n \<Rightarrow> (fs(p \<mapsto> take n contents), False))"

datatype generator_result = Generated | BadUrl | PortOverflow | JsonError | FileError

text \<open>\<open>serde_json\<close> for the two files.\<close>

record json_codec =
  replicas_to_json :: "replica_config list \<Rightarrow> string option"
  replicas_from_json :: "string \<Rightarrow> replica_config list option"
  keys_to_json :: "private_key_config list \<Rightarrow> string option"
  keys_from_json :: "string \<Rightarrow> private_key_config list option"

definition json_ok :: "json_codec \<Rightarrow> bool" where
  "json_ok J \<longleftrightarrow> (\<forall>cs j. replicas_to_json J cs = Some j \<longrightarrow> replicas_from_json J j = Some cs) \<and>
     (\<forall>ks j. keys_to_json J ks = Some j \<longrightarrow> keys_from_json J j = Some ks)"

definition generator_main ::
  "('sk, 'pk, 'sig) ed25519 \<Rightarrow> hex_codec \<Rightarrow> ('sk, 'pk) key_bytes \<Rightarrow> json_codec \<Rightarrow> (string \<Rightarrow> url option) \<Rightarrow>
     (nat \<Rightarrow> 'sk) \<Rightarrow> (string \<Rightarrow> file_io) \<Rightarrow> generator_args \<Rightarrow> files \<Rightarrow> files \<times> generator_result" where
  "generator_main E H K J parse keys io args fs =
     (case parse (ga_base_url args) of
        None \<Rightarrow> (fs, BadUrl)
      | Some base_url \<Rightarrow>
          (case generate_replica_config E H K base_url (ga_count args) keys of
             None \<Rightarrow> (fs, PortOverflow)
           | Some (replica_configs, private_key_configs) \<Rightarrow>
               (case replicas_to_json J replica_configs of
                  None \<Rightarrow> (fs, JsonError)
                | Some replica_json \<Rightarrow>
                    (case write_file io (ga_output args) replica_json fs of
                       (fs1, False) \<Rightarrow> (fs1, FileError)
                     | (fs1, True) \<Rightarrow>
                         (case keys_to_json J private_key_configs of
                            None \<Rightarrow> (fs1, JsonError)
                          | Some privkey_json \<Rightarrow>
                              (case write_file io (ga_privkey_output args) privkey_json fs1 of
                                 (fs2, False) \<Rightarrow> (fs2, FileError)
                               | (fs2, True) \<Rightarrow> (fs2, Generated)))))))"

section \<open>Replica, client and tool\<close>

text \<open>
  A replica with the id and the port it runs under. The log file is looked up on the disk; binding
  the port and the calls on the file are inputs.
\<close>

record 'sk replica_process =
  rq_id :: u64
  rq_port :: u16
  rq_key :: 'sk
  rq_server :: replica_server

definition replica_main ::
  "hex_codec \<Rightarrow> ('sk, 'pk) key_bytes \<Rightarrow> bool \<Rightarrow> bool \<Rightarrow> bool \<Rightarrow> disk \<Rightarrow> replica_args \<Rightarrow>
     replica_error + 'sk replica_process" where
  "replica_main H K open_ok meta_ok bind_ok d args =
     (case start_replica H K (ra_private_key args) open_ok meta_ok (d (ra_replica_log_file args)) bind_ok of
        Inl e \<Rightarrow> Inl e
      | Inr (signing_key, server) \<Rightarrow>
          Inr \<lparr>rq_id = ra_replica_id args, rq_port = ra_port args, rq_key = signing_key, rq_server = server\<rparr>)"

text \<open>The service behind the API: the shared maps, the sender of write requests and the two bounds.\<close>

record 'pk client_api_service =
  write_request_sender :: write_channel
  sv_maps :: "'pk client_state"
  sv_alpha :: u64
  sv_beta :: u64

record 'pk api_server =
  as_addr :: string
  as_service :: "'pk client_api_service"

text \<open>The server \<open>start_api_server\<close> serves until it fails, a step of the running client.\<close>

definition start_api_server ::
  "write_channel \<Rightarrow> 'pk client_state \<Rightarrow> u64 \<Rightarrow> u64 \<Rightarrow> u16 \<Rightarrow> 'pk api_server" where
  "start_api_server sender maps alpha beta port =
     \<lparr>as_addr = ''[::1]:'' @ nat_to_string (unat port),
      as_service = \<lparr>write_request_sender = sender, sv_maps = maps, sv_alpha = alpha, sv_beta = beta\<rparr>\<rparr>"

definition client_program ::
  "hex_codec \<Rightarrow> ('sk, 'pk) key_bytes \<Rightarrow> json_codec \<Rightarrow> (string \<Rightarrow> url option) \<Rightarrow> files \<Rightarrow> client_args \<Rightarrow>
     startup_error + ('pk client_node \<times> 'pk api_server)" where
  "client_program H K J parse fs args =
     (let config = process_replica_config_file H K parse (replicas_from_json J) (fs (ca_replicas_config_file args)) in
      case client_main (ca_alpha args) (ca_beta args) config of
        Inl e \<Rightarrow> Inl e
      | Inr maps \<Rightarrow>
          Inr (init_pod_network_client (projr config),
               start_api_server \<lparr>receivers = 1, sent = []\<rparr> maps (ca_alpha args) (ca_beta args) (ca_port args)))"

text \<open>\<open>create_client\<close> of the tool succeeds when a server listens on the address.\<close>

definition create_client :: "string set \<Rightarrow> u16 \<Rightarrow> bool" where
  "create_client listening port \<longleftrightarrow> ''http://[::1]:'' @ nat_to_string (unat port) \<in> (\<lambda>a. ''http://'' @ a) ` listening"

definition rpccli_program ::
  "string set \<Rightarrow> tonic_code + read_reply \<Rightarrow> (transaction option \<Rightarrow> tonic_code + bool) \<Rightarrow> rpccli_args \<Rightarrow>
     string list \<times> cli_result" where
  "rpccli_program listening call_read call_write args =
     rpccli_main (create_client listening (cli_port args)) call_read call_write (cli_command args)"

section \<open>Facts\<close>

lemma generator_files:
  assumes "generator_main E H K J parse keys io args fs = (fs', Generated)" and "json_ok J"
    and "ga_output args \<noteq> ga_privkey_output args"
  obtains u rcs pcs c k where "parse (ga_base_url args) = Some u"
    "generate_replica_config E H K u (ga_count args) keys = Some (rcs, pcs)"
    "fs' (ga_output args) = Some c" "replicas_from_json J c = Some rcs"
    "fs' (ga_privkey_output args) = Some k" "keys_from_json J k = Some pcs"
  using assms
  by (auto simp: generator_main_def write_file_def json_ok_def split: option.splits prod.splits bool.splits file_io.splits)

lemma replica_starts:
  assumes "parse_private_key H K (ra_private_key args) = Inr k" and "d (ra_replica_log_file args) = None"
  shows "\<exists>st. replica_main H K True True True d args =
      Inr \<lparr>rq_id = ra_replica_id args, rq_port = ra_port args, rq_key = k, rq_server = st\<rparr> \<and>
    start_replica H K (ra_private_key args) True True None True = Inr (k, st) \<and> running st"
  using assms
  by (simp add: replica_main_def start_replica_def init_pod_network_node_def open_log_def running_def Let_def)

lemma client_starts:
  assumes "process_replica_config_file H K parse (replicas_from_json J) (fs (ca_replicas_config_file c)) = Inr rs"
    and "4 * unat (ca_beta c) + 1 \<le> unat (ca_alpha c)" and "unat (ca_alpha c) + unat (ca_beta c) \<le> length rs" and "length rs < 2 ^ 64"
  shows "client_program H K J parse fs c = Inr (init_pod_network_client rs,
    start_api_server \<lparr>receivers = 1, sent = []\<rparr> (init_client_state rs) (ca_alpha c) (ca_beta c) (ca_port c))"
proof -
  have "unat (ca_alpha c) < 2 ^ 64" using unsigned_less [of "ca_alpha c", where ?'a = nat] by simp
  then have "client_main (ca_alpha c) (ca_beta c) (Inr rs) = Inr (init_client_state rs)"
    using assms(2-4) by (simp add: client_main_eq)
  then show ?thesis using assms(1) by (simp add: client_program_def)
qed

lemma tool_connects_iff:
  "snd (rpccli_program {as_addr (start_api_server sender maps \<alpha> \<beta> p)} call_read call_write t) = ConnectFailed \<longleftrightarrow> cli_port t \<noteq> p"
proof -
  have "create_client {as_addr (start_api_server sender maps \<alpha> \<beta> p)} (cli_port t) \<longleftrightarrow> cli_port t = p"
    by (auto simp: create_client_def start_api_server_def word_unat_eq_iff)
  then show ?thesis
    by (auto simp: rpccli_program_def rpccli_main_def rpccli_read_def rpccli_send_def split: command.splits sum.splits option.splits)
qed

section \<open>Property\<close>

text \<open>
  C34. A generated configuration starts a pod. When the generator has written its two files for a base
  URL with scheme \<open>ws\<close> (it takes any other too: the replicas serve plain WebSockets only), a
  client started on the first one runs, for all \<open>alpha\<close> and \<open>beta\<close> that the number of replicas
  admits, with as many replicas as were asked for; every replica started with its entry of the
  second file runs, with the key the client verifies its votes against and on the port that the client connects to; together they form a pod as in \<^verbatim>\<open>PodSystem\<close>. The tool reaches the client exactly
  when it is given the client's port.
\<close>

theorem generated_configuration_starts_pod:
  assumes "hex_ok H" and "key_bytes_ok K" and "ed25519_ok E" and "json_ok J" and "url_parser_ok parse"
    and "parse (ga_base_url args) = Some u" and "url_scheme u = ''ws''"
    and "generator_main E H K J parse keys io args fs = (fs', Generated)" and "ga_count args \<le> 2 ^ 16"
    and "ga_output args \<noteq> ga_privkey_output args" and "ca_replicas_config_file c = ga_output args"
    and "4 * unat (ca_beta c) + 1 \<le> unat (ca_alpha c)" and "unat (ca_alpha c) + unat (ca_beta c) \<le> ga_count args"
  shows "\<exists>rs server pcs srvs.
    client_program H K J parse fs' c = Inr (init_pod_network_client rs, server) \<and> length rs = ga_count args \<and>
    Option.bind (fs' (ga_privkey_output args)) (keys_from_json J) = Some pcs \<and> length pcs = ga_count args \<and>
    (\<forall>i<ga_count args. rp_id (rs ! i) = pc_id (pcs ! i) \<and>
       url_scheme (rp_url (rs ! i)) = url_scheme u \<and> url_host (rp_url (rs ! i)) = url_host u \<and>
       ws_port (rp_url (rs ! i)) = Some (pc_port (pcs ! i)) \<and>
       replica_main H K True True True (\<lambda>_. None) \<lparr>ra_replica_id = pc_id (pcs ! i), ra_replica_log_file = wal i,
         ra_port = pc_port (pcs ! i), ra_private_key = pc_privk (pcs ! i)\<rparr> =
         Inr \<lparr>rq_id = rp_id (rs ! i), rq_port = pc_port (pcs ! i), rq_key = keys i, rq_server = srvs ! i\<rparr> \<and> running (srvs ! i) \<and>
       (\<forall>txn t n. verify_vote_signature E (rp_pk (rs ! i)) (data txn) t n
          (signature (signed_vote E (keys i) (rp_id (rs ! i)) txn t n)))) \<and>
    replicas_started \<lparr>su_E = E, su_P = P, su_PV = PV, su_rs = rs, su_keys = map keys [0..<ga_count args],
      su_cap = cap, su_faulty = F\<rparr> srvs \<and>
    (\<forall>call_read call_write t. snd (rpccli_program {as_addr server} call_read call_write t) = ConnectFailed \<longleftrightarrow>
       cli_port t \<noteq> ca_port c)"
proof -
  let ?n = "ga_count args"
  obtain rcs pcs f k where g: "generate_replica_config E H K u ?n keys = Some (rcs, pcs)"
    "fs' (ga_output args) = Some f" "replicas_from_json J f = Some rcs"
    "fs' (ga_privkey_output args) = Some k" "keys_from_json J k = Some pcs"
    by (rule generator_files [OF assms(8,4,10)]) (use assms(6) in auto)
  obtain rs where rs: "process_replica_config_file H K parse (replicas_from_json J) (Some f) = Inr rs" "length rs = ?n" "distinct (map rp_id rs)"
    "length pcs = ?n" and each: "\<forall>i<?n. pc_id (pcs ! i) = rp_id (rs ! i) \<and>
       url_scheme (rp_url (rs ! i)) = url_scheme u \<and> url_host (rp_url (rs ! i)) = url_host u \<and>
       ws_port (rp_url (rs ! i)) = Some (pc_port (pcs ! i)) \<and>
       parse_private_key H K (pc_privk (pcs ! i)) = Inr (keys i) \<and>
       (\<forall>txn t n. verify_vote_signature E (rp_pk (rs ! i)) (data txn) t n (signature (signed_vote E (keys i) (rp_id (rs ! i)) txn t n)))"
    using generated_configuration [OF assms(1-3,9,5,6) _ g(1), of "replicas_from_json J" f] g(3) assms(7) by blast
  let ?args = "\<lambda>i. \<lparr>ra_replica_id = pc_id (pcs ! i), ra_replica_log_file = wal i, ra_port = pc_port (pcs ! i), ra_private_key = pc_privk (pcs ! i)\<rparr>"
  let ?rq = "\<lambda>i st. \<lparr>rq_id = pc_id (pcs ! i), rq_port = pc_port (pcs ! i), rq_key = keys i, rq_server = st\<rparr>"
  have "\<forall>i<?n. \<exists>st. replica_main H K True True True (\<lambda>_. None) (?args i) = Inr (?rq i st) \<and>
      start_replica H K (pc_privk (pcs ! i)) True True None True = Inr (keys i, st) \<and> running st"
  proof (intro allI impI)
    fix i assume "i < ?n"
    then show "\<exists>st. replica_main H K True True True (\<lambda>_. None) (?args i) = Inr (?rq i st) \<and>
        start_replica H K (pc_privk (pcs ! i)) True True None True = Inr (keys i, st) \<and> running st"
      using each replica_starts [of H K "?args i" "keys i" "\<lambda>_. None"] by simp
  qed
  then obtain st where st: "\<forall>i<?n. replica_main H K True True True (\<lambda>_. None) (?args i) = Inr (?rq i (st i)) \<and>
      start_replica H K (pc_privk (pcs ! i)) True True None True = Inr (keys i, st i) \<and> running (st i)" by metis
  let ?srvs = "map st [0..<?n]"
  have started: "replicas_started \<lparr>su_E = E, su_P = P, su_PV = PV, su_rs = rs, su_keys = map keys [0..<?n],
      su_cap = cap, su_faulty = F\<rparr> ?srvs"
    using rs(2,3) st unfolding replicas_started_def by fastforce
  have "length rs < 2 ^ 64" using rs(2) assms(9) by simp
  then have client: "client_program H K J parse fs' c = Inr (init_pod_network_client rs,
      start_api_server \<lparr>receivers = 1, sent = []\<rparr> (init_client_state rs) (ca_alpha c) (ca_beta c) (ca_port c))"
    using client_starts [of H K parse J fs' c rs] rs(1,2) g(2) assms(11-13) by simp
  show ?thesis
    by (rule exI [of _ rs], rule exI, rule exI [of _ pcs], rule exI [of _ ?srvs],
        intro conjI, rule client) (use rs(2,4) each st started g(4,5) in \<open>simp_all add: tool_connects_iff\<close>)
qed

text \<open>Three replicas and a client with default arguments; the two files hold one configuration each.\<close>

definition demo_json :: json_codec where
  "demo_json = (case generate_replica_config demo_ed25519 demo_hex demo_keys local_url 3 word_of_nat of
     Some (rcs, pcs) \<Rightarrow> \<lparr>replicas_to_json = (\<lambda>cs. if cs = rcs then Some ''replicas'' else None),
       replicas_from_json = (\<lambda>s. if s = ''replicas'' then Some rcs else None),
       keys_to_json = (\<lambda>ks. if ks = pcs then Some ''keys'' else None),
       keys_from_json = (\<lambda>s. if s = ''keys'' then Some pcs else None)\<rparr>)"

theorem generated_configuration_starts_pod_witness:
  "\<exists>fs rs server. generator_main demo_ed25519 demo_hex demo_keys demo_json demo_parse word_of_nat
       (\<lambda>_. FileOk) default_generator_args Map.empty = (fs, Generated) \<and>
     client_program demo_hex demo_keys demo_json demo_parse fs (default_client_args ''replicas_config.json'') =
       Inr (init_pod_network_client rs, server) \<and> length rs = 3 \<and>
     snd (rpccli_program {as_addr server} (Inr None) (\<lambda>_. Inr True) (default_rpccli_args Read)) \<noteq> ConnectFailed"
proof -
  note defs = default_generator_args_def default_client_args_def default_rpccli_args_def
  obtain rcs pcs where g: "generate_replica_config demo_ed25519 demo_hex demo_keys local_url 3 word_of_nat = Some (rcs, pcs)"
    by (simp add: generate_replica_config_def replica_entry_def local_url_def upt_rec Let_def)
  have json: "json_ok demo_json" by (simp add: json_ok_def demo_json_def g)
  let ?c = "default_client_args ''replicas_config.json''"
  obtain fs where fs: "generator_main demo_ed25519 demo_hex demo_keys demo_json demo_parse word_of_nat (\<lambda>_. FileOk)
      default_generator_args Map.empty = (fs, Generated)"
    by (simp add: generator_main_def defs g demo_json_def write_file_def demo_parse_local)
  have url: "demo_parse (ga_base_url default_generator_args) = Some local_url" "url_scheme local_url = ''ws''"
    by (simp_all add: defs demo_parse_local local_url_def)
  have args: "ga_count default_generator_args = 3" "ga_output default_generator_args \<noteq> ga_privkey_output default_generator_args"
    "ca_replicas_config_file ?c = ga_output default_generator_args"
    "4 * unat (ca_beta ?c) + 1 \<le> unat (ca_alpha ?c)" "unat (ca_alpha ?c) + unat (ca_beta ?c) \<le> ga_count default_generator_args"
    "ga_count default_generator_args \<le> 2 ^ 16" "ca_port ?c = cli_port (default_rpccli_args Read)" by (simp_all add: defs)
  from generated_configuration_starts_pod [OF demo_hex_ok demo_keys_ok demo_ed25519_ok json demo_parse_ok url fs args(6,2-5),
      where wal = "\<lambda>_. ''replica_wal''" and P = demo_record_message and PV = server_vote_message and cap = 128 and F = "{}"]
  obtain rs server where "client_program demo_hex demo_keys demo_json demo_parse fs ?c = Inr (init_pod_network_client rs, server)"
    "length rs = ga_count default_generator_args" "\<forall>call_read call_write t. snd (rpccli_program {as_addr server} call_read call_write t) = ConnectFailed \<longleftrightarrow>
      cli_port t \<noteq> ca_port ?c"
    by (elim exE conjE) (rule that)
  with fs args(1,7) show ?thesis by auto
qed

end
