(* ===== verification/Spec2Isabelle.thy ===== *)
theory Spec2Isabelle
  imports PodExample ReplicaProgress ReadAtomic LockProgress LogTests Programs
begin

text \<open>
  Podnet: replicas that vote on transactions, and clients that turn votes into a view of the pod.

  \<^bold>\<open>The program.\<close> A replica (\<open>src/pod\<close>) accepts transactions over WebSocket connections, gives each
  a sequence number, a round (100 ms) and a signature, appends the record to a log file and
  broadcasts the vote; a second task broadcasts heartbeat votes from the same sequence. A client
  (\<open>src/client\<close>) connects to all configured replicas, checks and orders their votes, keeps the
  most recent round per replica and the rounds per transaction, and serves reads that turn these
  into bounds on when a transaction is confirmed. \<open>src/common\<close> generates configurations. The
  protocol is that of the pod paper (\<open>pod-core.pdf\<close> in the repository).

  \<^bold>\<open>The theories.\<close>
  \<^item> \<^verbatim>\<open>Prelude\<close>: machine words, checked addition, little-endian bytes; \<open>service_loop\<close>, the loop
    all services share, and the two interfaces the components are proved against: \<open>service\<close> (what
    an iteration keeps and never undoes holds of every run) and \<open>append_log\<close> (appends add up).
  \<^item> \<^verbatim>\<open>Wire\<close>: the messages of the two \<open>.proto\<close> files, the signed bytes of a vote, and the
    parameters for third-party code (\<open>prost\<close>, \<open>ed25519_dalek\<close>) with their contracts.
  \<^item> \<^verbatim>\<open>ReplicaLog\<close> (\<open>pod/src/replica_log.rs\<close>): opening, appending, the memory-mapped iterator and
    its refresh, over what the operating system answers. Round trip, readers during an append,
    failed appends. \<^verbatim>\<open>LogTests\<close>: its unit tests as programs; three pass, the fourth by timing.
  \<^item> \<^verbatim>\<open>VoteServices\<close> (\<open>log_vote_service.rs\<close>, \<open>heartbeat_service.rs\<close>, \<open>utils.rs\<close>): one iteration
    and the loop of both services. \<^verbatim>\<open>ReplicaNode\<close> (\<open>pod_network_node.rs\<close>): both interleaved on
    the shared counter, as a step relation with an invariant.
  \<^item> \<^verbatim>\<open>ClientComms\<close> (\<open>client_comms_service.rs\<close>) and \<^verbatim>\<open>ReplicaComms\<close>
    (\<open>replica_comms_service.rs\<close>): the two ends of a connection, task by task.
  \<^item> \<^verbatim>\<open>SortedMap\<close>: the ordered-map interface of the backlog and its sorted-list instance.
    \<^verbatim>\<open>PodDataUpdater\<close> (\<open>pod_data_updater.rs\<close>): the client's maps, \<open>process_vote\<close>, the backlog loop,
    the handler. \<^verbatim>\<open>UpdaterInvariant\<close>: its invariant and what it never undoes.
    \<^verbatim>\<open>UpdaterRefinement\<close>: Algorithm 1 and the refinement, and the account of what arrived.
    \<^verbatim>\<open>UpdaterTheorems\<close>: the handler's properties.
  \<^item> \<^verbatim>\<open>OrderStats\<close>: order statistics by counting. \<^verbatim>\<open>ClientApi\<close> (\<open>client_api_service.rs\<close>): the
    bounds, \<open>read\<close> and \<open>write\<close>, over the iteration order of the hash maps.
    \<^verbatim>\<open>ApiTheorems\<close>, \<^verbatim>\<open>PastPerfect\<close>: what a read reports, and how reads relate over time.
  \<^item> \<^verbatim>\<open>SharedMaps\<close>: handler and reads cut at every lock they take, the locks with their queues; the
    lock order admits a deadlock. \<^verbatim>\<open>ReadAtomic\<close>: a read is that of maps the handler reaches on whole
    votes. \<^verbatim>\<open>LockProgress\<close>: each of them alone comes to an end, and when a deadlock is for good.
  \<^item> \<^verbatim>\<open>Config\<close> (\<open>generate_replica_config.rs\<close>, \<open>hex_serde\<close>, the two \<open>main\<close> functions): writing and
    reading configurations, over a parser of URLs (\<open>url\<close>) as a parameter with its contract.
  \<^item> \<^verbatim>\<open>ReplicaServer\<close> (\<open>bin/replica.rs\<close>, \<open>init_pod_network_node\<close>, \<open>start_client_comms_service\<close>):
    a whole replica, its services and all tasks of all connections, as a step relation around its
    channels. Logging a record and broadcasting its vote are two steps, so that a connection may read
    the log in between, and a funnel that has taken a vote may have to wait before it passes it on. The
    log, the broadcast votes and what the connections send are in step. \<^verbatim>\<open>ReplicaProgress\<close>: all that a
    running replica has accepted can be logged and its votes sent to every connection that keeps up.
    Both are about replicas that started on an empty log and whose disk works.
  \<^item> \<^verbatim>\<open>ClientNode\<close> (\<open>pod_network_client.rs\<close>): a whole client, its API, its handler and its
    connections, as a step relation around its channels; what its maps are of what came out of
    the WebSockets, and which writes reach a replica.
  \<^item> \<^verbatim>\<open>Joining\<close>: replica log, connection and client handler together: what a client that connects
    late knows. \<^verbatim>\<open>Agreement\<close>: two clients of the same replicas, their records of a replica that
    follows the protocol, and the bounds of one against the votes of the other.
  \<^item> \<^verbatim>\<open>PodSystem\<close>: any number of whole clients and the whole replicas of their configuration,
    joined by their connections, some of the replicas faulty. Only written transactions are on
    record for the others, clients agree about them, and the bounds of one client hold for the
    votes of another. \<^verbatim>\<open>PodProgress\<close>: a transaction can travel from any client through a running
    replica to any other. \<^verbatim>\<open>PodFaults\<close>: only a faulty replica can end a client's vote handler, and
    each one can. \<^verbatim>\<open>PodExample\<close>: an execution of such a pod, with a faulty replica.
  \<^item> \<^verbatim>\<open>RpcCli\<close> (\<open>bin/rpccli.rs\<close>): the command line tool, with the standard library's lossy UTF-8
    decoding. \<^verbatim>\<open>Programs\<close>: the four programs from their arguments on, the files of the generator
    and the API server (\<open>start_api_server\<close>); a generated configuration starts a pod.

  \<^bold>\<open>How the code is read.\<close> A service is a function from its state and the inputs it has taken to
  the state reached and the error that ended it, if any; the clock, I/O outcomes, channel states
  and the order of hash maps are inputs. Hash maps are partial functions, tree maps sorted lists,
  \<open>u16\<close>, \<open>u32\<close> and \<open>u64\<close> words of their width; \<open>usize\<close> values are natural numbers where they
  index memory and 64-bit words where the code computes with them. Additions that panic on
  overflow in a checked build (\<open>*nextsn + 1\<close>, the file size, ports) are errors of the model;
  \<open>fetch_add\<close> wraps. Loops are recursive functions with termination proofs; no fuel is used.
  Concurrency is modelled where tasks share state: the two vote services on the counter
  (\<^verbatim>\<open>ReplicaNode\<close>), handler and reads on the client's maps (\<^verbatim>\<open>SharedMaps\<close>), funnel and catch-up
  task on a connection's channel (interleavings in \<^verbatim>\<open>ClientComms\<close> and \<^verbatim>\<open>Joining\<close>), and all tasks of
  a replica and of a client on their channels (\<^verbatim>\<open>ReplicaServer\<close>, \<^verbatim>\<open>ClientNode\<close>). Channels are those
  of \<open>tokio\<close> as documented: a bounded channel makes its senders wait; a broadcast channel keeps the
  last \<open>cap\<close> values, a parameter (at least the requested hundred), and a receiver further behind
  gets an error once and goes on with the oldest value kept. Its read-write locks serve in the
  order of asking, so that a writer that waits keeps new readers out.

  \<^bold>\<open>Faults.\<close> A connection may break at any time and messages be delayed for any time. A faulty
  replica is one over whose connections a client may receive any message; that signatures cannot
  be forged is the guard \<open>unforged\<close> of its steps: a vote that verifies under the id of another
  replica which is not faulty was cast by it. Replicas do not restart within a run. The
  theorems about a whole pod assume at most \<open>2^64\<close> steps and that nothing exceeds what the
  formats can hold (\<open>within_limits\<close>).

  \<^bold>\<open>What is not modelled.\<close> Sockets, the WebSocket, gRPC and JSON libraries, parsing of command
  lines and logging, all third-party code whose outcomes are inputs; build scripts, which generate
  code from the \<open>.proto\<close> files; \<open>nethammer\<close>, a stub; the tests that run the client binary.

  \<^bold>\<open>Plan.\<close> Next: replicas that restart on their log within a pod, where sequence numbers repeat;
  connections that end and what is lost with them; how far apart the rounds of two replicas can be.
\<close>

end
